(* ===== verification/Prelude.thy ===== *)
theory Prelude
  imports Main "HOL-Library.Word" "HOL-Library.Monad_Syntax" "HOL-Library.Signed_Division"
begin

text \<open>
  Shared vocabulary of the development: the machine integer types of the C code, byte buffers
  and their bounds-checked accesses, little-endian loads, block decomposition of a buffer, and
  the generic lemmas on words, lists and options that the component theories use.

  Undefined behaviour of the C code (a read outside a buffer, a dereference of a pointer that
  addresses no object, signed overflow of a loop counter) is the value \<^term>\<open>None\<close> of an
  option type throughout: a theorem that an operation returns \<^term>\<open>Some\<close> states, among other
  things, that no such behaviour occurs.
\<close>

unbundle bit_operations_syntax

named_theorems bufsimps \<open>bounds-checked buffer accesses that are in range\<close>
named_theorems injs \<open>injectivity of the mixing steps\<close>

section \<open>Machine integers and buffers\<close>

type_synonym u8 = "8 word"
type_synonym u16 = "16 word"
type_synonym u32 = "32 word"
type_synonym u64 = "64 word"
type_synonym bytes = "u8 list"
type_synonym addr = nat

text \<open>A C string literal as the bytes it denotes (without the terminating NUL).\<close>

definition cstr :: "string \<Rightarrow> bytes" where
  "cstr s = map of_char s"

text \<open>Reading one element of an array: \<open>xs[i]\<close>, undefined outside the array.\<close>

definition rd :: "'a list \<Rightarrow> int \<Rightarrow> 'a option" where
  "rd xs i = (if 0 \<le> i \<and> i < int (length xs) then Some (xs ! nat i) else None)"

text \<open>The little-endian value of a run of bytes, and the load of \<open>w\<close> consecutive bytes.\<close>

definition le_word :: "bytes \<Rightarrow> 'a::len word" where
  "le_word bs = foldr (\<lambda>b acc. push_bit 8 acc OR ucast b) bs 0"

definition ld :: "nat \<Rightarrow> bytes \<Rightarrow> int \<Rightarrow> 'a::len word option" where
  "ld w d off =
     (if 0 \<le> off \<and> off + int w \<le> int (length d) then Some (le_word (take w (drop (nat off) d)))
      else None)"

text \<open>The full blocks of \<open>n\<close> elements at the front of a list; a shorter rest is dropped.\<close>

function chunks :: "nat \<Rightarrow> 'a list \<Rightarrow> 'a list list" where
  "chunks n xs =
     (if n = 0 \<or> length xs < n then [] else take n xs # chunks n (drop n xs))"
  by pat_completeness auto
termination
  by (relation "measure (\<lambda>(n, xs). length xs)") auto

declare chunks.simps [simp del]

text \<open>
  Two counting loops of the C code over a state: \<open>for (i = a; i < b; i++)\<close> and
  \<open>for (i = a; i; i++)\<close>. The second reaches zero only from a start that is not positive;
  from a positive one the counter overflows.
\<close>

function for_up :: "(int \<Rightarrow> 's \<Rightarrow> 's option) \<Rightarrow> int \<Rightarrow> int \<Rightarrow> 's \<Rightarrow> 's option" where
  "for_up step b i s =
     (if i < b then (case step i s of None \<Rightarrow> None | Some s' \<Rightarrow> for_up step b (i + 1) s') else Some s)"
  by pat_completeness auto
termination
  by (relation "measure (\<lambda>(step, b, i, s). nat (b - i))") auto

function for_neg :: "(int \<Rightarrow> 's \<Rightarrow> 's option) \<Rightarrow> int \<Rightarrow> 's \<Rightarrow> 's option" where
  "for_neg step i s =
     (if i = 0 then Some s
      else if 0 < i then None
      else (case step i s of None \<Rightarrow> None | Some s' \<Rightarrow> for_neg step (i + 1) s'))"
  by pat_completeness auto
termination
  by (relation "measure (\<lambda>(step, i, s). nat (- i))") auto

declare for_up.simps [simp del] for_neg.simps [simp del]

section \<open>Generic lemmas\<close>

lemma rd_Some [bufsimps]: "i < length xs \<Longrightarrow> rd xs (int i) = Some (xs ! i)"
  by (simp add: rd_def)

lemma rd_None_iff: "rd xs i = None \<longleftrightarrow> i < 0 \<or> int (length xs) \<le> i"
  by (auto simp: rd_def)

lemma ld_Some [bufsimps]:
  "i + w \<le> length d \<Longrightarrow> ld w d (int i) = Some (le_word (take w (drop i d)))"
  by (simp add: ld_def)

lemma length_chunks: "0 < n \<Longrightarrow> length (chunks n xs) = length xs div n"
proof (induction n xs rule: chunks.induct)
  case (1 n xs)
  show ?case
  proof (cases "length xs < n")
    case True
    with 1 show ?thesis by (simp add: chunks.simps [of n xs])
  next
    case False
    with 1 have "length (chunks n (drop n xs)) = (length xs - n) div n" by simp
    with False 1 show ?thesis by (simp add: chunks.simps [of n xs] le_div_geq)
  qed
qed

lemma nth_chunks:
  "0 < n \<Longrightarrow> i < length xs div n \<Longrightarrow> chunks n xs ! i = take n (drop (n * i) xs)"
proof (induction n xs arbitrary: i rule: chunks.induct)
  case (1 n xs)
  then have long: "\<not> length xs < n" by (auto simp: div_less)
  show ?case
  proof (cases i)
    case 0
    with long "1.prems" show ?thesis by (simp add: chunks.simps [of n xs])
  next
    case (Suc j)
    with long "1.prems" have j: "j < length (drop n xs) div n" by (simp add: le_div_geq)
    have "chunks n (drop n xs) ! j = take n (drop (n * j) (drop n xs))"
      by (rule "1.IH") (use long "1.prems"(1) j in auto)
    with long Suc "1.prems" show ?thesis by (simp add: chunks.simps [of n xs] add.commute)
  qed
qed

lemma fold_drop_step:
  "i < length xs \<Longrightarrow> fold f (drop i xs) s = fold f (drop (Suc i) xs) (f (xs ! i) s)"
  by (metis Cons_nth_drop_Suc fold_simps(2))

text \<open>A counting loop whose body absorbs one element of a list per round is a fold over it.\<close>

lemma for_up_fold:
  assumes n: "length xs = n"
    and step: "\<And>j s. j < n \<Longrightarrow> step (int j) s = Some (f (xs ! j) s)"
  shows "for_up step (int n) 0 s = Some (fold f xs s)"
proof -
  note assms = step [folded n]
  have "m \<le> length xs \<Longrightarrow>
    for_up step (int (length xs)) (int (length xs) - int m) s = Some (fold f (drop (length xs - m) xs) s)"
    for m
  proof (induction m arbitrary: s)
    case 0
    then show ?case by (simp add: for_up.simps)
  next
    case (Suc m)
    let ?j = "length xs - Suc m"
    have j: "?j < length xs" "Suc ?j = length xs - m"
      "int (length xs) - int (Suc m) = int ?j" "int ?j + 1 = int (length xs) - int m"
      using Suc.prems by auto
    from Suc show ?case
      by (simp only: j(3)) (simp add: for_up.simps [of _ _ "int ?j"] assms j fold_drop_step
          del: of_nat_diff)
  qed
  from this [of "length xs"] show ?thesis by (simp add: n)
qed

lemma for_neg_fold:
  assumes n: "length xs = n"
    and step: "\<And>j s. j < n \<Longrightarrow> step (int j - int n) s = Some (f (xs ! j) s)"
  shows "for_neg step (- int n) s = Some (fold f xs s)"
proof -
  note assms = step [folded n]
  have "m \<le> length xs \<Longrightarrow> for_neg step (- int m) s = Some (fold f (drop (length xs - m) xs) s)" for m
  proof (induction m arbitrary: s)
    case 0
    then show ?case by (simp add: for_neg.simps)
  next
    case (Suc m)
    let ?j = "length xs - Suc m"
    have j: "?j < length xs" "Suc ?j = length xs - m" "- int (Suc m) + 1 = - int m"
      "- int (Suc m) = int ?j - int (length xs)"
      using Suc.prems by auto
    have "step (- int (Suc m)) s = Some (f (xs ! ?j) s)"
      unfolding j(4) by (rule assms [OF j(1)])
    with Suc show ?case
      by (subst for_neg.simps) (simp add: j(3) fold_drop_step [OF j(1)] j(2) del: of_nat_Suc, simp)
  qed
  from this [of "length xs"] show ?thesis by (simp add: n)
qed

lemma inj_fold: "(\<And>x. inj (f x)) \<Longrightarrow> inj (fold f xs)"
proof (induction xs)
  case Nil
  show ?case by (simp add: inj_on_def)
next
  case (Cons x xs)
  have "inj (fold f xs \<circ> f x)" by (rule inj_compose [OF Cons.IH [OF Cons.prems] Cons.prems])
  then show ?case by (simp add: comp_def)
qed

text \<open>
  Injectivity of the word operations the hash functions are built from: adding or xoring a
  constant, multiplying by an odd constant (which has an inverse), rotating, and the
  xor-shift \<open>h ^= h >> r\<close>.
\<close>

lemma inj_xor_word [injs]: "inj (\<lambda>h :: 'a::len word. h XOR k)"
  by (rule injI) (metis bit.xor_self xor.assoc xor.right_neutral)

lemma inj_mult_word [injs]:
  fixes c d :: "'a::len word"
  shows "c * d = 1 \<Longrightarrow> inj (\<lambda>h. h * c)"
  by (rule injI) (metis mult.assoc mult.right_neutral)

lemma inj_add_word [injs]: "inj (\<lambda>h :: 'a::len word. h + k)"
  by (rule injI) simp

lemma inj_comp_app: "inj f \<Longrightarrow> inj g \<Longrightarrow> inj (\<lambda>x. f (g x))"
  by (auto simp: inj_def)

lemma xor_shift_bit:
  fixes h :: "'a::len word"
  assumes "h XOR drop_bit r h = g XOR drop_bit r g" and "0 < r"
  shows "bit h n = bit g n"
proof (cases "n < LENGTH('a)")
  case True
  then show ?thesis
  proof (induction "LENGTH('a) - n" arbitrary: n rule: less_induct)
    case less
    have above: "bit h (n + r) = bit g (n + r)"
    proof (cases "n + r < LENGTH('a)")
      case True
      with less assms(2) show ?thesis by simp
    next
      case False
      then show ?thesis by (simp add: bit_word.rep_eq)
    qed
    have "bit (h XOR drop_bit r h) n = bit (g XOR drop_bit r g) n" by (simp add: assms(1))
    with above less.prems show ?case by (auto simp: bit_simps add.commute)
  qed
next
  case False
  then show ?thesis by (simp add: bit_word.rep_eq)
qed

lemma inj_xor_shift [injs]: "0 < r \<Longrightarrow> inj (\<lambda>h :: 'a::len word. h XOR drop_bit r h)"
  by (rule injI, rule bit_word_eqI, rule xor_shift_bit)

lemma le_word_Nil [simp]: "le_word [] = 0"
  by (simp add: le_word_def)

text \<open>Byte lanes never overlap, so a load is the xor of its shifted bytes.\<close>

lemma or_byte_eq_xor: "(push_bit 8 (w :: 'a::len word) OR ucast (b :: u8)) = (push_bit 8 w XOR ucast b)"
  by (rule bit_word_eqI) (auto simp: bit_simps dest: bit_imp_le_length)

lemma le_word_Cons: "le_word (b # bs) = (push_bit 8 (le_word bs) XOR ucast b)"
  by (simp add: le_word_def or_byte_eq_xor)

definition byte_at :: "bytes \<Rightarrow> nat \<Rightarrow> nat \<Rightarrow> 'a::len word" where
  "byte_at ts i sh = (if i < length ts then push_bit sh (ucast (ts ! i)) else 0)"

lemma le_word_take_Suc: "le_word (take (Suc n) ts) = (le_word (take n ts) XOR byte_at ts n (8 * n))"
proof (induction n arbitrary: ts)
  case 0
  then show ?case by (cases ts) (simp_all add: le_word_Cons byte_at_def)
next
  case (Suc n)
  then show ?case
    by (cases ts) (simp_all add: le_word_Cons push_bit_xor byte_at_def ac_simps)
qed

lemma le_word_lane:
  "le_word (take (Suc n) (drop m ts)) = (le_word (take n (drop m ts)) XOR byte_at ts (m + n) (8 * n))"
  by (auto simp: le_word_take_Suc byte_at_def)

lemma sdiv_nat: "int n sdiv int k = int (n div k)"
  by (simp add: signed_divide_int_def zdiv_int sgn_if)

lemma int_and_mask: "int n AND 3 = int (n mod 4)" "int n AND 15 = int (n mod 16)"
proof -
  have "int n AND mask 2 = int n mod 2 ^ 2" "int n AND mask 4 = int n mod 2 ^ 4"
    by (simp_all only: take_bit_eq_mask [symmetric] take_bit_eq_mod)
  then show "int n AND 3 = int (n mod 4)" "int n AND 15 = int (n mod 16)"
    by (simp_all add: mask_eq_exp_minus_1 zmod_int)
qed

end
