(* ===== verification/Murmur3.thy ===== *)
theory Murmur3
  imports Prelude
begin

text \<open>
  The hash functions of \<^verbatim>\<open>src/murmur3.c\<close>: the rotations and finalisation mixes, and
  \<^verbatim>\<open>MurmurHash3_x86_32\<close>, \<^verbatim>\<open>MurmurHash3_x86_128\<close> and
  \<^verbatim>\<open>MurmurHash3_x64_128\<close>. A key is a byte buffer, \<open>len\<close> is the C \<open>int\<close> the caller
  passes, and a read outside the buffer is \<^term>\<open>None\<close>. The loops keep the source's indices: the
  two x86 variants run a negative index up to zero over a pointer to the end of the block area.
  The block loads are little endian, as on the platforms the code is written for.

  The reference definitions \<open>*_ref\<close> hash a byte list as a fold over its full blocks followed by
  its zero-padded rest; the loops and the fall-through switches of the code are proved equal to
  them. Every absorbing step and both finalisation mixes are injective in the hash state.
\<close>

section \<open>Rotations and finalisation mixes\<close>

definition rotl32 :: "u32 \<Rightarrow> nat \<Rightarrow> u32" where
  "rotl32 x r = (push_bit r x OR drop_bit (32 - r) x)"

definition rotl64 :: "u64 \<Rightarrow> nat \<Rightarrow> u64" where
  "rotl64 x r = (push_bit r x OR drop_bit (64 - r) x)"

definition fmix32 :: "u32 \<Rightarrow> u32" where
  "fmix32 h =
     (let h = h XOR drop_bit 16 h;
          h = h * 0x85ebca6b;
          h = h XOR drop_bit 13 h;
          h = h * 0xc2b2ae35;
          h = h XOR drop_bit 16 h
      in h)"

definition fmix64 :: "u64 \<Rightarrow> u64" where
  "fmix64 k =
     (let k = k XOR drop_bit 33 k;
          k = k * 0xff51afd7ed558ccd;
          k = k XOR drop_bit 33 k;
          k = k * 0xc4ceb9fe1a85ec53;
          k = k XOR drop_bit 33 k
      in k)"

text \<open>
  \<open>getblock(blocks, i)\<close> for a pointer \<open>blocks\<close> to \<open>w\<close>-byte words that starts at byte
  \<open>base\<close> of the key.
\<close>

definition getblock :: "nat \<Rightarrow> bytes \<Rightarrow> int \<Rightarrow> int \<Rightarrow> 'a::len word option" where
  "getblock w data base i = ld w data (base + int w * i)"

text \<open>
  One label \<open>case c: k ^= tail[c-1] << sh;\<close> of a fall-through \<open>switch (r)\<close> whose labels
  descend: the statement runs when control entered at \<open>c\<close> or above.
\<close>

definition case_xor ::
  "bytes \<Rightarrow> int \<Rightarrow> int \<Rightarrow> int \<Rightarrow> nat \<Rightarrow> 'a::len word \<Rightarrow> 'a word option" where
  "case_xor data tail r c sh k =
     (if c \<le> r then do { b \<leftarrow> rd data (tail + (c - 1)); Some (k XOR push_bit sh (ucast b)) }
      else Some k)"

section \<open>MurmurHash3\_x86\_32\<close>

definition x86_32_k1 :: "u32 \<Rightarrow> u32" where
  "x86_32_k1 k1 =
     (let k1 = k1 * 0xcc9e2d51; k1 = rotl32 k1 15; k1 = k1 * 0x1b873593 in k1)"

definition x86_32_absorb :: "u32 \<Rightarrow> u32 \<Rightarrow> u32" where
  "x86_32_absorb k1 h1 =
     (let k1 = x86_32_k1 k1;
          h1 = h1 XOR k1;
          h1 = rotl32 h1 13;
          h1 = h1 * 5 + 0xe6546b64
      in h1)"

definition x86_32_body :: "bytes \<Rightarrow> int \<Rightarrow> int \<Rightarrow> u32 \<Rightarrow> u32 option" where
  "x86_32_body data base nblocks =
     for_neg (\<lambda>i h1. do { k1 \<leftarrow> getblock 4 data base i; Some (x86_32_absorb k1 h1) }) (- nblocks)"

definition x86_32_tail :: "bytes \<Rightarrow> int \<Rightarrow> int \<Rightarrow> u32 \<Rightarrow> u32 option" where
  "x86_32_tail data tail r h1 =
     do { k1 \<leftarrow> case_xor data tail r 3 16 0;
          k1 \<leftarrow> case_xor data tail r 2 8 k1;
          k1 \<leftarrow> case_xor data tail r 1 0 k1;
          Some (if 1 \<le> r then h1 XOR x86_32_k1 k1 else h1) }"

definition MurmurHash3_x86_32 :: "bytes \<Rightarrow> int \<Rightarrow> u32 \<Rightarrow> u32 option" where
  "MurmurHash3_x86_32 key len seed =
     (let nblocks = len sdiv 4;
          tail = nblocks * 4
      in do { h1 \<leftarrow> x86_32_body key tail nblocks seed;
              h1 \<leftarrow> x86_32_tail key tail (len AND 3) h1;
              Some (fmix32 (h1 XOR word_of_int len)) })"

section \<open>MurmurHash3\_x86\_128\<close>

type_synonym quad = "u32 \<times> u32 \<times> u32 \<times> u32"

definition x86_128_k1 :: "u32 \<Rightarrow> u32" where
  "x86_128_k1 k1 = rotl32 (k1 * 0x239b961b) 15 * 0xab0e9789"

definition x86_128_k2 :: "u32 \<Rightarrow> u32" where
  "x86_128_k2 k2 = rotl32 (k2 * 0xab0e9789) 16 * 0x38b34ae5"

definition x86_128_k3 :: "u32 \<Rightarrow> u32" where
  "x86_128_k3 k3 = rotl32 (k3 * 0x38b34ae5) 17 * 0xa1e38b93"

definition x86_128_k4 :: "u32 \<Rightarrow> u32" where
  "x86_128_k4 k4 = rotl32 (k4 * 0xa1e38b93) 18 * 0x239b961b"

fun x86_128_absorb :: "quad \<Rightarrow> quad \<Rightarrow> quad" where
  "x86_128_absorb (k1, k2, k3, k4) (h1, h2, h3, h4) =
     (let h1 = h1 XOR x86_128_k1 k1;
          h1 = rotl32 h1 19; h1 = h1 + h2; h1 = h1 * 5 + 0x561ccd1b;
          h2 = h2 XOR x86_128_k2 k2;
          h2 = rotl32 h2 17; h2 = h2 + h3; h2 = h2 * 5 + 0x0bcaa747;
          h3 = h3 XOR x86_128_k3 k3;
          h3 = rotl32 h3 15; h3 = h3 + h4; h3 = h3 * 5 + 0x96cd1c35;
          h4 = h4 XOR x86_128_k4 k4;
          h4 = rotl32 h4 13; h4 = h4 + h1; h4 = h4 * 5 + 0x32ac3b17
      in (h1, h2, h3, h4))"

definition x86_128_body :: "bytes \<Rightarrow> int \<Rightarrow> int \<Rightarrow> quad \<Rightarrow> quad option" where
  "x86_128_body data base nblocks =
     for_neg (\<lambda>i h. do { k1 \<leftarrow> getblock 4 data base (i * 4 + 0);
                       k2 \<leftarrow> getblock 4 data base (i * 4 + 1);
                       k3 \<leftarrow> getblock 4 data base (i * 4 + 2);
                       k4 \<leftarrow> getblock 4 data base (i * 4 + 3);
                       Some (x86_128_absorb (k1, k2, k3, k4) h) }) (- nblocks)"

fun x86_128_tail :: "bytes \<Rightarrow> int \<Rightarrow> int \<Rightarrow> quad \<Rightarrow> quad option" where
  "x86_128_tail data tail r (h1, h2, h3, h4) =
     do { k4 \<leftarrow> case_xor data tail r 15 16 0;
          k4 \<leftarrow> case_xor data tail r 14 8 k4;
          k4 \<leftarrow> case_xor data tail r 13 0 k4;
          let h4 = (if 13 \<le> r then h4 XOR x86_128_k4 k4 else h4);
          k3 \<leftarrow> case_xor data tail r 12 24 0;
          k3 \<leftarrow> case_xor data tail r 11 16 k3;
          k3 \<leftarrow> case_xor data tail r 10 8 k3;
          k3 \<leftarrow> case_xor data tail r 9 0 k3;
          let h3 = (if 9 \<le> r then h3 XOR x86_128_k3 k3 else h3);
          k2 \<leftarrow> case_xor data tail r 8 24 0;
          k2 \<leftarrow> case_xor data tail r 7 16 k2;
          k2 \<leftarrow> case_xor data tail r 6 8 k2;
          k2 \<leftarrow> case_xor data tail r 5 0 k2;
          let h2 = (if 5 \<le> r then h2 XOR x86_128_k2 k2 else h2);
          k1 \<leftarrow> case_xor data tail r 4 24 0;
          k1 \<leftarrow> case_xor data tail r 3 16 k1;
          k1 \<leftarrow> case_xor data tail r 2 8 k1;
          k1 \<leftarrow> case_xor data tail r 1 0 k1;
          let h1 = (if 1 \<le> r then h1 XOR x86_128_k1 k1 else h1);
          Some (h1, h2, h3, h4) }"

text \<open>\<open>h1 += h2; h1 += h3; h1 += h4; h2 += h1; h3 += h1; h4 += h1;\<close>\<close>

fun x86_128_cross :: "quad \<Rightarrow> quad" where
  "x86_128_cross (h1, h2, h3, h4) =
     (let h1 = h1 + h2; h1 = h1 + h3; h1 = h1 + h4 in (h1, h2 + h1, h3 + h1, h4 + h1))"

fun x86_128_final :: "u32 \<Rightarrow> quad \<Rightarrow> quad" where
  "x86_128_final len (h1, h2, h3, h4) =
     (let (h1, h2, h3, h4) =
            x86_128_cross (h1 XOR len, h2 XOR len, h3 XOR len, h4 XOR len)
      in x86_128_cross (fmix32 h1, fmix32 h2, fmix32 h3, fmix32 h4))"

definition MurmurHash3_x86_128 :: "bytes \<Rightarrow> int \<Rightarrow> u32 \<Rightarrow> quad option" where
  "MurmurHash3_x86_128 key len seed =
     (let nblocks = len sdiv 16;
          tail = nblocks * 16
      in do { h \<leftarrow> x86_128_body key tail nblocks (seed, seed, seed, seed);
              h \<leftarrow> x86_128_tail key tail (len AND 15) h;
              Some (x86_128_final (word_of_int len) h) })"

section \<open>MurmurHash3\_x64\_128\<close>

definition x64_128_k1 :: "u64 \<Rightarrow> u64" where
  "x64_128_k1 k1 = rotl64 (k1 * 0x87c37b91114253d5) 31 * 0x4cf5ad432745937f"

definition x64_128_k2 :: "u64 \<Rightarrow> u64" where
  "x64_128_k2 k2 = rotl64 (k2 * 0x4cf5ad432745937f) 33 * 0x87c37b91114253d5"

fun x64_128_absorb :: "u64 \<times> u64 \<Rightarrow> u64 \<times> u64 \<Rightarrow> u64 \<times> u64" where
  "x64_128_absorb (k1, k2) (h1, h2) =
     (let h1 = h1 XOR x64_128_k1 k1;
          h1 = rotl64 h1 27; h1 = h1 + h2; h1 = h1 * 5 + 0x52dce729;
          h2 = h2 XOR x64_128_k2 k2;
          h2 = rotl64 h2 31; h2 = h2 + h1; h2 = h2 * 5 + 0x38495ab5
      in (h1, h2))"

definition x64_128_body :: "bytes \<Rightarrow> int \<Rightarrow> u64 \<times> u64 \<Rightarrow> (u64 \<times> u64) option" where
  "x64_128_body data nblocks =
     for_up (\<lambda>i h. do { k1 \<leftarrow> getblock 8 data 0 (i * 2 + 0);
                      k2 \<leftarrow> getblock 8 data 0 (i * 2 + 1);
                      Some (x64_128_absorb (k1, k2) h) }) nblocks 0"

fun x64_128_tail :: "bytes \<Rightarrow> int \<Rightarrow> int \<Rightarrow> u64 \<times> u64 \<Rightarrow> (u64 \<times> u64) option" where
  "x64_128_tail data tail r (h1, h2) =
     do { k2 \<leftarrow> case_xor data tail r 15 48 0;
          k2 \<leftarrow> case_xor data tail r 14 40 k2;
          k2 \<leftarrow> case_xor data tail r 13 32 k2;
          k2 \<leftarrow> case_xor data tail r 12 24 k2;
          k2 \<leftarrow> case_xor data tail r 11 16 k2;
          k2 \<leftarrow> case_xor data tail r 10 8 k2;
          k2 \<leftarrow> case_xor data tail r 9 0 k2;
          let h2 = (if 9 \<le> r then h2 XOR x64_128_k2 k2 else h2);
          k1 \<leftarrow> case_xor data tail r 8 56 0;
          k1 \<leftarrow> case_xor data tail r 7 48 k1;
          k1 \<leftarrow> case_xor data tail r 6 40 k1;
          k1 \<leftarrow> case_xor data tail r 5 32 k1;
          k1 \<leftarrow> case_xor data tail r 4 24 k1;
          k1 \<leftarrow> case_xor data tail r 3 16 k1;
          k1 \<leftarrow> case_xor data tail r 2 8 k1;
          k1 \<leftarrow> case_xor data tail r 1 0 k1;
          let h1 = (if 1 \<le> r then h1 XOR x64_128_k1 k1 else h1);
          Some (h1, h2) }"

fun x64_128_final :: "u64 \<Rightarrow> u64 \<times> u64 \<Rightarrow> u64 \<times> u64" where
  "x64_128_final len (h1, h2) =
     (let h1 = h1 XOR len; h2 = h2 XOR len;
          h1 = h1 + h2; h2 = h2 + h1;
          h1 = fmix64 h1; h2 = fmix64 h2;
          h1 = h1 + h2; h2 = h2 + h1
      in (h1, h2))"

definition MurmurHash3_x64_128 :: "bytes \<Rightarrow> int \<Rightarrow> u32 \<Rightarrow> (u64 \<times> u64) option" where
  "MurmurHash3_x64_128 key len seed =
     (let nblocks = len sdiv 16;
          tail = nblocks * 16
      in do { h \<leftarrow> x64_128_body key nblocks (ucast seed, ucast seed);
              h \<leftarrow> x64_128_tail key tail (len AND 15) h;
              Some (x64_128_final (word_of_int len) h) })"

section \<open>Reference definitions\<close>

text \<open>The four (two) words of a block, or of the zero-padded rest of the key.\<close>

definition quad_of :: "bytes \<Rightarrow> quad" where
  "quad_of bs = (le_word (take 4 bs), le_word (take 4 (drop 4 bs)),
                 le_word (take 4 (drop 8 bs)), le_word (take 4 (drop 12 bs)))"

definition pair_of :: "bytes \<Rightarrow> u64 \<times> u64" where
  "pair_of bs = (le_word (take 8 bs), le_word (take 8 (drop 8 bs)))"

definition x86_32_rest :: "bytes \<Rightarrow> u32 \<Rightarrow> u32" where
  "x86_32_rest ts h = h XOR x86_32_k1 (le_word ts)"

fun x86_128_xor :: "quad \<Rightarrow> quad \<Rightarrow> quad" where
  "x86_128_xor (k1, k2, k3, k4) (h1, h2, h3, h4) =
     (h1 XOR x86_128_k1 k1, h2 XOR x86_128_k2 k2, h3 XOR x86_128_k3 k3, h4 XOR x86_128_k4 k4)"

fun x64_128_xor :: "u64 \<times> u64 \<Rightarrow> u64 \<times> u64 \<Rightarrow> u64 \<times> u64" where
  "x64_128_xor (k1, k2) (h1, h2) = (h1 XOR x64_128_k1 k1, h2 XOR x64_128_k2 k2)"

text \<open>The part of a key after its last full block of \<open>n\<close> bytes.\<close>

definition rest_of :: "nat \<Rightarrow> 'a list \<Rightarrow> 'a list" where
  "rest_of n bs = drop (n * (length bs div n)) bs"

definition x86_32_ref :: "u32 \<Rightarrow> bytes \<Rightarrow> u32" where
  "x86_32_ref seed bs =
     fmix32 (x86_32_rest (rest_of 4 bs)
       (fold (\<lambda>blk. x86_32_absorb (le_word blk)) (chunks 4 bs) seed) XOR word_of_int (int (length bs)))"

definition x86_128_ref :: "u32 \<Rightarrow> bytes \<Rightarrow> quad" where
  "x86_128_ref seed bs =
     x86_128_final (word_of_int (int (length bs)))
       (x86_128_xor (quad_of (rest_of 16 bs))
         (fold (\<lambda>blk. x86_128_absorb (quad_of blk)) (chunks 16 bs) (seed, seed, seed, seed)))"

definition x64_128_ref :: "u32 \<Rightarrow> bytes \<Rightarrow> u64 \<times> u64" where
  "x64_128_ref seed bs =
     x64_128_final (word_of_int (int (length bs)))
       (x64_128_xor (pair_of (rest_of 16 bs))
         (fold (\<lambda>blk. x64_128_absorb (pair_of blk)) (chunks 16 bs) (ucast seed, ucast seed)))"

section \<open>The loops and switches compute the reference\<close>

lemma length_rest_of: "0 < n \<Longrightarrow> length (rest_of n bs) = length bs mod n"
  by (simp add: rest_of_def minus_mult_div_eq_mod)

lemma take_rest_of: "take (n * (length bs div n)) bs @ rest_of n bs = bs"
  by (simp add: rest_of_def)

lemma length_blocks: "length (take (n * (length bs div n)) bs) = n * (length bs div n)"
  by (simp add: min_absorb2)

lemma getblock_chunk:
  assumes "j < length bs div n" and "q + w \<le> n" and "base + int w * i = int (n * j + q)"
  shows "getblock w (bs @ ext) base i = Some (le_word (take w (drop q (chunks n bs ! j))))"
proof -
  have "0 < n" using assms(1) by (cases n) auto
  have "n * Suc j \<le> n * (length bs div n)" using assms(1) by (intro mult_le_mono2) simp
  also have "\<dots> \<le> length bs" by simp
  finally have "n * j + q + w \<le> length bs" using assms(2) by simp
  then have "getblock w (bs @ ext) base i = Some (le_word (take w (drop (n * j + q) bs)))"
    unfolding getblock_def assms(3) by (simp add: ld_Some del: of_nat_add of_nat_mult)
  moreover have "take w (drop q (take n (drop (n * j) bs))) = take w (drop (n * j + q) bs)"
    using assms(2) by (simp add: drop_take min_absorb1 add.commute)
  ultimately show ?thesis
    using assms(1) \<open>0 < n\<close> by (simp add: nth_chunks)
qed

lemma x86_32_body_fold:
  "x86_32_body (bs @ ext) (int (length bs div 4) * 4) (int (length bs div 4)) h =
     Some (fold (\<lambda>blk. x86_32_absorb (le_word blk)) (chunks 4 bs) h)"
  unfolding x86_32_body_def
  by (rule for_neg_fold)
    (simp_all add: length_chunks getblock_chunk [where n = 4 and q = 0] nth_chunks)

lemma x86_128_body_fold:
  "x86_128_body (bs @ ext) (int (length bs div 16) * 16) (int (length bs div 16)) h =
     Some (fold (\<lambda>blk. x86_128_absorb (quad_of blk)) (chunks 16 bs) h)"
  unfolding x86_128_body_def
proof (rule for_neg_fold)
  fix j h assume j: "j < length bs div 16"
  let ?gb = "\<lambda>q. getblock 4 (bs @ ext) (int (length bs div 16) * 16) ((int j - int (length bs div 16)) * 4 + q)
    :: u32 option"
  have "?gb 0 = Some (le_word (take 4 (drop 0 (chunks 16 bs ! j))))"
    and "?gb 1 = Some (le_word (take 4 (drop 4 (chunks 16 bs ! j))))"
    and "?gb 2 = Some (le_word (take 4 (drop 8 (chunks 16 bs ! j))))"
    and "?gb 3 = Some (le_word (take 4 (drop 12 (chunks 16 bs ! j))))"
    by (rule getblock_chunk [OF j]; simp)+
  then show "do { k1 \<leftarrow> ?gb 0; k2 \<leftarrow> ?gb 1; k3 \<leftarrow> ?gb 2; k4 \<leftarrow> ?gb 3; Some (x86_128_absorb (k1, k2, k3, k4) h) } =
      Some (x86_128_absorb (quad_of (chunks 16 bs ! j)) h)"
    by (simp add: quad_of_def)
qed (simp add: length_chunks)

lemma x64_128_body_fold:
  "x64_128_body (bs @ ext) (int (length bs div 16)) h =
     Some (fold (\<lambda>blk. x64_128_absorb (pair_of blk)) (chunks 16 bs) h)"
  unfolding x64_128_body_def
proof (rule for_up_fold)
  fix j h assume j: "j < length bs div 16"
  let ?gb = "\<lambda>q. getblock 8 (bs @ ext) 0 (int j * 2 + q) :: u64 option"
  have "?gb 0 = Some (le_word (take 8 (drop 0 (chunks 16 bs ! j))))"
    and "?gb 1 = Some (le_word (take 8 (drop 8 (chunks 16 bs ! j))))"
    by (rule getblock_chunk [OF j]; simp)+
  then show "do { k1 \<leftarrow> ?gb 0; k2 \<leftarrow> ?gb 1; Some (x64_128_absorb (k1, k2) h) } =
      Some (x64_128_absorb (pair_of (chunks 16 bs ! j)) h)"
    by (simp add: pair_of_def)
qed (simp add: length_chunks)

text \<open>A label of the switch xors the byte it names if the rest of the key has it.\<close>

lemma case_xor_nat:
  "case_xor (bs @ ts @ ext) (int (length bs)) (int (length ts)) (int (Suc i)) sh k =
       Some (k XOR byte_at ts i sh)"
  by (auto simp: case_xor_def rd_def nth_append nat_add_distrib byte_at_def)

lemma case_xor_num:
  "case_xor (bs @ ts @ ext) (int (length bs)) (int (length ts)) (numeral c) sh k =
       Some (k XOR byte_at ts (pred_numeral c) sh)"
  "case_xor (bs @ ts @ ext) (int (length bs)) (int (length ts)) 1 sh k =
       Some (k XOR byte_at ts 0 sh)"
  using case_xor_nat [of bs ts ext "pred_numeral c" sh k] case_xor_nat [of bs ts ext 0 sh k]
  by (simp_all only: numeral_eq_Suc [symmetric] of_nat_numeral One_nat_def [symmetric] of_nat_1)

lemma mix_zero [simp]:
  "x86_32_k1 0 = 0" "x86_128_k1 0 = 0" "x86_128_k2 0 = 0" "x86_128_k3 0 = 0" "x86_128_k4 0 = 0"
  "x64_128_k1 0 = 0" "x64_128_k2 0 = 0"
  by (simp_all add: x86_32_k1_def x86_128_k1_def x86_128_k2_def x86_128_k3_def x86_128_k4_def
      x64_128_k1_def x64_128_k2_def rotl32_def rotl64_def)

text \<open>Absorbing a lane the rest of the key does not reach changes nothing.\<close>

lemma lane_guard:
  "f 0 = 0 \<Longrightarrow> c \<le> Suc m \<Longrightarrow>
     (if c \<le> length ts then h XOR f (le_word (take n (drop m ts))) else h) =
     h XOR f (le_word (take n (drop m ts)))"
  "f 0 = 0 \<Longrightarrow>
     (if 1 \<le> length ts then h XOR f (le_word (take n ts)) else h) = h XOR f (le_word (take n ts))"
  by (auto, cases ts, auto)

lemmas lane_steps =
  le_word_lane [of 0, simplified One_nat_def [symmetric] mult_0_right add_0_right take_0 le_word_Nil
    xor.left_neutral]
  le_word_lane [of 1, simplified Suc_1 mult_1_right]
  le_word_lane [of 2, simplified Suc_numeral arith_simps]
  le_word_lane [of 3, simplified Suc_numeral arith_simps]
  le_word_lane [of 4, simplified Suc_numeral arith_simps]
  le_word_lane [of 5, simplified Suc_numeral arith_simps]
  le_word_lane [of 6, simplified Suc_numeral arith_simps]
  le_word_lane [of 7, simplified Suc_numeral arith_simps]

lemma le_word_lanes:
  "(((byte_at ts (m + 3) 24 XOR byte_at ts (m + 2) 16) XOR byte_at ts (m + 1) 8) XOR byte_at ts m 0)
     = le_word (take 4 (drop m ts))"
  "(((((((byte_at ts (m + 7) 56 XOR byte_at ts (m + 6) 48) XOR byte_at ts (m + 5) 40)
     XOR byte_at ts (m + 4) 32) XOR byte_at ts (m + 3) 24) XOR byte_at ts (m + 2) 16)
     XOR byte_at ts (m + 1) 8) XOR byte_at ts m 0) = le_word (take 8 (drop m ts))"
  by (simp_all only: lane_steps ac_simps)

lemma lanes_32:
  "(((byte_at ts 3 24 XOR byte_at ts 2 16) XOR byte_at ts 1 8) XOR byte_at ts 0 0) = le_word (take 4 ts)"
  "(((byte_at ts 7 24 XOR byte_at ts 6 16) XOR byte_at ts 5 8) XOR byte_at ts 4 0) =
     le_word (take 4 (drop 4 ts))"
  "(((byte_at ts 11 24 XOR byte_at ts 10 16) XOR byte_at ts 9 8) XOR byte_at ts 8 0) =
     le_word (take 4 (drop 8 ts))"
  "length ts < 16 \<Longrightarrow> ((byte_at ts 14 16 XOR byte_at ts 13 8) XOR byte_at ts 12 0) =
     le_word (take 4 (drop 12 ts))"
  "length ts < 4 \<Longrightarrow> ((byte_at ts 2 16 XOR byte_at ts 1 8) XOR byte_at ts 0 0) = le_word (take 4 ts)"
  using le_word_lanes(1) [of ts 0] le_word_lanes(1) [of ts 4] le_word_lanes(1) [of ts 8]
    le_word_lanes(1) [of ts 12]
  by (simp_all add: byte_at_def [of ts 15] byte_at_def [of ts 3] numeral_2_eq_2)

lemma lanes_64:
  "(((((((byte_at ts 7 56 XOR byte_at ts 6 48) XOR byte_at ts 5 40) XOR byte_at ts 4 32)
     XOR byte_at ts 3 24) XOR byte_at ts 2 16) XOR byte_at ts 1 8) XOR byte_at ts 0 0) =
     le_word (take 8 ts)"
  "length ts < 16 \<Longrightarrow>
     ((((((byte_at ts 14 48 XOR byte_at ts 13 40) XOR byte_at ts 12 32)
     XOR byte_at ts 11 24) XOR byte_at ts 10 16) XOR byte_at ts 9 8) XOR byte_at ts 8 0) =
     le_word (take 8 (drop 8 ts))"
  using le_word_lanes(2) [of ts 0] le_word_lanes(2) [of ts 8]
  by (simp_all add: byte_at_def [of ts 15] numeral_2_eq_2)

lemma x86_32_tail_ref:
  "length ts < 4 \<Longrightarrow>
     x86_32_tail (bs @ ts @ ext) (int (length bs)) (int (length ts)) h = Some (x86_32_rest ts h)"
  by (simp add: x86_32_tail_def x86_32_rest_def case_xor_num lanes_32 del: One_nat_def)
    (cases ts; simp)

lemma x86_128_tail_ref:
  "length ts < 16 \<Longrightarrow>
     x86_128_tail (bs @ ts @ ext) (int (length bs)) (int (length ts)) h =
       Some (x86_128_xor (quad_of ts) h)"
  by (cases h, simp add: case_xor_num lanes_32 quad_of_def lane_guard del: One_nat_def, cases ts)
    simp_all

lemma x64_128_tail_ref:
  "length ts < 16 \<Longrightarrow>
     x64_128_tail (bs @ ts @ ext) (int (length bs)) (int (length ts)) h =
       Some (x64_128_xor (pair_of ts) h)"
  by (cases h, simp add: case_xor_num lanes_64 pair_of_def lane_guard del: One_nat_def, cases ts)
    simp_all

lemma split_key:
  fixes bs ext :: bytes
  shows "take (numeral k * (length bs div numeral k)) bs @ rest_of (numeral k) bs @ ext = bs @ ext"
    and "int (length (take (numeral k * (length bs div numeral k)) bs)) = int (length bs div numeral k) * numeral k"
    and "int (length (rest_of (numeral k) bs)) = int (length bs mod numeral k)"
proof -
  have "numeral k * (length bs div numeral k) \<le> length bs" by simp
  then show "int (length (take (numeral k * (length bs div numeral k)) bs)) =
      int (length bs div numeral k) * numeral k"
    by (simp only: length_take min_absorb2 of_nat_mult of_nat_numeral mult.commute)
qed (simp_all add: rest_of_def minus_mult_div_eq_mod)

text \<open>The three switches, at the position the code enters them.\<close>

lemma tail_of_key:
  "x86_32_tail (bs @ ext) (int (length bs div 4) * 4) (int (length bs mod 4)) h =
     Some (x86_32_rest (rest_of 4 bs) h)"
  "x86_128_tail (bs @ ext) (int (length bs div 16) * 16) (int (length bs mod 16)) q =
     Some (x86_128_xor (quad_of (rest_of 16 bs)) q)"
  "x64_128_tail (bs @ ext) (int (length bs div 16) * 16) (int (length bs mod 16)) p =
     Some (x64_128_xor (pair_of (rest_of 16 bs)) p)"
  using x86_32_tail_ref [of "rest_of 4 bs" "take (4 * (length bs div 4)) bs" ext h]
    x86_128_tail_ref [of "rest_of 16 bs" "take (16 * (length bs div 16)) bs" ext q]
    x64_128_tail_ref [of "rest_of 16 bs" "take (16 * (length bs div 16)) bs" ext p]
  by (simp_all only: split_key) (simp_all add: length_rest_of)

lemma x86_32_eval:
  assumes "len \<le> length key"
  shows "MurmurHash3_x86_32 key (int len) seed = Some (x86_32_ref seed (take len key))"
proof -
  define bs where "bs = take len key"
  have key: "key = bs @ drop len key" and len: "length bs = len"
    using assms by (simp_all add: bs_def)
  show ?thesis
    unfolding MurmurHash3_x86_32_def Let_def bs_def [symmetric]
    using sdiv_nat [of len 4]
    by (subst (1 2) key) (simp add: len [symmetric] int_and_mask x86_32_body_fold tail_of_key x86_32_ref_def)
qed

text \<open>
  C21: for every key of at least \<open>len\<close> bytes, \<open>MurmurHash3_x86_32\<close> reads only the first \<open>len\<close>
  bytes, never outside them, terminates, and returns the reference hash of those bytes: the
  negative-index block loop is the fold over the 4-byte blocks and the fall-through switch
  absorbs the zero-padded rest.
\<close>

theorem x86_32_refines_ref:
  assumes "len \<le> length key"
  shows "MurmurHash3_x86_32 key (int len) seed = Some (x86_32_ref seed (take len key))"
  using assms by (rule x86_32_eval)

theorem x86_32_refines_ref_witness:
  "MurmurHash3_x86_32 (cstr ''hello world'') 5 0 = Some (x86_32_ref 0 (cstr ''hello''))
   \<and> MurmurHash3_x86_32 (cstr ''hello world'') 5 0 = Some 0x248bfa47"
  using x86_32_refines_ref [of 5 "cstr ''hello world''" 0] by (simp add: cstr_def) code_simp

text \<open>The same for \<open>MurmurHash3_x86_128\<close>, with 16-byte blocks read as four words.\<close>

theorem x86_128_refines_ref:
  assumes "len \<le> length key"
  shows "MurmurHash3_x86_128 key (int len) seed = Some (x86_128_ref seed (take len key))"
proof -
  define bs where "bs = take len key"
  have key: "key = bs @ drop len key" and len: "length bs = len"
    using assms by (simp_all add: bs_def)
  show ?thesis
    unfolding MurmurHash3_x86_128_def Let_def bs_def [symmetric]
    using sdiv_nat [of len 16]
    by (subst (1 2) key) (simp add: len [symmetric] int_and_mask x86_128_body_fold tail_of_key x86_128_ref_def)
qed

theorem x86_128_refines_ref_witness:
  "MurmurHash3_x86_128 (cstr ''hello world'') 5 0 = Some (x86_128_ref 0 (cstr ''hello''))"
  using x86_128_refines_ref [of 5 "cstr ''hello world''" 0] by (simp add: cstr_def)

text \<open>
  For every key of at least \<open>len\<close> bytes, \<open>MurmurHash3_x64_128\<close> reads only the first \<open>len\<close>
  bytes and returns the reference hash of those bytes: its block loop counts up over 16-byte blocks
  read as two 64-bit words, and its switch absorbs the rest.
\<close>

theorem x64_128_refines_ref:
  assumes "len \<le> length key"
  shows "MurmurHash3_x64_128 key (int len) seed = Some (x64_128_ref seed (take len key))"
proof -
  define bs where "bs = take len key"
  have key: "key = bs @ drop len key" and len: "length bs = len"
    using assms by (simp_all add: bs_def)
  show ?thesis
    unfolding MurmurHash3_x64_128_def Let_def bs_def [symmetric]
    using sdiv_nat [of len 16]
    by (subst (1 2) key) (simp add: len [symmetric] int_and_mask x64_128_body_fold tail_of_key x64_128_ref_def)
qed

theorem x64_128_refines_ref_witness:
  "MurmurHash3_x64_128 (cstr ''hello world'') 5 0 = Some (x64_128_ref 0 (cstr ''hello''))
   \<and> MurmurHash3_x64_128 (cstr ''hello world'') 5 0 = Some (0xcbd8a7b341bd9b02, 0x5b1e906a48ae1d19)"
  using x64_128_refines_ref [of 5 "cstr ''hello world''" 0] by (simp add: cstr_def) code_simp

section \<open>Injectivity in the seed\<close>

text \<open>
  The contract of a seeded block hash: a state is built from the seed, absorbs the blocks and
  the rest of the key, and is finalised, each step injectively in the state. Then for a fixed
  key two different seeds never collide.
\<close>

locale seeded_hash =
  fixes init :: "u32 \<Rightarrow> 'h"
    and absorb :: "bytes \<Rightarrow> 'h \<Rightarrow> 'h"
    and rest :: "bytes \<Rightarrow> 'h \<Rightarrow> 'h"
    and final :: "'l \<Rightarrow> 'h \<Rightarrow> 'o"
  assumes inj_init: "inj init"
    and inj_absorb: "inj (absorb blk)"
    and inj_rest: "inj (rest ts)"
    and inj_final: "inj (final l)"
begin

lemma inj_seed: "inj (\<lambda>seed. final l (rest ts (fold absorb blks (init seed))))"
  by (intro inj_comp_app [OF inj_final] inj_comp_app [OF inj_rest] inj_comp_app [OF inj_fold]
      inj_init inj_absorb)

end

lemma rotl32_inverse: "r < 32 \<Longrightarrow> rotl32 (rotl32 x r) (32 - r) = x"
  by (rule bit_word_eqI) (auto simp: rotl32_def bit_simps)

lemma rotl64_inverse: "r < 64 \<Longrightarrow> rotl64 (rotl64 x r) (64 - r) = x"
  by (rule bit_word_eqI) (auto simp: rotl64_def bit_simps)

lemma rotl32_eq_iff [simp]: "r < 32 \<Longrightarrow> rotl32 x r = rotl32 y r \<longleftrightarrow> x = y"
  by (metis rotl32_inverse)

lemma rotl64_eq_iff [simp]: "r < 64 \<Longrightarrow> rotl64 x r = rotl64 y r \<longleftrightarrow> x = y"
  by (metis rotl64_inverse)

lemma xor_eq_iff [simp]: "(x :: 'a::len word) XOR k = y XOR k \<longleftrightarrow> x = y"
  by (rule inj_eq [OF inj_xor_word])

lemma times5_eq_iff [simp]:
  "(x :: u32) * 5 = y * 5 \<longleftrightarrow> x = y" "(a :: u64) * 5 = b * 5 \<longleftrightarrow> a = b"
  using inj_eq [OF inj_mult_word [of "5 :: u32" "0xcccccccd"]]
    inj_eq [OF inj_mult_word [of "5 :: u64" "0xcccccccccccccccd"]] by simp_all

lemma inj_fmix32: "inj fmix32"
proof -
  have m: "inj (\<lambda>h :: u32. h * 0x85ebca6b)" "inj (\<lambda>h :: u32. h * 0xc2b2ae35)"
    by (rule inj_mult_word [where d = "0xa5cb9243"], simp,
        rule inj_mult_word [where d = "0x7ed1b41d"], simp)
  have s: "inj (\<lambda>h :: u32. h XOR drop_bit 16 h)" "inj (\<lambda>h :: u32. h XOR drop_bit 13 h)"
    by (rule inj_xor_shift, simp)+
  show ?thesis
    unfolding fmix32_def Let_def
    by (intro inj_comp_app [OF s(1)] inj_comp_app [OF m(2)] inj_comp_app [OF s(2)]
        inj_comp_app [OF m(1)] s)
qed

lemma inj_fmix64: "inj fmix64"
proof -
  have m: "inj (\<lambda>h :: u64. h * 0xff51afd7ed558ccd)" "inj (\<lambda>h :: u64. h * 0xc4ceb9fe1a85ec53)"
    by (rule inj_mult_word [where d = "0x4f74430c22a54005"], simp,
        rule inj_mult_word [where d = "0x9cb4b2f8129337db"], simp)
  have s: "inj (\<lambda>h :: u64. h XOR drop_bit 33 h)" by (rule inj_xor_shift) simp
  show ?thesis
    unfolding fmix64_def Let_def
    by (intro inj_comp_app [OF s] inj_comp_app [OF m(2)] inj_comp_app [OF s] inj_comp_app [OF m(1)] s)
qed

lemma inj_x86_32_absorb: "inj (x86_32_absorb k)"
  by (rule injI) (simp add: x86_32_absorb_def)

lemma lane_cancel:
  "r < 32 \<Longrightarrow> (rotl32 (x XOR k) r + n) * 5 + c = (rotl32 (y XOR k) r + n) * 5 + c \<Longrightarrow> x = y"
  "q < 64 \<Longrightarrow> (rotl64 (a XOR j) q + m) * 5 + d = (rotl64 (b XOR j) q + m) * 5 + d \<Longrightarrow> a = b"
  by (simp_all only: add_right_cancel times5_eq_iff rotl32_eq_iff rotl64_eq_iff xor_eq_iff)

lemma inj_x86_128_absorb: "inj (x86_128_absorb k)"
proof (rule injI)
  fix g h assume eq: "x86_128_absorb k g = x86_128_absorb k h"
  obtain k1 k2 k3 k4 where k: "k = (k1, k2, k3, k4)" by (cases k)
  obtain g1 g2 g3 g4 where g: "g = (g1, g2, g3, g4)" by (cases g)
  obtain h1 h2 h3 h4 where h: "h = (h1, h2, h3, h4)" by (cases h)
  note eqs = eq [unfolded k g h x86_128_absorb.simps Let_def prod.inject]
  note e1 = eqs [THEN conjunct1] and e2 = eqs [THEN conjunct2, THEN conjunct1]
    and e3 = eqs [THEN conjunct2, THEN conjunct2, THEN conjunct1]
    and e4 = eqs [THEN conjunct2, THEN conjunct2, THEN conjunct2]
  have 4: "g4 = h4" by (rule lane_cancel(1) [OF _ e4 [unfolded e1]]) simp
  have 3: "g3 = h3" by (rule lane_cancel(1) [OF _ e3 [unfolded 4]]) simp
  have 2: "g2 = h2" by (rule lane_cancel(1) [OF _ e2 [unfolded 3]]) simp
  have "g1 = h1" by (rule lane_cancel(1) [OF _ e1 [unfolded 2]]) simp
  with 2 3 4 show "g = h" by (simp add: g h)
qed

lemma inj_x64_128_absorb: "inj (x64_128_absorb k)"
proof (rule injI)
  fix g h assume eq: "x64_128_absorb k g = x64_128_absorb k h"
  obtain k1 k2 where k: "k = (k1, k2)" by (cases k)
  obtain g1 g2 where g: "g = (g1, g2)" by (cases g)
  obtain h1 h2 where h: "h = (h1, h2)" by (cases h)
  note eqs = eq [unfolded k g h x64_128_absorb.simps Let_def prod.inject]
  note e1 = eqs [THEN conjunct1] and e2 = eqs [THEN conjunct2]
  have 2: "g2 = h2" by (rule lane_cancel(2) [OF _ e2 [unfolded e1]]) simp
  have "g1 = h1" by (rule lane_cancel(2) [OF _ e1 [unfolded 2]]) simp
  with 2 show "g = h" by (simp add: g h)
qed

lemma inj_x86_128_xor: "inj (x86_128_xor k)"
  by (cases k, rule injI) auto

lemma inj_x64_128_xor: "inj (x64_128_xor k)"
  by (cases k, rule injI) auto

lemma x86_128_cross_eq: "x86_128_cross a = x86_128_cross b \<longleftrightarrow> a = b"
proof
  assume eq: "x86_128_cross a = x86_128_cross b"
  obtain a1 a2 a3 a4 where a: "a = (a1, a2, a3, a4)" by (cases a)
  obtain b1 b2 b3 b4 where b: "b = (b1, b2, b3, b4)" by (cases b)
  note eqs = eq [unfolded a b x86_128_cross.simps Let_def prod.inject]
  have "a2 = b2" "a3 = b3" "a4 = b4" using eqs by (metis add_right_cancel)+
  with eqs show "a = b" by (simp add: a b)
qed simp

declare x86_128_cross.simps [simp del]

lemma inj_x86_128_final: "inj (x86_128_final l)"
proof (rule injI)
  fix g h assume eq: "x86_128_final l g = x86_128_final l h"
  define m where "m = (\<lambda>(f :: u32 \<Rightarrow> u32) (a, b, c, d). (f a, f b, f c, f d))"
  have final: "x86_128_final l x = x86_128_cross (m fmix32 (x86_128_cross (m (\<lambda>w. w XOR l) x)))" for x
    by (cases x) (simp add: m_def split: prod.splits)
  have m_inj: "inj f \<Longrightarrow> m f x = m f y \<longleftrightarrow> x = y" for f x y
    by (cases x; cases y) (auto simp: m_def dest: injD)
  show "g = h"
    using eq by (simp only: final x86_128_cross_eq m_inj [OF inj_fmix32] m_inj [OF inj_xor_word])
qed

lemma inj_x64_128_final: "inj (x64_128_final l)"
proof (rule injI)
  fix g h assume eq: "x64_128_final l g = x64_128_final l h"
  obtain g1 g2 where g: "g = (g1, g2)" by (cases g)
  obtain h1 h2 where h: "h = (h1, h2)" by (cases h)
  note eqs = eq [unfolded g h x64_128_final.simps Let_def prod.inject]
  have f2: "fmix64 ((g2 XOR l) + ((g1 XOR l) + (g2 XOR l))) = fmix64 ((h2 XOR l) + ((h1 XOR l) + (h2 XOR l)))"
    using eqs by (metis add_right_cancel)
  with eqs have f1: "fmix64 ((g1 XOR l) + (g2 XOR l)) = fmix64 ((h1 XOR l) + (h2 XOR l))"
    by (metis add_right_cancel)
  have s: "(g1 XOR l) + (g2 XOR l) = (h1 XOR l) + (h2 XOR l)" using f1 by (rule injD [OF inj_fmix64])
  have "g2 XOR l = h2 XOR l" using injD [OF inj_fmix64 f2] s by (metis add_right_cancel)
  with s show "g = h" by (simp add: g h)
qed

lemma ucast_u64_inj:
  assumes "(ucast (s :: u32) :: u64) = ucast t"
  shows "s = t"
proof -
  have up: "uint (ucast w :: u64) = uint w" for w :: u32
    by (rule uint_up_ucast) (simp add: is_up)
  have "uint s = uint t" using arg_cong [OF assms, of uint] by (simp only: up)
  then show ?thesis by (rule word_uint_eqI)
qed

interpretation h32: seeded_hash "\<lambda>s. s" "\<lambda>blk. x86_32_absorb (le_word blk)" x86_32_rest
    "\<lambda>l h. fmix32 (h XOR l)"
  by unfold_locales
    (auto intro!: inj_x86_32_absorb injI simp: x86_32_rest_def inj_eq [OF inj_fmix32])

interpretation h128: seeded_hash "\<lambda>s. (s, s, s, s)" "\<lambda>blk. x86_128_absorb (quad_of blk)"
    "\<lambda>ts. x86_128_xor (quad_of ts)" x86_128_final
  by unfold_locales
    (auto intro: inj_x86_128_absorb inj_x86_128_xor inj_x86_128_final injI)

interpretation h64: seeded_hash "\<lambda>s. (ucast s, ucast s)" "\<lambda>blk. x64_128_absorb (pair_of blk)"
    "\<lambda>ts. x64_128_xor (pair_of ts)" x64_128_final
  by unfold_locales
    (auto intro: inj_x64_128_absorb inj_x64_128_xor inj_x64_128_final injI ucast_u64_inj)

text \<open>
  For a fixed key, \<open>MurmurHash3_x86_32\<close> is injective in the seed: the hash functions of one
  key under different seeds give pairwise different values.
\<close>

theorem x86_32_inj_seed:
  assumes "len \<le> length key" and "s \<noteq> t"
  shows "MurmurHash3_x86_32 key (int len) s \<noteq> MurmurHash3_x86_32 key (int len) t"
  using assms inj_eq [OF h32.inj_seed, where x = s and y = t]
  by (simp add: x86_32_refines_ref x86_32_ref_def)

theorem x86_32_inj_seed_witness:
  "MurmurHash3_x86_32 (cstr ''http'') 4 1999 \<noteq> MurmurHash3_x86_32 (cstr ''http'') 4 2887"
  using x86_32_inj_seed [of 4 "cstr ''http''" 1999 2887] by (simp add: cstr_def)

end
