(* ===== verification/Queue.thy ===== *)
theory Queue
  imports Prelude
begin

text \<open>
  The intrusive doubly linked queue of \<^verbatim>\<open>src/queue.h\<close>. A queue link is an object of a heap,
  a partial map from addresses; the macros are translated store by store, so that the aliasing of
  an empty or one-element queue (where the head is its own neighbour) is the code's. A store or
  load through a pointer that addresses no link is \<^term>\<open>None\<close>.

  \<open>is_queue H h xs\<close> says that the circular list at head \<open>h\<close> holds the links \<open>xs\<close> in order, in
  both directions. Every macro is proved to implement the list operation it stands for. The
  locale \<open>intrusive_queue\<close> states this contract for the clients (DNS cache and query queues, HTTP
  header and chunk queues), proves the loops they run over a queue, and is interpreted on the
  macros.
\<close>

section \<open>Links in a heap\<close>

record queue_s =
  qprev :: addr
  qnext :: addr

type_synonym qheap = "addr \<rightharpoonup> queue_s"

definition get_prev :: "qheap \<Rightarrow> addr \<Rightarrow> addr option" where
  "get_prev H p = map_option qprev (H p)"

definition get_next :: "qheap \<Rightarrow> addr \<Rightarrow> addr option" where
  "get_next H p = map_option qnext (H p)"

definition set_prev :: "qheap \<Rightarrow> addr \<Rightarrow> addr \<Rightarrow> qheap option" where
  "set_prev H p v = (case H p of None \<Rightarrow> None | Some n \<Rightarrow> Some (H(p \<mapsto> n\<lparr>qprev := v\<rparr>)))"

definition set_next :: "qheap \<Rightarrow> addr \<Rightarrow> addr \<Rightarrow> qheap option" where
  "set_next H p v = (case H p of None \<Rightarrow> None | Some n \<Rightarrow> Some (H(p \<mapsto> n\<lparr>qnext := v\<rparr>)))"

section \<open>The macros\<close>

definition queue_init :: "qheap \<Rightarrow> addr \<Rightarrow> qheap option" where
  "queue_init H q = do { H \<leftarrow> set_prev H q q; set_next H q q }"

definition queue_empty :: "qheap \<Rightarrow> addr \<Rightarrow> bool option" where
  "queue_empty H h = do { p \<leftarrow> get_prev H h; Some (h = p) }"

definition queue_insert_head :: "qheap \<Rightarrow> addr \<Rightarrow> addr \<Rightarrow> qheap option" where
  "queue_insert_head H h x =
     do { hn \<leftarrow> get_next H h;
          H \<leftarrow> set_next H x hn;
          xn \<leftarrow> get_next H x;
          H \<leftarrow> set_prev H xn x;
          H \<leftarrow> set_prev H x h;
          set_next H h x }"

definition queue_insert_tail :: "qheap \<Rightarrow> addr \<Rightarrow> addr \<Rightarrow> qheap option" where
  "queue_insert_tail H h x =
     do { hp \<leftarrow> get_prev H h;
          H \<leftarrow> set_prev H x hp;
          xp \<leftarrow> get_prev H x;
          H \<leftarrow> set_next H xp x;
          H \<leftarrow> set_next H x h;
          set_prev H h x }"

definition queue_head :: "qheap \<Rightarrow> addr \<Rightarrow> addr option" where
  "queue_head H h = get_next H h"

definition queue_last :: "qheap \<Rightarrow> addr \<Rightarrow> addr option" where
  "queue_last H h = get_prev H h"

definition queue_next :: "qheap \<Rightarrow> addr \<Rightarrow> addr option" where
  "queue_next H q = get_next H q"

definition queue_remove :: "qheap \<Rightarrow> addr \<Rightarrow> qheap option" where
  "queue_remove H x =
     do { xn \<leftarrow> get_next H x; xp \<leftarrow> get_prev H x; H \<leftarrow> set_prev H xn xp;
          xp \<leftarrow> get_prev H x; xn \<leftarrow> get_next H x; set_next H xp xn }"

definition queue_split :: "qheap \<Rightarrow> addr \<Rightarrow> addr \<Rightarrow> addr \<Rightarrow> qheap option" where
  "queue_split H h q n =
     do { hp \<leftarrow> get_prev H h; H \<leftarrow> set_prev H n hp;
          np \<leftarrow> get_prev H n; H \<leftarrow> set_next H np n;
          H \<leftarrow> set_next H n q;
          qp \<leftarrow> get_prev H q; H \<leftarrow> set_prev H h qp;
          hp \<leftarrow> get_prev H h; H \<leftarrow> set_next H hp h;
          set_prev H q n }"

definition queue_add :: "qheap \<Rightarrow> addr \<Rightarrow> addr \<Rightarrow> qheap option" where
  "queue_add H h n =
     do { hp \<leftarrow> get_prev H h; nn \<leftarrow> get_next H n; H \<leftarrow> set_next H hp nn;
          nn \<leftarrow> get_next H n; hp \<leftarrow> get_prev H h; H \<leftarrow> set_prev H nn hp;
          np \<leftarrow> get_prev H n; H \<leftarrow> set_prev H h np;
          np \<leftarrow> get_prev H n; set_next H np h }"

section \<open>The list a queue represents\<close>

fun linked :: "qheap \<Rightarrow> addr list \<Rightarrow> bool" where
  "linked H (a # b # xs) \<longleftrightarrow> get_next H a = Some b \<and> get_prev H b = Some a \<and> linked H (b # xs)"
| "linked H _ \<longleftrightarrow> True"

definition is_queue :: "qheap \<Rightarrow> addr \<Rightarrow> addr list \<Rightarrow> bool" where
  "is_queue H h xs \<longleftrightarrow> distinct (h # xs) \<and> linked H (h # xs @ [h])"

text \<open>The stores as total updates, for symbolic execution of the macros.\<close>

definition upd_prev :: "qheap \<Rightarrow> addr \<Rightarrow> addr \<Rightarrow> qheap" where
  "upd_prev H p v = H(p := map_option (\<lambda>n. n\<lparr>qprev := v\<rparr>) (H p))"

definition upd_next :: "qheap \<Rightarrow> addr \<Rightarrow> addr \<Rightarrow> qheap" where
  "upd_next H p v = H(p := map_option (\<lambda>n. n\<lparr>qnext := v\<rparr>) (H p))"

lemma set_upd [simp]:
  "p \<in> dom H \<Longrightarrow> set_prev H p v = Some (upd_prev H p v)"
  "p \<in> dom H \<Longrightarrow> set_next H p v = Some (upd_next H p v)"
  by (auto simp: set_prev_def set_next_def upd_prev_def upd_next_def)

lemma dom_upd [simp]: "dom (upd_prev H p v) = dom H" "dom (upd_next H p v) = dom H"
  by (auto simp: upd_prev_def upd_next_def split: if_splits)

lemma get_upd [simp]:
  "p \<in> dom H \<Longrightarrow> get_prev (upd_prev H p v) q = (if q = p then Some v else get_prev H q)"
  "get_next (upd_prev H p v) q = get_next H q"
  "p \<in> dom H \<Longrightarrow> get_next (upd_next H p v) q = (if q = p then Some v else get_next H q)"
  "get_prev (upd_next H p v) q = get_prev H q"
  by (auto simp: upd_prev_def upd_next_def get_prev_def get_next_def option.map_comp comp_def)

lemma get_dom: "get_prev H p = Some a \<Longrightarrow> p \<in> dom H" "get_next H p = Some b \<Longrightarrow> p \<in> dom H"
  by (auto simp: get_prev_def get_next_def)

text \<open>
  Adjacent links, and the decomposition of a chain at every cons and append: what remains are
  chains of segments and the junctions between them.
\<close>

definition link :: "qheap \<Rightarrow> addr \<Rightarrow> addr \<Rightarrow> bool" where
  "link H a b \<longleftrightarrow> get_next H a = Some b \<and> get_prev H b = Some a"

lemma linked_Cons: "linked H (a # xs) \<longleftrightarrow> (xs \<noteq> [] \<longrightarrow> link H a (hd xs)) \<and> linked H xs"
  by (cases xs) (auto simp: link_def)

lemma linked_append:
  "linked H (xs @ ys) \<longleftrightarrow>
     linked H xs \<and> linked H ys \<and> (xs \<noteq> [] \<and> ys \<noteq> [] \<longrightarrow> link H (last xs) (hd ys))"
  by (induction xs) (auto simp: linked_Cons hd_append)

lemmas linked_split = linked_Cons linked_append hd_append

declare linked.simps(1) [simp del]

lemma linked_frame:
  "\<forall>a \<in> set xs. get_next H' a = get_next H a \<and> get_prev H' a = get_prev H a \<Longrightarrow>
     linked H' xs = linked H xs"
  by (induction xs) (auto simp: linked_Cons link_def)

lemma end_neq [simp]:
  "xs \<noteq> [] \<Longrightarrow> h \<notin> set xs \<Longrightarrow> last xs \<noteq> h" "xs \<noteq> [] \<Longrightarrow> h \<notin> set xs \<Longrightarrow> h \<noteq> last xs"
  "xs \<noteq> [] \<Longrightarrow> h \<notin> set xs \<Longrightarrow> hd xs \<noteq> h" "xs \<noteq> [] \<Longrightarrow> h \<notin> set xs \<Longrightarrow> h \<noteq> hd xs"
  by auto

lemma end_dom [simp]:
  "xs \<noteq> [] \<Longrightarrow> set xs \<subseteq> dom H \<Longrightarrow> \<exists>y. H (last xs) = Some y"
  "xs \<noteq> [] \<Longrightarrow> set xs \<subseteq> dom H \<Longrightarrow> \<exists>y. H (hd xs) = Some y"
  by (auto simp: domD subsetD)

lemma linked_dom: "linked H xs \<Longrightarrow> 1 < length xs \<Longrightarrow> set xs \<subseteq> dom H"
proof (induction xs)
  case (Cons a xs)
  then show ?case
    by (cases xs) (auto simp: linked_Cons link_def dest: get_dom, cases "tl xs", auto dest: get_dom)
qed simp

lemma is_queue_dom: "is_queue H h xs \<Longrightarrow> h \<in> dom H \<and> set xs \<subseteq> dom H"
  using linked_dom [of H "h # xs @ [h]"] by (auto simp: is_queue_def)

section \<open>The macros implement the list operations\<close>

lemma queue_init_correct:
  assumes "h \<in> dom H"
  shows "\<exists>H'. queue_init H h = Some H' \<and> dom H' = dom H \<and> is_queue H' h []"
  using assms by (simp add: queue_init_def is_queue_def linked_split link_def)

lemma is_queue_ends:
  assumes "is_queue H h xs"
  shows "get_next H h = Some (if xs = [] then h else hd xs)"
    and "get_prev H h = Some (if xs = [] then h else last xs)"
  using assms by (auto simp: is_queue_def linked_split link_def)

lemma queue_empty_correct: "is_queue H h xs \<Longrightarrow> queue_empty H h = Some (xs = [])"
  using is_queue_ends(2) [of H h xs] by (auto simp: queue_empty_def is_queue_def)

lemma queue_last_correct: "is_queue H h xs \<Longrightarrow> xs \<noteq> [] \<Longrightarrow> queue_last H h = Some (last xs)"
  by (simp add: queue_last_def is_queue_ends)

lemma queue_head_correct: "is_queue H h xs \<Longrightarrow> xs \<noteq> [] \<Longrightarrow> queue_head H h = Some (hd xs)"
  by (simp add: queue_head_def is_queue_ends)

lemma queue_next_correct: "is_queue H h (ys @ x # zs) \<Longrightarrow> queue_next H x = Some (hd (zs @ [h]))"
  by (cases zs) (auto simp: queue_next_def is_queue_def linked_split link_def)

lemma queue_insert_tail_correct:
  assumes q: "is_queue H h xs" and x: "x \<in> dom H" "x \<notin> set (h # xs)"
  shows "\<exists>H'. queue_insert_tail H h x = Some H' \<and> dom H' = dom H \<and> is_queue H' h (xs @ [x])"
proof -
  note d = is_queue_dom [OF q] and e = is_queue_ends(2) [OF q]
  define l where "l = last (h # xs)"
  let ?H = "upd_prev (upd_next (upd_next (upd_prev H x l) l x) x h) h x"
  have l: "get_prev H h = Some l" "l \<in> dom H" "l \<noteq> x" "h \<in> dom H"
    using d e x by (auto simp: l_def split: if_splits)
  then have "queue_insert_tail H h x = Some ?H" "dom ?H = dom H"
    using x by (simp_all add: queue_insert_tail_def)
  moreover have "is_queue ?H h (xs @ [x])"
  proof (cases xs rule: rev_cases)
    case Nil
    with x l show ?thesis by (simp add: is_queue_def linked_split link_def l_def)
  next
    case (snoc ys y)
    then have "linked ?H ys = linked H ys"
      by (intro linked_frame) (use q x l in \<open>auto simp: is_queue_def l_def\<close>)
    with snoc q x l show ?thesis
      by (auto simp: is_queue_def linked_split link_def l_def)
  qed
  ultimately show ?thesis by blast
qed

lemma queue_insert_head_correct:
  assumes q: "is_queue H h xs" and x: "x \<in> dom H" "x \<notin> set (h # xs)"
  shows "\<exists>H'. queue_insert_head H h x = Some H' \<and> dom H' = dom H \<and> is_queue H' h (x # xs)"
proof -
  note d = is_queue_dom [OF q] and e = is_queue_ends(1) [OF q]
  define l where "l = hd (xs @ [h])"
  let ?H = "upd_next (upd_prev (upd_prev (upd_next H x l) l x) x h) h x"
  have l: "get_next H h = Some l" "l \<in> dom H" "l \<noteq> x" "h \<in> dom H"
    using d e x by (auto simp: l_def hd_append split: if_splits)
  then have "queue_insert_head H h x = Some ?H" "dom ?H = dom H"
    using x by (simp_all add: queue_insert_head_def)
  moreover have "is_queue ?H h (x # xs)"
  proof (cases xs)
    case Nil
    with x l show ?thesis by (simp add: is_queue_def linked_split link_def l_def)
  next
    case (Cons y ys)
    then have "linked ?H ys = linked H ys"
      by (intro linked_frame) (use q x l in \<open>auto simp: is_queue_def l_def\<close>)
    with Cons q x l show ?thesis
      by (auto simp: is_queue_def linked_split link_def l_def)
  qed
  ultimately show ?thesis by blast
qed

lemma queue_remove_correct:
  assumes q: "is_queue H h (ys @ x # zs)"
  shows "\<exists>H'. queue_remove H x = Some H' \<and> dom H' = dom H \<and> is_queue H' h (ys @ zs)
     \<and> get_prev H' x = get_prev H x \<and> get_next H' x = get_next H x"
proof -
  note d = is_queue_dom [OF q]
  define p where "p = last (h # ys)"
  define n where "n = hd (zs @ [h])"
  let ?H = "upd_next (upd_prev H n p) p n"
  have f: "get_next H x = Some n" "get_prev H x = Some p"
    using q by (auto simp: is_queue_def linked_split link_def p_def n_def)
  have g: "p \<in> dom H" "n \<in> dom H" "x \<noteq> p" "x \<noteq> n" "h \<noteq> x"
    using d q by (auto simp: p_def n_def hd_append is_queue_def)
  with f have "queue_remove H x = Some ?H" "dom ?H = dom H"
    "get_prev ?H x = get_prev H x" "get_next ?H x = get_next H x"
    by (simp_all add: queue_remove_def)
  moreover have "is_queue ?H h (ys @ zs)"
  proof -
    have frame: "linked ?H us = linked H us" if "p \<notin> set us" "n \<notin> set us" for us
      by (rule linked_frame) (use that g in auto)
    have "distinct (h # ys @ x # zs)" "linked H (h # ys @ x # zs @ [h])"
      using q by (simp_all add: is_queue_def)
    then show ?thesis
      using g frame
      by (cases ys rule: rev_cases; cases zs)
        (simp_all add: is_queue_def linked_split link_def p_def n_def split: if_split_asm)
  qed
  ultimately show ?thesis by blast
qed

lemma queue_split_correct:
  assumes q: "is_queue H h (ys @ q # zs)" and n: "n \<in> dom H" "n \<notin> set (h # ys @ q # zs)"
  shows "\<exists>H'. queue_split H h q n = Some H' \<and> dom H' = dom H
     \<and> is_queue H' h ys \<and> is_queue H' n (q # zs)"
proof -
  note d = is_queue_dom [OF q]
  define p where "p = last (h # ys)"
  define l where "l = last (q # zs)"
  let ?H = "upd_prev (upd_next (upd_prev (upd_next (upd_next (upd_prev H n l) l n) n q) h p) p h) q n"
  have f: "get_prev H h = Some l" "get_prev H q = Some p"
    using q by (auto simp: is_queue_def linked_split link_def p_def l_def)
  have g: "p \<in> dom H" "l \<in> dom H" "h \<in> dom H" "q \<in> dom H" "n \<noteq> p" "n \<noteq> l" "h \<noteq> n" "h \<noteq> q" "h \<noteq> l"
      "q \<noteq> n"
    using d q n by (auto simp: p_def l_def is_queue_def)
  with f have "queue_split H h q n = Some ?H" "dom ?H = dom H"
    using n by (simp_all add: queue_split_def)
  moreover have frame: "linked ?H us = linked H us"
    if "p \<notin> set us" "q \<notin> set us" "l \<notin> set us" "h \<notin> set us" "n \<notin> set us" for us
    by (rule linked_frame) (use that g n in auto)
  moreover have dd: "distinct (h # n # ys @ q # zs)" and ql: "linked H (h # ys @ q # zs @ [h])"
    using q n by (auto simp: is_queue_def)
  moreover have "is_queue ?H h ys"
    using dd ql g frame n
    by (cases ys rule: rev_cases; cases zs rule: rev_cases)
      (simp_all add: is_queue_def linked_split link_def p_def l_def split: if_split_asm)
  moreover have "is_queue ?H n (q # zs)"
    using dd ql g frame n
    by (cases ys rule: rev_cases; cases zs rule: rev_cases)
      (simp_all add: is_queue_def linked_split link_def p_def l_def split: if_split_asm)
  ultimately show ?thesis by blast
qed

lemma queue_add_correct:
  assumes q: "is_queue H h xs" and r: "is_queue H n ys" and dist: "set (h # xs) \<inter> set (n # ys) = {}"
  shows "\<exists>H'. queue_add H h n = Some H' \<and> dom H' = dom H \<and> is_queue H' h (xs @ ys)"
proof -
  note d = is_queue_dom [OF q] is_queue_dom [OF r]
  define p where "p = last (h # xs)"
  define a where "a = hd (ys @ [n])"
  define l where "l = (if ys = [] then p else last ys)"
  let ?H = "upd_next (upd_prev (upd_prev (upd_next H p a) a p) h l) l h"
  have f: "get_prev H h = Some p" "get_next H n = Some a" "get_prev H n = Some (last (n # ys))"
    using is_queue_ends [OF q] is_queue_ends [OF r] by (auto simp: p_def a_def hd_append)
  have g: "p \<in> dom H" "a \<in> dom H" "h \<in> dom H" "n \<in> dom H" "l \<in> dom H" "n \<noteq> p" "h \<noteq> n" "h \<noteq> a"
      "a = n \<longleftrightarrow> ys = []"
    using d q r dist by (auto simp: p_def a_def l_def is_queue_def hd_append)
  with f have "queue_add H h n = Some ?H" "dom ?H = dom H"
    by (cases "ys = []"; simp add: queue_add_def l_def)+
  moreover have frame: "linked ?H us = linked H us"
    if "p \<notin> set us" "a \<notin> set us" "l \<notin> set us" "h \<notin> set us" for us
    by (rule linked_frame) (use that g in auto)
  moreover have "is_queue ?H h (xs @ ys)"
  proof (cases "ys = []")
    case True
    then show ?thesis
      using q f g frame dist
      by (cases xs rule: rev_cases) (auto simp: is_queue_def linked_split link_def p_def a_def l_def)
  next
    case False
    then obtain b zs where ys: "ys = b # zs" by (cases ys) auto
    have dd: "distinct (h # xs @ n # b # zs)"
      using q r dist by (auto simp: is_queue_def ys)
    have ql: "linked H (h # xs @ [h])" and rl: "linked H (n # b # zs @ [n])"
      using q r by (simp_all add: is_queue_def ys)
    show ?thesis
      using ql rl dd frame g
      by (cases xs rule: rev_cases; cases zs rule: rev_cases)
        (simp_all add: is_queue_def linked_split link_def p_def a_def l_def ys split: if_split_asm)
  qed
  ultimately show ?thesis by blast
qed

section \<open>Loops over a queue\<close>

text \<open>
  The search loop of \<open>find_cache\<close> and \<open>find_query\<close> in \<^verbatim>\<open>src/async_dns.c\<close>: start behind the
  head, stop at the head or at the first link that matches.
\<close>

partial_function (option) queue_search ::
  "qheap \<Rightarrow> addr \<Rightarrow> (addr \<Rightarrow> bool) \<Rightarrow> addr \<Rightarrow> addr option option" where
  "queue_search H h P p =
     (if p = h then Some None
      else if P p then Some (Some p)
      else do { n \<leftarrow> get_next H p; queue_search H h P n })"

text \<open>
  The release loop of \<open>http_client_retrieve\<close> in \<^verbatim>\<open>src/http_client.c\<close>: while the head is not its
  own successor, unlink the first element and free it. Freeing an address that holds no object
  is undefined.
\<close>

partial_function (option) queue_drain :: "qheap \<Rightarrow> addr \<Rightarrow> qheap option" where
  "queue_drain H h =
     do { n \<leftarrow> get_next H h;
          if h \<noteq> n
          then do { H \<leftarrow> queue_remove H n;
                    if n \<in> dom H then queue_drain (H(n := None)) h else None }
          else Some H }"

section \<open>The contract of a queue and its clients\<close>

locale intrusive_queue =
  fixes rep :: "'m \<Rightarrow> addr \<Rightarrow> addr list \<Rightarrow> bool"
    and live :: "'m \<Rightarrow> addr set"
    and nxt :: "'m \<Rightarrow> addr \<Rightarrow> addr option"
    and lst :: "'m \<Rightarrow> addr \<Rightarrow> addr option"
    and ins_head :: "'m \<Rightarrow> addr \<Rightarrow> addr \<Rightarrow> 'm option"
    and ins_tail :: "'m \<Rightarrow> addr \<Rightarrow> addr \<Rightarrow> 'm option"
    and unlink :: "'m \<Rightarrow> addr \<Rightarrow> 'm option"
  assumes rep_distinct: "rep m h xs \<Longrightarrow> distinct (h # xs)"
    and rep_live: "rep m h xs \<Longrightarrow> set (h # xs) \<subseteq> live m"
    and nxt_head: "rep m h xs \<Longrightarrow> nxt m h = Some (hd (xs @ [h]))"
    and nxt_elem: "rep m h (ys @ x # zs) \<Longrightarrow> nxt m x = Some (hd (zs @ [h]))"
    and lst_head: "rep m h xs \<Longrightarrow> xs \<noteq> [] \<Longrightarrow> lst m h = Some (last xs)"
    and ins_head_rep: "rep m h xs \<Longrightarrow> x \<in> live m \<Longrightarrow> x \<notin> set (h # xs) \<Longrightarrow>
      \<exists>m'. ins_head m h x = Some m' \<and> live m' = live m \<and> rep m' h (x # xs)"
    and ins_tail_rep: "rep m h xs \<Longrightarrow> x \<in> live m \<Longrightarrow> x \<notin> set (h # xs) \<Longrightarrow>
      \<exists>m'. ins_tail m h x = Some m' \<and> live m' = live m \<and> rep m' h (xs @ [x])"
    and unlink_rep: "rep m h (ys @ x # zs) \<Longrightarrow>
      \<exists>m'. unlink m x = Some m' \<and> live m' = live m \<and> rep m' h (ys @ zs)"
begin

text \<open>Unlinking a member removes exactly that member.\<close>

lemma unlink_member:
  assumes "rep m h xs" and "x \<in> set xs"
  shows "\<exists>m'. unlink m x = Some m' \<and> live m' = live m \<and> rep m' h (remove1 x xs)"
proof -
  obtain ys zs where xs: "xs = ys @ x # zs" and x: "x \<notin> set ys"
    using split_list_first [OF assms(2)] by blast
  then show ?thesis using unlink_rep assms(1) by (simp add: remove1_append)
qed

text \<open>
  Inserting at the head of a queue of at most \<open>k\<close> links and dropping the last link when the
  bound is exceeded keeps the \<open>k\<close> youngest links.
\<close>

lemma bounded_push:
  assumes r: "rep m h xs" and x: "x \<in> live m" "x \<notin> set (h # xs)" and k: "length xs \<le> k"
  shows "\<exists>m'. do { m \<leftarrow> ins_head m h x;
                  if k < Suc (length xs) then do { l \<leftarrow> lst m h; unlink m l } else Some m } = Some m'
           \<and> live m' = live m \<and> rep m' h (take k (x # xs))"
proof -
  obtain m1 where m1: "ins_head m h x = Some m1" "live m1 = live m" "rep m1 h (x # xs)"
    using ins_head_rep [OF r x] by blast
  show ?thesis
  proof (cases "k < Suc (length xs)")
    case True
    with k have len: "length xs = k" by simp
    define ys where "ys = butlast (x # xs)"
    define l where "l = last (x # xs)"
    have split: "x # xs = ys @ [l]" by (simp add: ys_def l_def)
    have l: "lst m1 h = Some l" using lst_head [OF m1(3)] by (simp add: l_def)
    obtain m2 where "unlink m1 l = Some m2" "live m2 = live m1" "rep m2 h ys"
      using unlink_rep [of m1 h ys l "[]"] m1(3) split by auto
    moreover have "ys = take k (x # xs)" using len by (simp add: ys_def butlast_conv_take)
    ultimately show ?thesis using True m1 l by simp
  next
    case False
    with m1 k show ?thesis by simp
  qed
qed

end

interpretation mq: intrusive_queue is_queue dom get_next queue_last
    queue_insert_head queue_insert_tail queue_remove
proof unfold_locales
  fix m h xs assume q: "is_queue m h xs"
  show "distinct (h # xs)" using q by (simp add: is_queue_def)
  show "set (h # xs) \<subseteq> dom m" using is_queue_dom [OF q] by simp
  show "get_next m h = Some (hd (xs @ [h]))" using is_queue_ends(1) [OF q] by (simp add: hd_append)
qed (fact queue_next_correct [unfolded queue_next_def] queue_last_correct queue_insert_head_correct
    queue_insert_tail_correct | blast dest: queue_remove_correct)+

lemma queue_search_correct:
  "is_queue H h (ys @ zs) \<Longrightarrow> queue_search H h P (hd (zs @ [h])) = Some (find P zs)"
proof (induction zs arbitrary: ys)
  case Nil
  then show ?case by (simp add: queue_search.simps)
next
  case (Cons x zs)
  have "x \<noteq> h" using mq.rep_distinct [OF Cons.prems] by auto
  moreover have "get_next H x = Some (hd (zs @ [h]))" by (rule mq.nxt_elem [OF Cons.prems])
  moreover have "queue_search H h P (hd (zs @ [h])) = Some (find P zs)"
    using Cons.prems by (intro Cons.IH [of "ys @ [x]"]) simp
  ultimately show ?case by (simp add: queue_search.simps [of H h P x])
qed

lemma is_queue_frame:
  assumes "is_queue H h xs" and "\<forall>a \<in> set (h # xs). H' a = H a"
  shows "is_queue H' h xs"
proof -
  have "linked H' (h # xs @ [h]) = linked H (h # xs @ [h])"
    by (rule linked_frame) (use assms(2) in \<open>auto simp: get_next_def get_prev_def\<close>)
  with assms(1) show ?thesis by (simp add: is_queue_def)
qed

lemma queue_drain_correct:
  "is_queue H h xs \<Longrightarrow>
     \<exists>H'. queue_drain H h = Some H' \<and> is_queue H' h [] \<and> dom H' = dom H - set xs"
proof (induction xs arbitrary: H)
  case Nil
  then show ?case using mq.nxt_head [OF Nil] by (auto simp: queue_drain.simps)
next
  case (Cons x xs)
  have next_h: "get_next H h = Some x" "x \<noteq> h" "x \<notin> set xs"
    using mq.nxt_head [OF Cons.prems] mq.rep_distinct [OF Cons.prems] by auto
  obtain H1 where H1: "queue_remove H x = Some H1" "dom H1 = dom H" "is_queue H1 h xs"
    using mq.unlink_rep [of H h "[]" x xs] Cons.prems by auto
  have "is_queue (H1(x := None)) h xs"
    by (rule is_queue_frame [OF H1(3)]) (use next_h in auto)
  from Cons.IH [OF this] obtain H' where H': "queue_drain (H1(x := None)) h = Some H'"
    "is_queue H' h []" "dom H' = dom (H1(x := None)) - set xs" by blast
  have "x \<in> dom H1" using mq.rep_live [OF Cons.prems] H1(2) by auto
  with H' H1 next_h show ?case
    by (subst queue_drain.simps) (auto simp: H1(2))
qed

section \<open>Properties\<close>

text \<open>
  Inserting a fresh link at the head or at the tail of a queue is defined, touches no
  allocation, and prepends or appends exactly that link to the represented list, for every
  queue length (also the empty queue, where the head is its own neighbour).
\<close>

theorem queue_insert_refines:
  assumes "is_queue H h xs" and "x \<in> dom H" and "x \<notin> set (h # xs)"
  shows "\<exists>H1 H2. queue_insert_head H h x = Some H1 \<and> is_queue H1 h (x # xs) \<and> dom H1 = dom H
     \<and> queue_insert_tail H h x = Some H2 \<and> is_queue H2 h (xs @ [x]) \<and> dom H2 = dom H"
  using mq.ins_head_rep [OF assms] mq.ins_tail_rep [OF assms] by blast

definition example_queue :: qheap where
  "example_queue = [1 \<mapsto> \<lparr>qprev = 3, qnext = 2\<rparr>, 2 \<mapsto> \<lparr>qprev = 1, qnext = 3\<rparr>,
                    3 \<mapsto> \<lparr>qprev = 2, qnext = 1\<rparr>, 9 \<mapsto> \<lparr>qprev = 0, qnext = 0\<rparr>]"

lemma example_queue_rep: "is_queue example_queue 1 [2, 3]"
  by (simp add: is_queue_def linked_split link_def example_queue_def get_next_def get_prev_def)

lemma example_queue_dom: "dom example_queue = {1, 2, 3, 9}"
  by (auto simp: example_queue_def split: if_splits)

theorem queue_insert_refines_witness:
  "\<exists>H1 H2. queue_insert_head example_queue 1 9 = Some H1 \<and> is_queue H1 1 [9, 2, 3]
     \<and> queue_insert_tail example_queue 1 9 = Some H2 \<and> is_queue H2 1 [2, 3, 9]"
  using queue_insert_refines [OF example_queue_rep, of 9] by (auto simp: example_queue_dom)

text \<open>
  C22: removing a link that is in a queue is defined without knowing the head, and leaves the
  represented list with exactly that link taken out; the removed object keeps its own pointers.
\<close>

theorem queue_remove_refines:
  assumes "is_queue H h xs" and "x \<in> set xs"
  shows "\<exists>H'. queue_remove H x = Some H' \<and> is_queue H' h (remove1 x xs) \<and> dom H' = dom H"
  using mq.unlink_member [OF assms] by blast

theorem queue_remove_refines_witness:
  "\<exists>H'. queue_remove example_queue 2 = Some H' \<and> is_queue H' 1 [3]"
  using queue_remove_refines [OF example_queue_rep, of 2] by auto

text \<open>
  \<open>queue_split\<close> at a link moves that link and everything behind it to the new head, and
  \<open>queue_add\<close> of the new head to the old one restores the original queue.
\<close>

theorem queue_split_add_roundtrip:
  assumes "is_queue H h (ys @ q # zs)" and "n \<in> dom H" and "n \<notin> set (h # ys @ q # zs)"
  shows "\<exists>H1 H2. queue_split H h q n = Some H1 \<and> is_queue H1 h ys \<and> is_queue H1 n (q # zs)
     \<and> queue_add H1 h n = Some H2 \<and> is_queue H2 h (ys @ q # zs)"
proof -
  obtain H1 where H1: "queue_split H h q n = Some H1" "is_queue H1 h ys" "is_queue H1 n (q # zs)"
    using queue_split_correct [OF assms] by blast
  have "set (h # ys) \<inter> set (n # q # zs) = {}"
    using assms(3) mq.rep_distinct [OF assms(1)] by auto
  from queue_add_correct [OF H1(2,3) this] H1 show ?thesis by blast
qed

theorem queue_split_add_roundtrip_witness:
  "\<exists>H1 H2. queue_split example_queue 1 3 9 = Some H1 \<and> is_queue H1 1 [2] \<and> is_queue H1 9 [3]
     \<and> queue_add H1 1 9 = Some H2 \<and> is_queue H2 1 [2, 3]"
  using queue_split_add_roundtrip [of example_queue 1 "[2]" 3 "[]" 9] example_queue_rep
  by (auto simp: example_queue_dom)

text \<open>
  The release loop over a queue terminates, frees every link of the queue exactly once and
  no other object, and leaves the head empty.
\<close>

theorem queue_drain_frees_all:
  assumes "is_queue H h xs"
  shows "\<exists>H'. queue_drain H h = Some H' \<and> is_queue H' h [] \<and> dom H' = dom H - set xs"
  using assms by (rule queue_drain_correct)

theorem queue_drain_frees_all_witness:
  "\<exists>H'. queue_drain example_queue 1 = Some H' \<and> is_queue H' 1 [] \<and> dom H' = {1, 9}"
  using queue_drain_frees_all [OF example_queue_rep] by (auto simp: example_queue_dom)

end
