(* ===== verification/Rbtree_Spec.thy ===== *)
theory Rbtree_Spec
  imports Prelude
begin

text \<open>
  The abstract side of the red-black tree of \<^verbatim>\<open>src/rbtree.c\<close>: coloured binary trees whose nodes
  are the addresses of \<open>rbtree_node_t\<close> objects, the tree around a position as a list of frames
  (innermost first), and the two rebalancing loops of the code as recursive functions on a
  position. The colour and black-height invariants and the inorder sequence of both loops are
  proved here; the theories \<open>Rbtree_Insert\<close> and \<open>Rbtree_Delete\<close> prove that the pointer program
  computes exactly these functions.
\<close>

section \<open>Coloured trees and positions\<close>

datatype rtree = Leaf | Node (isred: bool) rtree addr rtree

fun red :: "rtree \<Rightarrow> bool" where
  "red Leaf = False"
| "red (Node c l a r) = c"

fun inorder :: "rtree \<Rightarrow> addr list" where
  "inorder Leaf = []"
| "inorder (Node c l a r) = inorder l @ a # inorder r"

fun paint :: "bool \<Rightarrow> rtree \<Rightarrow> rtree" where
  "paint c Leaf = Leaf"
| "paint c (Node c' l a r) = Node c l a r"

fun bh :: "rtree \<Rightarrow> nat" where
  "bh Leaf = 0"
| "bh (Node c l a r) = bh l + (if c then 0 else 1)"

fun invc :: "rtree \<Rightarrow> bool" where
  "invc Leaf = True"
| "invc (Node c l a r) \<longleftrightarrow> (c \<longrightarrow> \<not> red l \<and> \<not> red r) \<and> invc l \<and> invc r"

fun invh :: "rtree \<Rightarrow> bool" where
  "invh Leaf = True"
| "invh (Node c l a r) \<longleftrightarrow> bh l = bh r \<and> invh l \<and> invh r"

definition rbt_ok :: "rtree \<Rightarrow> bool" where
  "rbt_ok t \<longleftrightarrow> invc t \<and> invh t \<and> \<not> red t"

fun height :: "rtree \<Rightarrow> nat" where
  "height Leaf = 0"
| "height (Node c l a r) = Suc (max (height l) (height r))"

text \<open>
  A frame is the node above a hole with its other subtree: \<open>LF c a r\<close> when the hole is the left
  child of \<open>a\<close>, \<open>RF c l a\<close> when it is the right child.
\<close>

datatype frame = LF bool addr rtree | RF bool rtree addr

fun plug1 :: "frame \<Rightarrow> rtree \<Rightarrow> rtree" where
  "plug1 (LF c a r) t = Node c t a r"
| "plug1 (RF c l a) t = Node c l a t"

fun plug :: "frame list \<Rightarrow> rtree \<Rightarrow> rtree" where
  "plug [] t = t"
| "plug (f # k) t = plug k (plug1 f t)"

fun before :: "frame list \<Rightarrow> addr list" where
  "before [] = []"
| "before (LF c a r # k) = before k"
| "before (RF c l a # k) = before k @ inorder l @ [a]"

fun after :: "frame list \<Rightarrow> addr list" where
  "after [] = []"
| "after (LF c a r # k) = a # inorder r @ after k"
| "after (RF c l a # k) = after k"

lemma inorder_plug: "inorder (plug k t) = before k @ inorder t @ after k"
proof (induction k arbitrary: t)
  case (Cons f k)
  then show ?case by (cases f) auto
qed simp

lemma plug_append [simp]: "plug (k @ k') t = plug k' (plug k t)"
  by (induction k arbitrary: t) auto

text \<open>
  \<open>okctx k c h\<close>: the frames are those of a red-black tree in which the hole has colour \<open>c\<close>
  (red if true) and black height \<open>h\<close>.
\<close>

fun okctx :: "frame list \<Rightarrow> bool \<Rightarrow> nat \<Rightarrow> bool" where
  "okctx [] c h \<longleftrightarrow> \<not> c"
| "okctx (LF cf a r # k) c h \<longleftrightarrow> invc r \<and> invh r \<and> bh r = h \<and> (cf \<longrightarrow> \<not> c \<and> \<not> red r) \<and>
     okctx k cf (if cf then h else Suc h)"
| "okctx (RF cf l a # k) c h \<longleftrightarrow> invc l \<and> invh l \<and> bh l = h \<and> (cf \<longrightarrow> \<not> c \<and> \<not> red l) \<and>
     okctx k cf (if cf then h else Suc h)"

lemma rbt_ok_plug: "rbt_ok (plug k t) \<longleftrightarrow> okctx k (red t) (bh t) \<and> invc t \<and> invh t"
proof (induction k arbitrary: t)
  case (Cons f k)
  then show ?case by (cases f) auto
qed (auto simp: rbt_ok_def)

lemma paint_simps [simp]:
  "red (paint c t) \<longleftrightarrow> c \<and> t \<noteq> Leaf" "inorder (paint c t) = inorder t"
  "invh (paint c t) = invh t" "paint c t = Leaf \<longleftrightarrow> t = Leaf"
  by (cases t; simp)+

lemma bh_paint_False: "bh (paint False t) = (if red t then Suc (bh t) else bh t)"
  by (cases t) auto

lemma invc_paint_False [simp]: "invc t \<Longrightarrow> invc (paint False t)"
  by (cases t) auto

lemma paint_id: "\<not> red t \<Longrightarrow> paint False t = t"
  by (cases t) auto

section \<open>Descending to a leaf\<close>

fun leaf_ctx :: "(addr \<Rightarrow> bool) \<Rightarrow> rtree \<Rightarrow> frame list \<Rightarrow> frame list" where
  "leaf_ctx goL Leaf k = k"
| "leaf_ctx goL (Node c l a r) k =
     (if goL a then leaf_ctx goL l (LF c a r # k) else leaf_ctx goL r (RF c l a # k))"

lemma plug_leaf_ctx [simp]: "plug (leaf_ctx goL t k) Leaf = plug k t"
  by (induction t arbitrary: k) auto

lemma leaf_ctx_split:
  assumes "sorted_wrt (\<lambda>a b. goL a \<longrightarrow> goL b) (inorder t)"
  shows "before (leaf_ctx goL t k) = before k @ filter (\<lambda>a. \<not> goL a) (inorder t)"
    and "after (leaf_ctx goL t k) = filter goL (inorder t) @ after k"
proof -
  have "before (leaf_ctx goL t k) = before k @ filter (\<lambda>a. \<not> goL a) (inorder t) \<and>
    after (leaf_ctx goL t k) = filter goL (inorder t) @ after k"
    using assms
  proof (induction t arbitrary: k)
    case (Node c l a r)
    have s: "sorted_wrt (\<lambda>a b. goL a \<longrightarrow> goL b) (inorder l)"
      "sorted_wrt (\<lambda>a b. goL a \<longrightarrow> goL b) (inorder r)"
      "\<forall>x\<in>set (inorder l). goL x \<longrightarrow> goL a" "\<forall>x\<in>set (inorder r). goL a \<longrightarrow> goL x"
      using Node.prems unfolding inorder.simps sorted_wrt_append sorted_wrt.simps list.set by blast+
    note IH = Node.IH(1) [OF s(1)] Node.IH(2) [OF s(2)]
    show ?case
    proof (cases "goL a")
      case True
      then have "filter (\<lambda>a. \<not> goL a) (inorder r) = []" "filter goL (inorder r) = inorder r"
        using s by (simp_all add: filter_empty_conv)
      then show ?thesis using True IH by simp
    next
      case False
      then have "filter goL (inorder l) = []" "filter (\<lambda>a. \<not> goL a) (inorder l) = inorder l"
        using s by (simp_all add: filter_empty_conv)
      then show ?thesis using False IH by simp
    qed
  qed simp
  then show "before (leaf_ctx goL t k) = before k @ filter (\<lambda>a. \<not> goL a) (inorder t)"
    and "after (leaf_ctx goL t k) = filter goL (inorder t) @ after k" by simp_all
qed

section \<open>The rebalancing loop of an insertion\<close>

text \<open>
  A round at a red node whose parent is red: the position it moves to. The parent is never the
  root, so the grandparent's frame is always there.
\<close>

fun ins_round :: "frame list \<Rightarrow> rtree \<Rightarrow> frame list \<times> rtree" where
  "ins_round (LF True p sb # LF cg g u # k) t =
     (if red u then (k, Node True (Node False t p sb) g (paint False u))
      else (LF False p (Node True sb g u) # k, t))"
| "ins_round (RF True sb p # LF cg g u # k) (Node c l x r) =
     (if red u then (k, Node True (Node False sb p (Node c l x r)) g (paint False u))
      else (LF False x (Node True r g u) # k, Node True sb p l))"
| "ins_round (RF True sb p # RF cg u g # k) t =
     (if red u then (k, Node True (paint False u) g (Node False sb p t))
      else (RF False (Node True u g sb) p # k, t))"
| "ins_round (LF True p sb # RF cg u g # k) (Node c l x r) =
     (if red u then (k, Node True (paint False u) g (Node False (Node c l x r) p sb))
      else (RF False (Node True u g l) x # k, Node True r p sb))"
| "ins_round k t = (k, t)"

text \<open>
  The invariant of the loop: the tree is a red-black tree but for the colour of the node at the
  position, which is red.
\<close>

definition ins_inv :: "frame list \<Rightarrow> rtree \<Rightarrow> bool" where
  "ins_inv k t \<longleftrightarrow> okctx k False (bh t) \<and> invc t \<and> invh t \<and> red t"

definition hd_red :: "frame list \<Rightarrow> bool" where
  "hd_red k = (case k of [] \<Rightarrow> False | LF c a r # _ \<Rightarrow> c | RF c l a # _ \<Rightarrow> c)"

lemma hd_red_simps [simp]: "\<not> hd_red []" "hd_red (LF c a r # k) = c" "hd_red (RF c l a # k) = c"
  by (simp_all add: hd_red_def)

lemma ins_inv_cases:
  assumes "ins_inv k t" "hd_red k"
  obtains (LL) p sb cg g u k' where "k = LF True p sb # LF cg g u # k'"
  | (LR) p sb cg g u k' where "k = LF True p sb # RF cg u g # k'"
  | (RL) p sb cg g u k' where "k = RF True sb p # LF cg g u # k'"
  | (RR) p sb cg g u k' where "k = RF True sb p # RF cg u g # k'"
proof (cases k)
  case (Cons f k1)
  with assms have "k1 \<noteq> []" by (cases f) (auto simp: ins_inv_def)
  then obtain f' k2 where "k1 = f' # k2" by (cases k1) auto
  with Cons assms that show thesis by (cases f; cases f') auto
qed (use assms in simp)

lemma ins_round_inv:
  assumes "ins_inv k t" "hd_red k" "ins_round k t = (k', t')"
  shows "ins_inv k' t' \<and> inorder (plug k' t') = inorder (plug k t) \<and> length k' < length k"
proof -
  obtain l x r where t: "t = Node True l x r" using assms(1) by (cases t) (auto simp: ins_inv_def)
  from assms(1,2) show ?thesis
  proof (cases rule: ins_inv_cases)
    case LL
    then show ?thesis using assms t
      by (auto simp: ins_inv_def bh_paint_False inorder_plug split: if_splits)
  next
    case LR
    then show ?thesis using assms t
      by (auto simp: ins_inv_def bh_paint_False inorder_plug split: if_splits)
  next
    case RL
    then show ?thesis using assms t
      by (auto simp: ins_inv_def bh_paint_False inorder_plug split: if_splits)
  next
    case RR
    then show ?thesis using assms t
      by (auto simp: ins_inv_def bh_paint_False inorder_plug split: if_splits)
  qed
qed

lemma ins_inv_done:
  assumes "ins_inv k t" "\<not> hd_red k"
  shows "rbt_ok (paint False (plug k t))"
proof (cases k)
  case Nil
  then show ?thesis using assms by (auto simp: ins_inv_def rbt_ok_def)
next
  case (Cons f k')
  then have "okctx k True (bh t)" using assms by (cases f) (auto simp: ins_inv_def)
  then have "rbt_ok (plug k t)" using assms by (simp add: rbt_ok_plug ins_inv_def)
  then show ?thesis by (simp add: rbt_ok_def paint_id)
qed

section \<open>The rebalancing loop of a deletion\<close>

text \<open>
  After a deletion: the sibling of a position that lacks one black node, when the sibling is
  black (\<open>del_l\<close>: the position is the left child). \<open>Inl\<close> is the case where the loop goes on one
  level up, \<open>Inr\<close> the case where it stops.
\<close>

fun del_l :: "bool \<Rightarrow> rtree \<Rightarrow> addr \<Rightarrow> rtree \<Rightarrow> rtree + rtree" where
  "del_l cp t p (Node cw a w b) =
     (if \<not> red a \<and> \<not> red b then Inl (Node cp t p (Node True a w b))
      else if \<not> red b
      then (case a of Leaf \<Rightarrow> Inl Leaf
        | Node _ a1 v a2 \<Rightarrow> Inr (Node cp (Node False t p a1) v (Node False a2 w b)))
      else Inr (Node cp (Node False t p a) w (paint False b)))"
| "del_l cp t p Leaf = Inl Leaf"

fun del_r :: "bool \<Rightarrow> rtree \<Rightarrow> addr \<Rightarrow> rtree \<Rightarrow> rtree + rtree" where
  "del_r cp (Node cw a w b) p t =
     (if \<not> red a \<and> \<not> red b then Inl (Node cp (Node True a w b) p t)
      else if \<not> red a
      then (case b of Leaf \<Rightarrow> Inl Leaf
        | Node _ b1 v b2 \<Rightarrow> Inr (Node cp (Node False a w b1) v (Node False b2 p t)))
      else Inr (Node cp (paint False a) w (Node False b p t)))"
| "del_r cp Leaf p t = Inl Leaf"

text \<open>
  One round of the loop in \<open>rbtree_delete\<close>: the new position (\<open>Inl\<close>) or the final tree (\<open>Inr\<close>).
  A red sibling is first rotated above the parent.
\<close>

fun del_round :: "frame \<Rightarrow> frame list \<Rightarrow> rtree \<Rightarrow> (frame list \<times> rtree) + rtree" where
  "del_round (LF cp p w) k t =
     (case w of Node True wl wa wr \<Rightarrow>
          (case del_l True t p wl of
             Inl t' \<Rightarrow> Inl (LF False wa wr # k, t') | Inr t' \<Rightarrow> Inr (plug (LF False wa wr # k) t'))
      | _ \<Rightarrow> (case del_l cp t p w of Inl t' \<Rightarrow> Inl (k, t') | Inr t' \<Rightarrow> Inr (plug k t')))"
| "del_round (RF cp w p) k t =
     (case w of Node True wl wa wr \<Rightarrow>
          (case del_r True wr p t of
             Inl t' \<Rightarrow> Inl (RF False wl wa # k, t') | Inr t' \<Rightarrow> Inr (plug (RF False wl wa # k) t'))
      | _ \<Rightarrow> (case del_r cp w p t of Inl t' \<Rightarrow> Inl (k, t') | Inr t' \<Rightarrow> Inr (plug k t')))"

text \<open>
  The invariant of the loop: the subtree at the position lacks one black node.
\<close>

definition del_inv :: "frame list \<Rightarrow> rtree \<Rightarrow> bool" where
  "del_inv k t \<longleftrightarrow> okctx k False (Suc (bh t)) \<and> invc (paint False t) \<and> invh t"

lemma okctx_black: "okctx k c h \<Longrightarrow> okctx k False h"
  by (cases k; (cases "hd k")?; auto)

lemma del_l_inv:
  assumes "bh w = Suc (bh t)" "invc w" "invh w" "\<not> red w" "invc t" "invh t" "\<not> red t"
  shows "case del_l cp t p w of
      Inl t' \<Rightarrow> invh t' \<and> bh t' = (if cp then bh t else Suc (bh t)) \<and> invc (paint False t') \<and>
                t' \<noteq> Leaf \<and> red t' = cp \<and> inorder t' = inorder t @ p # inorder w
    | Inr t' \<Rightarrow> invh t' \<and> bh t' = (if cp then bh w else Suc (bh w)) \<and> invc t' \<and>
                red t' = cp \<and> inorder t' = inorder t @ p # inorder w"
  using assms
proof (cases w)
  case (Node cw a v b)
  then show ?thesis using assms
    by (cases a) (auto simp: bh_paint_False)
qed simp

lemma del_r_inv:
  assumes "bh w = Suc (bh t)" "invc w" "invh w" "\<not> red w" "invc t" "invh t" "\<not> red t"
  shows "case del_r cp w p t of
      Inl t' \<Rightarrow> invh t' \<and> bh t' = (if cp then bh t else Suc (bh t)) \<and> invc (paint False t') \<and>
                t' \<noteq> Leaf \<and> red t' = cp \<and> inorder t' = inorder w @ p # inorder t
    | Inr t' \<Rightarrow> invh t' \<and> bh t' = (if cp then bh w else Suc (bh w)) \<and> invc t' \<and>
                red t' = cp \<and> inorder t' = inorder w @ p # inorder t"
  using assms
proof (cases w)
  case (Node cw a v b)
  then show ?thesis using assms
    by (cases b) (auto simp: bh_paint_False)
qed simp

lemma del_round_inv:
  assumes "del_inv (f # k) t" "\<not> red t"
  shows "case del_round f k t of
      Inl (k', t') \<Rightarrow> del_inv k' t' \<and> inorder (plug k' t') = inorder (plug (f # k) t) \<and>
        t' \<noteq> Leaf \<and> (red t' \<or> k' = k)
    | Inr T \<Rightarrow> rbt_ok T \<and> inorder T = inorder (plug (f # k) t)"
proof (cases f)
  case (LF cp p w)
  note inv = assms [unfolded LF del_inv_def okctx.simps paint_id [OF assms(2)]]
  show ?thesis
  proof (cases "red w")
    case True
    then obtain wl wa wr where w: "w = Node True wl wa wr" by (cases w) auto
    with inv have "bh wl = Suc (bh t)" "invc wl" "invh wl" "\<not> red wl" "invc t" "invh t" "\<not> red t"
      by (auto simp: paint_id)
    from del_l_inv [OF this, of True p] show ?thesis
      using inv by (auto simp: LF w del_inv_def rbt_ok_plug inorder_plug paint_id split: sum.splits)
  next
    case False
    then obtain wl wa wr where w: "w = Node False wl wa wr" using inv by (cases w) auto
    have "bh w = Suc (bh t)" "invc w" "invh w" "\<not> red w" "invc t" "invh t" "\<not> red t"
      using inv False by (auto simp: paint_id)
    from del_l_inv [OF this, of cp p] show ?thesis
      using inv unfolding LF w
      by (auto simp: del_inv_def rbt_ok_plug inorder_plug paint_id okctx_black split: sum.splits)
  qed
next
  case (RF cp w p)
  note inv = assms [unfolded RF del_inv_def okctx.simps paint_id [OF assms(2)]]
  show ?thesis
  proof (cases "red w")
    case True
    then obtain wl wa wr where w: "w = Node True wl wa wr" by (cases w) auto
    with inv have "bh wr = Suc (bh t)" "invc wr" "invh wr" "\<not> red wr" "invc t" "invh t" "\<not> red t"
      by (auto simp: paint_id)
    from del_r_inv [OF this, of True p] show ?thesis
      using inv by (auto simp: RF w del_inv_def rbt_ok_plug inorder_plug paint_id split: sum.splits)
  next
    case False
    then obtain wl wa wr where w: "w = Node False wl wa wr" using inv by (cases w) auto
    have "bh w = Suc (bh t)" "invc w" "invh w" "\<not> red w" "invc t" "invh t" "\<not> red t"
      using inv False by (auto simp: paint_id)
    from del_r_inv [OF this, of cp p] show ?thesis
      using inv unfolding RF w
      by (auto simp: del_inv_def rbt_ok_plug inorder_plug paint_id okctx_black split: sum.splits)
  qed
qed

lemma del_inv_done:
  assumes "del_inv k t" "red t \<or> k = []"
  shows "rbt_ok (plug k (paint False t))"
proof (cases "red t")
  case True
  then show ?thesis using assms(1) by (simp add: rbt_ok_plug del_inv_def bh_paint_False)
next
  case False
  then show ?thesis using assms by (simp add: rbt_ok_def del_inv_def)
qed

section \<open>Logarithmic height\<close>

lemma height_le_bh: "invc t \<Longrightarrow> invh t \<Longrightarrow> height t \<le> 2 * bh t + (if red t then 1 else 0)"
  by (induction t) (auto split: if_splits)

lemma bh_le_size: "invh t \<Longrightarrow> 2 ^ bh t \<le> Suc (length (inorder t))"
  by (induction t) auto

lemma rbt_ok_height:
  assumes "rbt_ok t"
  shows "2 ^ height t \<le> (Suc (length (inorder t))) ^ 2"
proof -
  have "height t \<le> 2 * bh t" using height_le_bh [of t] assms by (auto simp: rbt_ok_def)
  then have "(2::nat) ^ height t \<le> (2 ^ bh t) ^ 2"
    by (metis mult.commute one_le_numeral power_increasing power_mult)
  also have "\<dots> \<le> (Suc (length (inorder t))) ^ 2"
    using bh_le_size assms by (intro power_mono) (auto simp: rbt_ok_def)
  finally show ?thesis .
qed

end
