(* ===== verification/Rbtree.thy ===== *)
theory Rbtree
  imports Rbtree_Spec
begin

text \<open>
  The pointer program of \<^verbatim>\<open>src/rbtree.c\<close> and \<^verbatim>\<open>src/rbtree.h\<close>: nodes are objects of a heap, the
  tree's \<open>root\<close> field is passed in and out of every operation that may store to it. Each C
  statement is one step of the option monad; a load or store through a pointer that addresses no
  node (\<open>NULL\<close> in particular) is \<^term>\<open>None\<close>, and so is a loop that does not end.

  \<open>rep\<close> relates a heap to a position in an abstract tree. The theory proves the rotations and
  \<open>rbtree_min\<close> correct with respect to it; insertion and deletion follow in their own theories.
\<close>

section \<open>Nodes, macros and rotations\<close>

record rbtree_node_s =
  rb_key :: u32
  rb_left :: addr
  rb_right :: addr
  rb_parent :: addr
  rb_color :: u8
  rb_data :: u8

type_synonym rbheap = "addr \<rightharpoonup> rbtree_node_s"

definition get :: "(rbtree_node_s \<Rightarrow> 'a) \<Rightarrow> rbheap \<Rightarrow> addr \<Rightarrow> 'a option" where
  "get f H p = map_option f (H p)"

definition put :: "(rbtree_node_s \<Rightarrow> rbtree_node_s) \<Rightarrow> rbheap \<Rightarrow> addr \<Rightarrow> rbheap option" where
  "put f H p = (case H p of None \<Rightarrow> None | Some n \<Rightarrow> Some (H(p \<mapsto> f n)))"

abbreviation set_key where "set_key v \<equiv> put (rb_key_update (\<lambda>_. v))"
abbreviation set_left where "set_left v \<equiv> put (rb_left_update (\<lambda>_. v))"
abbreviation set_right where "set_right v \<equiv> put (rb_right_update (\<lambda>_. v))"
abbreviation set_parent where "set_parent v \<equiv> put (rb_parent_update (\<lambda>_. v))"
abbreviation set_color where "set_color v \<equiv> put (rb_color_update (\<lambda>_. v))"

definition rbt_red :: "rbheap \<Rightarrow> addr \<Rightarrow> rbheap option" where
  "rbt_red H p = set_color 1 H p"

definition rbt_black :: "rbheap \<Rightarrow> addr \<Rightarrow> rbheap option" where
  "rbt_black H p = set_color 0 H p"

definition rbt_is_red :: "rbheap \<Rightarrow> addr \<Rightarrow> bool option" where
  "rbt_is_red H p = get (\<lambda>n. rb_color n \<noteq> 0) H p"

definition rbt_is_black :: "rbheap \<Rightarrow> addr \<Rightarrow> bool option" where
  "rbt_is_black H p = map_option Not (rbt_is_red H p)"

definition rbt_copy_color :: "rbheap \<Rightarrow> addr \<Rightarrow> addr \<Rightarrow> rbheap option" where
  "rbt_copy_color H n1 n2 = do { c \<leftarrow> get rb_color H n2; set_color c H n1 }"

definition rbtree_sentinel_init :: "rbheap \<Rightarrow> addr \<Rightarrow> rbheap option" where
  "rbtree_sentinel_init H s = rbt_black H s"

partial_function (option) rbtree_min :: "rbheap \<Rightarrow> addr \<Rightarrow> addr \<Rightarrow> addr option" where
  "rbtree_min H node sentinel =
     do { l \<leftarrow> get rb_left H node;
          if l \<noteq> sentinel then rbtree_min H l sentinel else Some node }"

text \<open>
  Two fragments the code writes out in several places: the child of a node gets a new parent
  unless it is the sentinel, and a node is replaced by \<open>temp\<close> in its parent (or as the root).
  \<open>replace_left\<close> tests the left link first, \<open>replace_right\<close> the right one.
\<close>

definition adopt :: "rbheap \<Rightarrow> addr \<Rightarrow> addr \<Rightarrow> addr \<Rightarrow> rbheap option" where
  "adopt H sentinel child node = (if child \<noteq> sentinel then set_parent node H child else Some H)"

definition replace_left :: "rbheap \<Rightarrow> addr \<Rightarrow> addr \<Rightarrow> addr \<Rightarrow> (rbheap \<times> addr) option" where
  "replace_left H root node temp =
     (if node = root then Some (H, temp)
      else do { np \<leftarrow> get rb_parent H node;
                npl \<leftarrow> get rb_left H np;
                H \<leftarrow> (if node = npl then set_left temp H np else set_right temp H np);
                Some (H, root) })"

definition replace_right :: "rbheap \<Rightarrow> addr \<Rightarrow> addr \<Rightarrow> addr \<Rightarrow> (rbheap \<times> addr) option" where
  "replace_right H root node temp =
     (if node = root then Some (H, temp)
      else do { np \<leftarrow> get rb_parent H node;
                npr \<leftarrow> get rb_right H np;
                H \<leftarrow> (if node = npr then set_right temp H np else set_left temp H np);
                Some (H, root) })"

definition rbtree_left_rotate :: "rbheap \<Rightarrow> addr \<Rightarrow> addr \<Rightarrow> addr \<Rightarrow> (rbheap \<times> addr) option" where
  "rbtree_left_rotate H root sentinel node =
     do { temp \<leftarrow> get rb_right H node;
          tl \<leftarrow> get rb_left H temp;
          H \<leftarrow> set_right tl H node;
          tl \<leftarrow> get rb_left H temp;
          H \<leftarrow> adopt H sentinel tl node;
          np \<leftarrow> get rb_parent H node;
          H \<leftarrow> set_parent np H temp;
          (H, root) \<leftarrow> replace_left H root node temp;
          H \<leftarrow> set_left node H temp;
          H \<leftarrow> set_parent temp H node;
          Some (H, root) }"

definition rbtree_right_rotate :: "rbheap \<Rightarrow> addr \<Rightarrow> addr \<Rightarrow> addr \<Rightarrow> (rbheap \<times> addr) option" where
  "rbtree_right_rotate H root sentinel node =
     do { temp \<leftarrow> get rb_left H node;
          tr \<leftarrow> get rb_right H temp;
          H \<leftarrow> set_left tr H node;
          tr \<leftarrow> get rb_right H temp;
          H \<leftarrow> adopt H sentinel tr node;
          np \<leftarrow> get rb_parent H node;
          H \<leftarrow> set_parent np H temp;
          (H, root) \<leftarrow> replace_right H root node temp;
          H \<leftarrow> set_right node H temp;
          H \<leftarrow> set_parent temp H node;
          Some (H, root) }"

section \<open>Representation\<close>

definition rp :: "addr \<Rightarrow> rtree \<Rightarrow> addr" where
  "rp s t = (case t of Leaf \<Rightarrow> s | Node c l a r \<Rightarrow> a)"

lemma rp_simps [simp]: "rp s Leaf = s" "rp s (Node c l a r) = a"
  by (simp_all add: rp_def)

lemma rp_neq [simp]:
  "a \<notin> set (inorder t) \<Longrightarrow> s \<noteq> a \<Longrightarrow> a \<noteq> rp s t"
  "a \<notin> set (inorder t) \<Longrightarrow> s \<noteq> a \<Longrightarrow> rp s t \<noteq> a"
  by (cases t; auto)+

fun faddr :: "frame \<Rightarrow> addr" where
  "faddr (LF c a r) = a"
| "faddr (RF c l a) = a"

text \<open>\<open>node_at\<close>: the node object at \<open>a\<close> has these links and this colour.\<close>

definition node_at :: "rbheap \<Rightarrow> addr \<Rightarrow> bool \<Rightarrow> addr \<Rightarrow> addr \<Rightarrow> addr \<Rightarrow> bool" where
  "node_at H a c l r q \<longleftrightarrow>
     (case H a of None \<Rightarrow> False
      | Some n \<Rightarrow> rb_left n = l \<and> rb_right n = r \<and> rb_parent n = q \<and> (rb_color n \<noteq> 0) = c)"

text \<open>\<open>tr H s q t\<close>: the subtree \<open>t\<close> is in the heap and its root's parent field is \<open>q\<close>.\<close>

fun tr :: "rbheap \<Rightarrow> addr \<Rightarrow> addr \<Rightarrow> rtree \<Rightarrow> bool" where
  "tr H s q Leaf = True"
| "tr H s q (Node c l a r) \<longleftrightarrow> node_at H a c (rp s l) (rp s r) q \<and> tr H s a l \<and> tr H s a r"

text \<open>
  \<open>cx H s rt k p q\<close>: the frames \<open>k\<close> are in the heap around a subtree whose root pointer is \<open>p\<close>
  and whose parent pointer is \<open>q\<close>; \<open>rt\<close> is the root pointer of the whole tree.
\<close>

fun cx :: "rbheap \<Rightarrow> addr \<Rightarrow> addr \<Rightarrow> frame list \<Rightarrow> addr \<Rightarrow> addr \<Rightarrow> bool" where
  "cx H s rt [] p q \<longleftrightarrow> p = rt"
| "cx H s rt (LF c a r # k) p q \<longleftrightarrow>
     q = a \<and> (\<exists>g. node_at H a c p (rp s r) g \<and> cx H s rt k a g) \<and> tr H s a r"
| "cx H s rt (RF c l a # k) p q \<longleftrightarrow>
     q = a \<and> (\<exists>g. node_at H a c (rp s l) p g \<and> cx H s rt k a g) \<and> tr H s a l"

definition black_at :: "rbheap \<Rightarrow> addr \<Rightarrow> bool" where
  "black_at H s \<longleftrightarrow> (case H s of None \<Rightarrow> False | Some n \<Rightarrow> rb_color n = 0)"

text \<open>The addresses of the frames.\<close>

definition kaddrs :: "frame list \<Rightarrow> addr set" where
  "kaddrs k = set (before k) \<union> set (after k)"

definition wf_pos :: "addr \<Rightarrow> frame list \<Rightarrow> rtree \<Rightarrow> bool" where
  "wf_pos s k t \<longleftrightarrow> distinct (s # inorder (plug k t))"

definition rep :: "rbheap \<Rightarrow> addr \<Rightarrow> addr \<Rightarrow> frame list \<Rightarrow> addr \<Rightarrow> rtree \<Rightarrow> bool" where
  "rep H s rt k q t \<longleftrightarrow> tr H s q t \<and> cx H s rt k (rp s t) q \<and> black_at H s \<and> wf_pos s k t"

section \<open>Frame lemmas\<close>

text \<open>The position predicates depend only on the nodes they are about.\<close>

definition kdist :: "frame list \<Rightarrow> bool" where
  "kdist k \<longleftrightarrow> distinct (before k @ after k)"

lemma kaddrs_simps [simp]:
  "kaddrs [] = {}"
  "kaddrs (LF c a r # k) = insert a (set (inorder r) \<union> kaddrs k)"
  "kaddrs (RF c l a # k) = insert a (set (inorder l) \<union> kaddrs k)"
  by (auto simp: kaddrs_def)

lemma kdist_simps [simp]:
  "kdist []"
  "kdist (LF c a r # k) \<longleftrightarrow> a \<notin> set (inorder r) \<and> a \<notin> kaddrs k \<and> distinct (inorder r) \<and>
     set (inorder r) \<inter> kaddrs k = {} \<and> kdist k"
  "kdist (RF c l a # k) \<longleftrightarrow> a \<notin> set (inorder l) \<and> a \<notin> kaddrs k \<and> distinct (inorder l) \<and>
     set (inorder l) \<inter> kaddrs k = {} \<and> kdist k"
  by (auto simp: kdist_def kaddrs_def)

lemma wf_pos_iff:
  "wf_pos s k t \<longleftrightarrow> s \<notin> set (inorder t) \<and> s \<notin> kaddrs k \<and> distinct (inorder t) \<and> kdist k \<and>
     set (inorder t) \<inter> kaddrs k = {}"
  by (auto simp: wf_pos_def inorder_plug kaddrs_def kdist_def)

lemma node_at_upd [simp]: "b \<noteq> a \<Longrightarrow> node_at (H(b \<mapsto> n)) a c l r q = node_at H a c l r q"
  by (simp add: node_at_def)

lemma node_at_upd_same [simp]:
  "node_at (H(a \<mapsto> n)) a c l r q \<longleftrightarrow>
     rb_left n = l \<and> rb_right n = r \<and> rb_parent n = q \<and> (rb_color n \<noteq> 0) = c"
  by (simp add: node_at_def)

lemma black_at_upd [simp]: "a \<noteq> s \<Longrightarrow> black_at (H(a \<mapsto> n)) s = black_at H s"
  by (simp add: black_at_def)

lemma tr_upd [simp]: "a \<notin> set (inorder t) \<Longrightarrow> tr (H(a \<mapsto> n)) s q t = tr H s q t"
  by (induction t arbitrary: q) auto

lemma node_at_cong: "H' a = H a \<Longrightarrow> node_at H' a c l r q = node_at H a c l r q"
  by (simp add: node_at_def)

lemma tr_cong: "\<forall>x\<in>set (inorder t). H' x = H x \<Longrightarrow> tr H' s q t = tr H s q t"
  by (induction t arbitrary: q) (auto simp: node_at_cong [of H' _ H])

lemma cx_cong: "\<forall>x\<in>kaddrs k. H' x = H x \<Longrightarrow> cx H' s rt k p q = cx H s rt k p q"
proof (induction k arbitrary: p q)
  case (Cons f k)
  then show ?case
    by (cases f) (simp_all add: node_at_cong [of H' _ H] tr_cong [of _ H' H])
qed simp

lemma cx_upd [simp]: "a \<notin> kaddrs k \<Longrightarrow> cx (H(a \<mapsto> n)) s rt k p q = cx H s rt k p q"
  by (rule cx_cong) auto

lemma node_atE:
  assumes "node_at H a c l r q"
  obtains n where "H a = Some n" "rb_left n = l" "rb_right n = r" "rb_parent n = q"
    "(rb_color n \<noteq> 0) = c"
  using assms by (auto simp: node_at_def split: option.splits)

text \<open>Moving the focus of a position one level up.\<close>

lemma rep_up_LF: "rep H s rt (LF c a r # k) q t \<longleftrightarrow> q = a \<and> (\<exists>g. rep H s rt k g (Node c t a r))"
  by (auto simp: rep_def wf_pos_def)

lemma rep_up_RF: "rep H s rt (RF c l a # k) q t \<longleftrightarrow> q = a \<and> (\<exists>g. rep H s rt k g (Node c l a t))"
  by (auto simp: rep_def wf_pos_def)

lemma rep_plug: "rep H s rt k q t \<Longrightarrow> \<exists>q'. rep H s rt [] q' (plug k t)"
proof (induction k arbitrary: q t)
  case (Cons f k)
  then show ?case by (cases f) (auto simp: rep_up_LF rep_up_RF)
qed auto

lemma rep_unplug: "rep H s rt [] q (plug k t) \<Longrightarrow> \<exists>q'. rep H s rt k q' t"
proof (induction k arbitrary: t)
  case (Cons f k)
  then show ?case by (cases f) (auto simp: rep_up_LF rep_up_RF)
qed auto

text \<open>
  \<open>keeps X H H'\<close>: between the two heaps only nodes of \<open>X\<close> were stored to, and no key or data byte
  changed.
\<close>

definition kd :: "rbheap \<Rightarrow> addr \<Rightarrow> (u32 \<times> u8) option" where
  "kd H a = get (\<lambda>n. (rb_key n, rb_data n)) H a"

definition keeps :: "addr set \<Rightarrow> rbheap \<Rightarrow> rbheap \<Rightarrow> bool" where
  "keeps X H H' \<longleftrightarrow> (\<forall>x. x \<notin> X \<longrightarrow> H' x = H x) \<and> kd H' = kd H"

lemma keeps_refl [simp]: "keeps X H H"
  by (simp add: keeps_def)

lemma keeps_trans: "keeps X H H1 \<Longrightarrow> keeps X H1 H2 \<Longrightarrow> keeps X H H2"
  by (simp add: keeps_def)

lemma keeps_mono: "keeps X H H' \<Longrightarrow> X \<subseteq> Y \<Longrightarrow> keeps Y H H'"
  by (auto simp: keeps_def)

lemma kd_upd: "H a = Some n \<Longrightarrow> rb_key n' = rb_key n \<Longrightarrow> rb_data n' = rb_data n \<Longrightarrow> kd (H(a \<mapsto> n')) = kd H"
  by (auto simp: kd_def get_def fun_eq_iff)

lemma keeps_put:
  assumes "H a = Some n" "rb_key n' = rb_key n" "rb_data n' = rb_data n" "a \<in> X"
  shows "keeps X H (H(a \<mapsto> n'))"
  using assms by (auto simp: keeps_def kd_upd)

lemma keeps_upd:
  assumes "keeps X H0 H" "H a = Some n" "rb_key n' = rb_key n" "rb_data n' = rb_data n" "a \<in> X"
  shows "keeps X H0 (H(a \<mapsto> n'))"
  using assms by (auto simp: keeps_def kd_upd)

lemma keeps_kd:
  assumes "keeps X H0 H" "kd H a = Some (rb_key n', rb_data n')" "a \<in> X"
  shows "keeps X H0 (H(a \<mapsto> n'))"
  using assms keeps_upd [OF assms(1)] by (auto simp: kd_def get_def)

abbreviation taddrs :: "frame list \<Rightarrow> rtree \<Rightarrow> addr set" where
  "taddrs k t \<equiv> set (inorder (plug k t))"

lemma taddrs_iff [simp]: "x \<in> taddrs k t \<longleftrightarrow> x \<in> set (inorder t) \<or> x \<in> kaddrs k"
  by (auto simp: inorder_plug kaddrs_def)

text \<open>The root pointer is the outermost frame's address.\<close>

lemma cx_root: "cx H s rt (f # k) p q \<Longrightarrow> rt \<in> kaddrs (f # k)"
proof (induction k arbitrary: f p q)
  case Nil
  then show ?case by (cases f) auto
next
  case (Cons f' k)
  then show ?case by (cases f) fastforce+
qed

lemma kcases:
  obtains "k = []" | c a r k' where "k = LF c a r # k'" | c l a k' where "k = RF c l a # k'"
  by (metis frame.exhaust neq_Nil_conv)

section \<open>Rotations\<close>

lemma node_at_iff: "node_at H a c l r q \<longleftrightarrow> (\<exists>n. H a = Some n \<and> rb_left n = l \<and> rb_right n = r \<and>
    rb_parent n = q \<and> (rb_color n \<noteq> 0) = c)"
  by (auto simp: node_at_def split: option.splits)

lemma rep_move:
  "wf_pos s k t \<Longrightarrow> inorder t' = inorder t \<Longrightarrow> tr H s q t' \<Longrightarrow> cx H s rt k (rp s t') q \<Longrightarrow>
    black_at H s \<Longrightarrow> rep H s rt k q t'"
  by (simp add: rep_def wf_pos_def inorder_plug)

lemma adopt_tr:
  assumes "tr H s q t" "distinct (s # inorder t)"
  shows "\<exists>H'. adopt H s (rp s t) q' = Some H' \<and> tr H' s q' t \<and> keeps (set (inorder t)) H H'"
proof (cases t)
  case (Node c l a r)
  with assms show ?thesis
    by (auto simp: adopt_def put_def node_at_iff intro!: keeps_upd keeps_refl)
qed (simp add: adopt_def)

lemma replace_cx:
  assumes "cx H s rt k a q" "kdist k" "a \<notin> kaddrs k" "s \<notin> kaddrs k" "s \<noteq> a" "get rb_parent H a = Some q"
  shows "\<exists>H' rt'. replace_left H rt a b = Some (H', rt') \<and> cx H' s rt' k b q \<and> keeps (kaddrs k) H H'"
    and "\<exists>H' rt'. replace_right H rt a b = Some (H', rt') \<and> cx H' s rt' k b q \<and> keeps (kaddrs k) H H'"
proof -
  have rt: "k \<noteq> [] \<Longrightarrow> a \<noteq> rt"
    using assms cx_root by (cases k) auto
  show "\<exists>H' rt'. replace_left H rt a b = Some (H', rt') \<and> cx H' s rt' k b q \<and> keeps (kaddrs k) H H'"
    using assms rt by (cases k rule: kcases)
      (auto simp: replace_left_def get_def put_def node_at_iff intro!: keeps_upd keeps_refl)
  show "\<exists>H' rt'. replace_right H rt a b = Some (H', rt') \<and> cx H' s rt' k b q \<and> keeps (kaddrs k) H H'"
    using assms rt by (cases k rule: kcases)
      (auto simp: replace_right_def get_def put_def node_at_iff intro!: keeps_upd keeps_refl)
qed

lemma keepsD: "keeps X H H' \<Longrightarrow> x \<notin> X \<Longrightarrow> H' x = H x"
  by (simp add: keeps_def)

lemma keeps_tr: "keeps X H H' \<Longrightarrow> set (inorder t) \<inter> X = {} \<Longrightarrow> tr H' s q t = tr H s q t"
  by (rule tr_cong) (auto simp: keeps_def)

lemma keeps_cx: "keeps X H H' \<Longrightarrow> kaddrs k \<inter> X = {} \<Longrightarrow> cx H' s rt k p q = cx H s rt k p q"
  by (rule cx_cong) (auto simp: keeps_def)

lemma keeps_black: "keeps X H H' \<Longrightarrow> s \<notin> X \<Longrightarrow> black_at H' s = black_at H s"
  by (simp add: keeps_def black_at_def)

text \<open>
  The common middle of the two rotations of \<open>a\<close> below \<open>b\<close>: the subtree between them is adopted by
  \<open>a\<close>, and \<open>b\<close> takes the place of \<open>a\<close> in the context.
\<close>

lemma rotate_mid:
  assumes R: "R = replace_left \<or> R = replace_right"
    and n: "H a = Some na" "H b = Some nb" "rb_parent na' = q"
      "rb_key na' = rb_key na" "rb_data na' = rb_data na"
      "rb_key nb' = rb_key nb" "rb_data nb' = rb_data nb"
    and t: "tr H s b m" "cx H s rt k a q"
    and d: "a \<noteq> b" "s \<noteq> a" "distinct (s # a # b # inorder m)" "kdist k"
      "insert s (insert a (insert b (set (inorder m)))) \<inter> kaddrs k = {}"
  obtains H2 H4 rt' where "adopt (H(a \<mapsto> na')) s (rp s m) a = Some H2" "H2 a = Some na'" "H2 b = Some nb"
    "R (H2(b \<mapsto> nb')) rt a b = Some (H4, rt')" "H4 a = Some na'" "H4 b = Some nb'"
    "cx H4 s rt' k b q" "tr H4 s a m" "keeps (insert a (insert b (set (inorder m) \<union> kaddrs k))) H H4"
proof -
  let ?X = "insert a (insert b (set (inorder m) \<union> kaddrs k))"
  let ?H1 = "H(a \<mapsto> na')"
  have "tr ?H1 s b m" "distinct (s # inorder m)" using t d by auto
  from adopt_tr [OF this] obtain H2 where H2: "adopt ?H1 s (rp s m) a = Some H2" "tr H2 s a m"
    "keeps (set (inorder m)) ?H1 H2" by blast
  have ab2: "H2 a = Some na'" "H2 b = Some nb" using d n keepsD [OF H2(3)] by auto
  let ?H3 = "H2(b \<mapsto> nb')"
  have "cx ?H3 s rt k a q" using t d keeps_cx [OF H2(3)] by (simp add: Int_commute)
  moreover have "get rb_parent ?H3 a = Some q" using ab2 d n by (simp add: get_def)
  ultimately obtain H4 rt' where H4: "R ?H3 rt a b = Some (H4, rt')" "cx H4 s rt' k b q"
    "keeps (kaddrs k) ?H3 H4" using replace_cx [of ?H3 s rt k a q b] d R by auto
  have ab4: "H4 a = Some na'" "H4 b = Some nb'" using d ab2 keepsD [OF H4(3)] by auto
  have "tr H4 s a m" using H2(2) d keeps_tr [OF H4(3)] by auto
  moreover have "keeps ?X H ?H1" using n by (auto intro: keeps_upd)
  moreover have "keeps ?X ?H1 H2" "keeps ?X ?H3 H4" using H2(3) H4(3) by (auto elim: keeps_mono)
  moreover have "keeps ?X H2 ?H3" using ab2 n by (auto intro: keeps_upd)
  ultimately show thesis using that H2(1) H4 ab2 ab4 by (meson keeps_trans)
qed

lemma left_rotate:
  assumes "rep H s rt k q (Node c l a (Node c' m b r))"
  obtains H' rt' where "rbtree_left_rotate H rt s a = Some (H', rt')"
    "rep H' s rt' k q (Node c' (Node c l a m) b r)"
    "keeps (taddrs k (Node c l a (Node c' m b r))) H H'"
proof -
  let ?X = "taddrs k (Node c l a (Node c' m b r))"
  have w: "wf_pos s k (Node c l a (Node c' m b r))" and bl: "black_at H s" and c: "cx H s rt k a q"
    and t: "tr H s a l" "tr H s b m" "tr H s b r"
    using assms by (auto simp: rep_def)
  obtain na nb where n: "H a = Some na" "H b = Some nb"
    "rb_left na = rp s l" "rb_right na = b" "rb_parent na = q" "(rb_color na \<noteq> 0) = c"
    "rb_left nb = rp s m" "rb_right nb = rp s r" "rb_parent nb = a" "(rb_color nb \<noteq> 0) = c'"
    using assms by (auto simp: node_at_iff rep_def)
  note d = w [unfolded wf_pos_iff, simplified, unfolded Int_Un_distrib Int_Un_distrib2 Un_empty]
  let ?na = "na\<lparr>rb_right := rp s m\<rparr>" and ?nb = "nb\<lparr>rb_parent := q\<rparr>"
  obtain H2 H4 rt' where H: "adopt (H(a \<mapsto> ?na)) s (rp s m) a = Some H2" "H2 a = Some ?na" "H2 b = Some nb"
    "replace_left (H2(b \<mapsto> ?nb)) rt a b = Some (H4, rt')" "H4 a = Some ?na" "H4 b = Some ?nb"
    "cx H4 s rt' k b q" "tr H4 s a m" "keeps (insert a (insert b (set (inorder m) \<union> kaddrs k))) H H4"
    by (rule rotate_mid [of replace_left H a na b nb ?na q ?nb s m rt k]) (use n t c d in auto)
  let ?H = "H4(b \<mapsto> ?nb\<lparr>rb_left := a\<rparr>, a \<mapsto> ?na\<lparr>rb_parent := b\<rparr>)"
  have tr: "tr H4 s a l" "tr H4 s b r" "black_at H4 s"
    using t bl d keeps_tr [OF H(9)] keeps_black [OF H(9)]
    by (auto simp: Int_Un_distrib Int_commute)
  have "rbtree_left_rotate H rt s a = Some (?H, rt')"
    using n d H by (simp add: rbtree_left_rotate_def get_def put_def)
  moreover have "rep ?H s rt' k q (Node c' (Node c l a m) b r)"
    by (rule rep_move [OF w]) (use tr H d n in \<open>auto\<close>)
  moreover have "keeps ?X H ?H"
    by (rule keeps_kd keeps_mono [OF H(9)])+ (use H d in \<open>auto simp: kd_def get_def\<close>)
  ultimately show thesis by (rule that)
qed
lemma right_rotate:
  assumes "rep H s rt k q (Node c (Node c' r b m) a l)"
  obtains H' rt' where "rbtree_right_rotate H rt s a = Some (H', rt')"
    "rep H' s rt' k q (Node c' r b (Node c m a l))"
    "keeps (taddrs k (Node c (Node c' r b m) a l)) H H'"
proof -
  let ?X = "taddrs k (Node c (Node c' r b m) a l)"
  have w: "wf_pos s k (Node c (Node c' r b m) a l)" and bl: "black_at H s" and c: "cx H s rt k a q"
    and t: "tr H s a l" "tr H s b m" "tr H s b r"
    using assms by (auto simp: rep_def)
  obtain na nb where n: "H a = Some na" "H b = Some nb"
    "rb_right na = rp s l" "rb_left na = b" "rb_parent na = q" "(rb_color na \<noteq> 0) = c"
    "rb_right nb = rp s m" "rb_left nb = rp s r" "rb_parent nb = a" "(rb_color nb \<noteq> 0) = c'"
    using assms by (auto simp: node_at_iff rep_def)
  note d = w [unfolded wf_pos_iff, simplified, unfolded Int_Un_distrib Int_Un_distrib2 Un_empty]
  let ?na = "na\<lparr>rb_left := rp s m\<rparr>" and ?nb = "nb\<lparr>rb_parent := q\<rparr>"
  obtain H2 H4 rt' where H: "adopt (H(a \<mapsto> ?na)) s (rp s m) a = Some H2" "H2 a = Some ?na" "H2 b = Some nb"
    "replace_right (H2(b \<mapsto> ?nb)) rt a b = Some (H4, rt')" "H4 a = Some ?na" "H4 b = Some ?nb"
    "cx H4 s rt' k b q" "tr H4 s a m" "keeps (insert a (insert b (set (inorder m) \<union> kaddrs k))) H H4"
    by (rule rotate_mid [of replace_right H a na b nb ?na q ?nb s m rt k]) (use n t c d in auto)
  let ?H = "H4(b \<mapsto> ?nb\<lparr>rb_right := a\<rparr>, a \<mapsto> ?na\<lparr>rb_parent := b\<rparr>)"
  have tr: "tr H4 s a l" "tr H4 s b r" "black_at H4 s"
    using t bl d keeps_tr [OF H(9)] keeps_black [OF H(9)]
    by (auto simp: Int_Un_distrib Int_commute)
  have "rbtree_right_rotate H rt s a = Some (?H, rt')"
    using n d H by (simp add: rbtree_right_rotate_def get_def put_def)
  moreover have "rep ?H s rt' k q (Node c' r b (Node c m a l))"
    by (rule rep_move [OF w]) (use tr H d n in \<open>auto\<close>)
  moreover have "keeps ?X H ?H"
    by (rule keeps_kd keeps_mono [OF H(9)])+ (use H d in \<open>auto simp: kd_def get_def\<close>)
  ultimately show thesis by (rule that)
qed

section \<open>Colour changes\<close>

lemma is_red_rp: "tr H s q t \<Longrightarrow> black_at H s \<Longrightarrow> rbt_is_red H (rp s t) = Some (red t)"
  by (cases t) (auto simp: rbt_is_red_def get_def black_at_def node_at_iff split: option.splits)

fun recol :: "bool \<Rightarrow> addr \<Rightarrow> rtree \<Rightarrow> rtree" where
  "recol v a Leaf = Leaf"
| "recol v a (Node c l x r) = Node (if x = a then v else c) (recol v a l) x (recol v a r)"

lemma recol_id [simp]: "a \<notin> set (inorder t) \<Longrightarrow> recol v a t = t"
  by (induction t) auto

lemma rp_recol [simp]: "rp s (recol v a t) = rp s t"
  by (cases t) auto

lemma inorder_recol [simp]: "inorder (recol v a t) = inorder t"
  by (induction t) auto

lemma tr_recol:
  assumes "H a = Some n"
  shows "tr H s q t \<Longrightarrow> tr (H(a \<mapsto> n\<lparr>rb_color := w\<rparr>)) s q (recol (w \<noteq> 0) a t)"
  using assms by (induction t arbitrary: q) (auto simp: node_at_iff)

lemma recolor_rep:
  assumes "rep H s rt k q t" "H a = Some n" "a \<in> set (inorder t)"
  shows "rep (H(a \<mapsto> n\<lparr>rb_color := w\<rparr>)) s rt k q (recol (w \<noteq> 0) a t)"
proof -
  have w: "wf_pos s k t" using assms by (simp add: rep_def)
  then have "a \<notin> kaddrs k" "a \<noteq> s" using assms(3) by (auto simp: wf_pos_iff)
  then show ?thesis
    by (intro rep_move [OF w]) (use assms in \<open>auto simp: rep_def intro: tr_recol\<close>)
qed

end
