(* ===== verification/Rbtree_Insert.thy ===== *)
theory Rbtree_Insert
  imports Rbtree
begin

text \<open>
  Insertion into the red-black tree of \<^verbatim>\<open>src/rbtree.c\<close>: the two descent functions, the rebalancing
  loop and \<open>rbtree_insert\<close>, with the proof that the pointer program computes the abstract
  insertion of \<open>Rbtree_Spec\<close>, always terminates and never dereferences a bad pointer.
\<close>

section \<open>The program\<close>

record rbtree_s =
  rbt_root :: addr
  rbt_sentinel :: addr
  rbt_insert :: "rbheap \<Rightarrow> addr \<Rightarrow> addr \<Rightarrow> addr \<Rightarrow> rbheap option"

definition rbtree_init ::
  "rbheap \<Rightarrow> addr \<Rightarrow> (rbheap \<Rightarrow> addr \<Rightarrow> addr \<Rightarrow> addr \<Rightarrow> rbheap option) \<Rightarrow> (rbheap \<times> rbtree_s) option"
where
  "rbtree_init H s i =
     do { H \<leftarrow> rbtree_sentinel_init H s; Some (H, \<lparr>rbt_root = s, rbt_sentinel = s, rbt_insert = i\<rparr>) }"

text \<open>
  The descent of the two insertion functions, which differ in the comparison only: the node below
  which the new node goes, and whether to its left.
\<close>

partial_function (option) insert_descend ::
  "(u32 \<Rightarrow> u32 \<Rightarrow> bool) \<Rightarrow> rbheap \<Rightarrow> addr \<Rightarrow> addr \<Rightarrow> addr \<Rightarrow> (addr \<times> bool) option" where
  "insert_descend lt H temp node sentinel =
     do { nk \<leftarrow> get rb_key H node;
          tk \<leftarrow> get rb_key H temp;
          p \<leftarrow> (if lt nk tk then get rb_left H temp else get rb_right H temp);
          if p = sentinel then Some (temp, lt nk tk)
          else insert_descend lt H p node sentinel }"

definition insert_below ::
  "(u32 \<Rightarrow> u32 \<Rightarrow> bool) \<Rightarrow> rbheap \<Rightarrow> addr \<Rightarrow> addr \<Rightarrow> addr \<Rightarrow> rbheap option" where
  "insert_below lt H temp node sentinel =
     do { (temp, left) \<leftarrow> insert_descend lt H temp node sentinel;
          H \<leftarrow> (if left then set_left node H temp else set_right node H temp);
          H \<leftarrow> set_parent temp H node;
          H \<leftarrow> set_left sentinel H node;
          H \<leftarrow> set_right sentinel H node;
          rbt_red H node }"

definition key_less :: "u32 \<Rightarrow> u32 \<Rightarrow> bool" where
  "key_less a b \<longleftrightarrow> a < b"

text \<open>The comparison of timer keys: \<open>(rbtree_key_int_t) (node->key - temp->key) < 0\<close>.\<close>

definition timer_less :: "u32 \<Rightarrow> u32 \<Rightarrow> bool" where
  "timer_less a b \<longleftrightarrow> sint (a - b) < 0"

definition rbtree_insert_value :: "rbheap \<Rightarrow> addr \<Rightarrow> addr \<Rightarrow> addr \<Rightarrow> rbheap option" where
  "rbtree_insert_value = insert_below key_less"

definition rbtree_insert_timer_value :: "rbheap \<Rightarrow> addr \<Rightarrow> addr \<Rightarrow> addr \<Rightarrow> rbheap option" where
  "rbtree_insert_timer_value = insert_below timer_less"

abbreviation par :: "rbheap \<Rightarrow> addr \<Rightarrow> addr option" where
  "par H n \<equiv> get rb_parent H n"

abbreviation gpar :: "rbheap \<Rightarrow> addr \<Rightarrow> addr option" where
  "gpar H n \<equiv> do { p \<leftarrow> par H n; par H p }"

definition recolor_rotate ::
  "(rbheap \<Rightarrow> addr \<Rightarrow> addr \<Rightarrow> addr \<Rightarrow> (rbheap \<times> addr) option) \<Rightarrow>
   rbheap \<Rightarrow> addr \<Rightarrow> addr \<Rightarrow> addr \<Rightarrow> (rbheap \<times> addr \<times> addr) option" where
  "recolor_rotate rot H root sentinel node =
     do { p \<leftarrow> par H node; H \<leftarrow> rbt_black H p;
          g \<leftarrow> gpar H node; H \<leftarrow> rbt_red H g;
          g \<leftarrow> gpar H node; (H, root) \<leftarrow> rot H root sentinel g;
          Some (H, root, node) }"

definition recolor_up :: "rbheap \<Rightarrow> addr \<Rightarrow> addr \<Rightarrow> addr \<Rightarrow> (rbheap \<times> addr \<times> addr) option" where
  "recolor_up H root node temp =
     do { p \<leftarrow> par H node; H \<leftarrow> rbt_black H p;
          H \<leftarrow> rbt_black H temp;
          g \<leftarrow> gpar H node; H \<leftarrow> rbt_red H g;
          g \<leftarrow> gpar H node; Some (H, root, g) }"

text \<open>One round of the rebalancing loop: the heap, the root and the new \<open>node\<close>.\<close>

definition insert_round :: "rbheap \<Rightarrow> addr \<Rightarrow> addr \<Rightarrow> addr \<Rightarrow> (rbheap \<times> addr \<times> addr) option" where
  "insert_round H root sentinel node =
     do { p \<leftarrow> par H node; g \<leftarrow> gpar H node; gl \<leftarrow> get rb_left H g;
          if p = gl
          then do { temp \<leftarrow> get rb_right H g;
                    tred \<leftarrow> rbt_is_red H temp;
                    if tred then recolor_up H root node temp
                    else do {
                      pr \<leftarrow> get rb_right H p;
                      (H, root, node) \<leftarrow>
                        (if node = pr
                         then do { (H, root) \<leftarrow> rbtree_left_rotate H root sentinel p; Some (H, root, p) }
                         else Some (H, root, node));
                      recolor_rotate rbtree_right_rotate H root sentinel node } }
          else do { temp \<leftarrow> get rb_left H g;
                    tred \<leftarrow> rbt_is_red H temp;
                    if tred then recolor_up H root node temp
                    else do {
                      pl \<leftarrow> get rb_left H p;
                      (H, root, node) \<leftarrow>
                        (if node = pl
                         then do { (H, root) \<leftarrow> rbtree_right_rotate H root sentinel p; Some (H, root, p) }
                         else Some (H, root, node));
                      recolor_rotate rbtree_left_rotate H root sentinel node } } }"

partial_function (option) insert_fixup :: "rbheap \<Rightarrow> addr \<Rightarrow> addr \<Rightarrow> addr \<Rightarrow> (rbheap \<times> addr) option" where
  "insert_fixup H root sentinel node =
     (if node = root then Some (H, root)
      else do { p \<leftarrow> par H node; pred \<leftarrow> rbt_is_red H p;
                if pred
                then do { (H, root, node) \<leftarrow> insert_round H root sentinel node;
                          insert_fixup H root sentinel node }
                else Some (H, root) })"

definition rbtree_insert :: "rbheap \<Rightarrow> rbtree_s \<Rightarrow> addr \<Rightarrow> (rbheap \<times> rbtree_s) option" where
  "rbtree_insert H tree node =
     (if rbt_root tree = rbt_sentinel tree
      then do { H \<leftarrow> set_parent 0 H node;
                H \<leftarrow> set_left (rbt_sentinel tree) H node;
                H \<leftarrow> set_right (rbt_sentinel tree) H node;
                H \<leftarrow> rbt_black H node;
                Some (H, tree\<lparr>rbt_root := node\<rparr>) }
      else do { H \<leftarrow> rbt_insert tree H (rbt_root tree) node (rbt_sentinel tree);
                (H, r) \<leftarrow> insert_fixup H (rbt_root tree) (rbt_sentinel tree) node;
                H \<leftarrow> rbt_black H r;
                Some (H, tree\<lparr>rbt_root := r\<rparr>) })"

section \<open>One round\<close>

lemma rot_outer_LL:
  assumes "rep H s rt (LF True p sb # LF cg g u # k) q t" "t = Node ct x1 x x2"
  obtains H' rt' where "recolor_rotate rbtree_right_rotate H rt s x = Some (H', rt', x)"
    "rep H' s rt' (LF False p (Node True sb g u) # k) p t"
    "keeps (taddrs (LF True p sb # LF cg g u # k) t) H H'"
proof -
  let ?T = "Node cg (Node True t p sb) g u" and ?X = "taddrs (LF True p sb # LF cg g u # k) t"
  obtain g0 where r: "rep H s rt k g0 ?T"
    using assms by (auto simp: rep_up_LF)
  then have w: "wf_pos s k ?T" and bl: "black_at H s" and c: "cx H s rt k g g0" by (auto simp: rep_def)
  note d = w [unfolded wf_pos_iff, simplified, unfolded Int_Un_distrib Int_Un_distrib2 Un_empty]
  obtain np ng nx where n: "H p = Some np" "H g = Some ng" "H x = Some nx"
    "rb_left np = x" "rb_right np = rp s sb" "rb_parent np = g"
    "rb_left ng = p" "rb_right ng = rp s u" "rb_parent ng = g0" "rb_parent nx = p"
    and t: "tr H s p t" "tr H s p sb" "tr H s g u"
    using r assms(2) by (auto simp: node_at_iff rep_def)
  let ?H = "H(p \<mapsto> np\<lparr>rb_color := 0\<rparr>, g \<mapsto> ng\<lparr>rb_color := 1\<rparr>)"
  have "rep ?H s rt k g0 (Node True (Node False t p sb) g u)"
    by (rule rep_move [OF w]) (use t n d c bl assms(2) in auto)
  from right_rotate [OF this] obtain H' rt' where H': "rbtree_right_rotate ?H rt s g = Some (H', rt')"
    "rep H' s rt' k g0 (Node False t p (Node True sb g u))"
    "keeps (taddrs k (Node True (Node False t p sb) g u)) ?H H'" by blast
  have "keeps ?X H ?H" by (rule keeps_kd keeps_refl)+ (use n d in \<open>auto simp: kd_def get_def\<close>)
  then have "keeps ?X H H'" by (rule keeps_trans) (use H'(3) in \<open>simp add: inorder_plug\<close>)
  moreover have "recolor_rotate rbtree_right_rotate H rt s x = Some (H', rt', x)"
    using n d H'(1) assms(2) by (auto simp: recolor_rotate_def get_def put_def rbt_black_def rbt_red_def)
  ultimately show thesis using that H'(2) by (auto simp: rep_up_LF)
qed
lemma rot_outer_RR:
  assumes "rep H s rt (RF True sb p # RF cg u g # k) q t" "t = Node ct x1 x x2"
  obtains H' rt' where "recolor_rotate rbtree_left_rotate H rt s x = Some (H', rt', x)"
    "rep H' s rt' (RF False (Node True u g sb) p # k) p t"
    "keeps (taddrs (RF True sb p # RF cg u g # k) t) H H'"
proof -
  let ?T = "Node cg u g (Node True sb p t)" and ?X = "taddrs (RF True sb p # RF cg u g # k) t"
  obtain g0 where r: "rep H s rt k g0 ?T"
    using assms by (auto simp: rep_up_RF)
  then have w: "wf_pos s k ?T" and bl: "black_at H s" and c: "cx H s rt k g g0" by (auto simp: rep_def)
  note d = w [unfolded wf_pos_iff, simplified, unfolded Int_Un_distrib Int_Un_distrib2 Un_empty]
  obtain np ng nx where n: "H p = Some np" "H g = Some ng" "H x = Some nx"
    "rb_right np = x" "rb_left np = rp s sb" "rb_parent np = g"
    "rb_right ng = p" "rb_left ng = rp s u" "rb_parent ng = g0" "rb_parent nx = p"
    and t: "tr H s p t" "tr H s p sb" "tr H s g u"
    using r assms(2) by (auto simp: node_at_iff rep_def)
  let ?H = "H(p \<mapsto> np\<lparr>rb_color := 0\<rparr>, g \<mapsto> ng\<lparr>rb_color := 1\<rparr>)"
  have "rep ?H s rt k g0 (Node True u g (Node False sb p t))"
    by (rule rep_move [OF w]) (use t n d c bl assms(2) in auto)
  from left_rotate [OF this] obtain H' rt' where H': "rbtree_left_rotate ?H rt s g = Some (H', rt')"
    "rep H' s rt' k g0 (Node False (Node True u g sb) p t)"
    "keeps (taddrs k (Node True u g (Node False sb p t))) ?H H'" by blast
  have "keeps ?X H ?H" by (rule keeps_kd keeps_refl)+ (use n d in \<open>auto simp: kd_def get_def\<close>)
  then have "keeps ?X H H'" by (rule keeps_trans) (use H'(3) in \<open>simp add: inorder_plug\<close>)
  moreover have "recolor_rotate rbtree_left_rotate H rt s x = Some (H', rt', x)"
    using n d H'(1) assms(2) by (auto simp: recolor_rotate_def get_def put_def rbt_black_def rbt_red_def)
  ultimately show thesis using that H'(2) by (auto simp: rep_up_RF)
qed

lemma recolor_up_rep:
  assumes r: "rep H s rt k q T" and in_T: "p \<in> set (inorder T)" "g \<in> set (inorder T)" "ua \<in> set (inorder T)"
    and n: "H p = Some np" "H g = Some ng" "H x = Some nx" "H ua = Some nu"
      "rb_parent np = g" "rb_parent nx = p"
    and d: "p \<noteq> g" "x \<noteq> p" "x \<noteq> g" "ua \<noteq> p" "ua \<noteq> g" "ua \<noteq> x"
  obtains H' where "recolor_up H rt x ua = Some (H', rt, g)"
    "rep H' s rt k q (recol True g (recol False ua (recol False p T)))" "keeps (taddrs k T) H H'"
proof -
  let ?H = "H(p \<mapsto> np\<lparr>rb_color := 0\<rparr>, ua \<mapsto> nu\<lparr>rb_color := 0\<rparr>, g \<mapsto> ng\<lparr>rb_color := 1\<rparr>)"
  have "rep ?H s rt k q (recol True g (recol False ua (recol False p T)))"
    using recolor_rep [OF recolor_rep [OF recolor_rep [OF r n(1), of 0], of ua nu 0], of g ng 1] n d in_T
    by simp
  moreover have "keeps (taddrs k T) H ?H"
    by (rule keeps_kd keeps_refl)+ (use n d in_T in \<open>auto simp: kd_def get_def\<close>)
  moreover have "recolor_up H rt x ua = Some (?H, rt, g)"
    using n d by (simp add: recolor_up_def get_def put_def rbt_black_def rbt_red_def)
  ultimately show thesis using that by blast
qed

lemma round_LL:
  assumes "rep H s rt (LF True p sb # LF cg g u # k) q (Node ct x1 x x2)"
    and "ins_round (LF True p sb # LF cg g u # k) (Node ct x1 x x2) = (k', t')"
  shows "\<exists>H' rt' q'. insert_round H rt s x = Some (H', rt', rp s t') \<and> rep H' s rt' k' q' t' \<and>
     keeps (taddrs (LF True p sb # LF cg g u # k) (Node ct x1 x x2)) H H'"
proof -
  let ?T = "Node cg (Node True (Node ct x1 x x2) p sb) g u"
  obtain g0 where r: "rep H s rt k g0 ?T"
    using assms by (auto simp: rep_up_LF)
  then have w: "wf_pos s k ?T" and bl: "black_at H s" and c: "cx H s rt k g g0" by (auto simp: rep_def)
  have d: "p \<noteq> g" "x \<noteq> p" "x \<noteq> g" "s \<noteq> p" "s \<noteq> x" "p \<notin> set (inorder u)" "g \<notin> set (inorder u)"
    "x \<notin> set (inorder u)" "p \<notin> set (inorder sb)" "g \<notin> set (inorder sb)" "x \<notin> set (inorder sb)"
    "x \<notin> set (inorder x1)" "x \<notin> set (inorder x2)" "p \<notin> set (inorder x1)" "p \<notin> set (inorder x2)"
    "g \<notin> set (inorder x1)" "g \<notin> set (inorder x2)"
    using w by (auto simp: wf_pos_iff)
  obtain np ng nx where n: "H p = Some np" "H g = Some ng" "H x = Some nx"
    "rb_left np = x" "rb_right np = rp s sb" "rb_parent np = g"
    "rb_left ng = p" "rb_right ng = rp s u" "rb_parent ng = g0" "rb_parent nx = p"
    and t: "tr H s p sb" "tr H s g u"
    using r by (auto simp: node_at_iff rep_def)
  note u = is_red_rp [OF t(2) bl]
  show ?thesis
  proof (cases "red u")
    case True
    then obtain u1 ua u2 where U: "u = Node True u1 ua u2" by (cases u) auto
    then obtain nu where nu: "H ua = Some nu" using t by (auto simp: node_at_iff)
    have "ua \<notin> set (inorder x1)" "ua \<notin> set (inorder x2)" "ua \<notin> set (inorder sb)"
      "ua \<notin> set (inorder u1)" "ua \<notin> set (inorder u2)"
      using w U by (auto simp: wf_pos_iff)
    then show ?thesis
      by - (rule recolor_up_rep [OF r, of p g ua np ng x nx nu];
        use n nu d u assms(2) U in \<open>auto simp: insert_round_def get_def\<close>)
  next
    case False
    show ?thesis
      by (rule rot_outer_LL [OF assms(1) refl])
        (use False n d u assms(2) in \<open>auto simp: insert_round_def get_def\<close>)
  qed
qed

lemma round_RL:
  assumes "rep H s rt (RF True sb p # LF cg g u # k) q (Node True x1 x x2)"
    and "ins_round (RF True sb p # LF cg g u # k) (Node True x1 x x2) = (k', t')"
  shows "\<exists>H' rt' q'. insert_round H rt s x = Some (H', rt', rp s t') \<and> rep H' s rt' k' q' t' \<and>
     keeps (taddrs (RF True sb p # LF cg g u # k) (Node True x1 x x2)) H H'"
proof -
  let ?T = "Node cg (Node True sb p (Node True x1 x x2)) g u"
  obtain g0 where r: "rep H s rt k g0 ?T"
    using assms by (auto simp: rep_up_LF rep_up_RF)
  then have w: "wf_pos s k ?T" and bl: "black_at H s" and c: "cx H s rt k g g0" by (auto simp: rep_def)
  have d: "p \<noteq> g" "x \<noteq> p" "x \<noteq> g" "s \<noteq> p" "s \<noteq> x" "p \<notin> set (inorder u)" "g \<notin> set (inorder u)"
    "x \<notin> set (inorder u)" "p \<notin> set (inorder sb)" "g \<notin> set (inorder sb)" "x \<notin> set (inorder sb)"
    "x \<notin> set (inorder x1)" "x \<notin> set (inorder x2)" "p \<notin> set (inorder x1)" "p \<notin> set (inorder x2)"
    "g \<notin> set (inorder x1)" "g \<notin> set (inorder x2)"
    using w by (auto simp: wf_pos_iff)
  obtain np ng nx where n: "H p = Some np" "H g = Some ng" "H x = Some nx"
    "rb_left np = rp s sb" "rb_right np = x" "rb_parent np = g"
    "rb_left ng = p" "rb_right ng = rp s u" "rb_parent ng = g0" "rb_parent nx = p"
    and t: "tr H s p sb" "tr H s g u"
    using r by (auto simp: node_at_iff rep_def)
  note u = is_red_rp [OF t(2) bl]
  show ?thesis
  proof (cases "red u")
    case True
    then obtain u1 ua u2 where U: "u = Node True u1 ua u2" by (cases u) auto
    then obtain nu where nu: "H ua = Some nu" using t by (auto simp: node_at_iff)
    have "ua \<notin> set (inorder x1)" "ua \<notin> set (inorder x2)" "ua \<notin> set (inorder sb)"
      "ua \<notin> set (inorder u1)" "ua \<notin> set (inorder u2)"
      using w U by (auto simp: wf_pos_iff)
    then show ?thesis
      by - (rule recolor_up_rep [OF r, of p g ua np ng x nx nu];
        use n nu d u assms(2) U in \<open>auto simp: insert_round_def get_def\<close>)
  next
    case False
    have "rep H s rt (LF cg g u # k) g (Node True sb p (Node True x1 x x2))"
      using r by (auto simp: rep_up_LF)
    from left_rotate [OF this] obtain H1 rt1 where H1: "rbtree_left_rotate H rt s p = Some (H1, rt1)"
      "rep H1 s rt1 (LF cg g u # k) g (Node True (Node True sb p x1) x x2)"
      "keeps (taddrs (LF cg g u # k) (Node True sb p (Node True x1 x x2))) H H1" by blast
    have "rep H1 s rt1 (LF True x x2 # LF cg g u # k) x (Node True sb p x1)"
      using H1(2) by (simp only: rep_up_LF [of H1 s rt1 True x]) blast
    from rot_outer_LL [OF this refl] obtain H' rt' where
      H': "recolor_rotate rbtree_right_rotate H1 rt1 s p = Some (H', rt', p)"
      "rep H' s rt' (LF False x (Node True x2 g u) # k) x (Node True sb p x1)"
      "keeps (taddrs (LF True x x2 # LF cg g u # k) (Node True sb p x1)) H1 H'" by blast
    have "keeps (taddrs (RF True sb p # LF cg g u # k) (Node True x1 x x2)) H H'"
      by (rule keeps_trans [OF keeps_mono [OF H1(3)] keeps_mono [OF H'(3)]]) (auto simp: inorder_plug)
    then show ?thesis using False n d u assms(2) H1(1) H'(1,2) by (auto simp: insert_round_def get_def)
  qed
qed

lemma round_RR:
  assumes "rep H s rt (RF True sb p # RF cg u g # k) q (Node ct x1 x x2)"
    and "ins_round (RF True sb p # RF cg u g # k) (Node ct x1 x x2) = (k', t')"
  shows "\<exists>H' rt' q'. insert_round H rt s x = Some (H', rt', rp s t') \<and> rep H' s rt' k' q' t' \<and>
     keeps (taddrs (RF True sb p # RF cg u g # k) (Node ct x1 x x2)) H H'"
proof -
  let ?T = "Node cg u g (Node True sb p (Node ct x1 x x2))"
  obtain g0 where r: "rep H s rt k g0 ?T"
    using assms by (auto simp: rep_up_RF)
  then have w: "wf_pos s k ?T" and bl: "black_at H s" and c: "cx H s rt k g g0" by (auto simp: rep_def)
  have d: "p \<noteq> g" "x \<noteq> p" "x \<noteq> g" "s \<noteq> p" "s \<noteq> x" "p \<notin> set (inorder u)" "g \<notin> set (inorder u)"
    "x \<notin> set (inorder u)" "p \<notin> set (inorder sb)" "g \<notin> set (inorder sb)" "x \<notin> set (inorder sb)"
    "x \<notin> set (inorder x1)" "x \<notin> set (inorder x2)" "p \<notin> set (inorder x1)" "p \<notin> set (inorder x2)"
    "g \<notin> set (inorder x1)" "g \<notin> set (inorder x2)"
    using w by (auto simp: wf_pos_iff)
  obtain np ng nx where n: "H p = Some np" "H g = Some ng" "H x = Some nx"
    "rb_right np = x" "rb_left np = rp s sb" "rb_parent np = g"
    "rb_right ng = p" "rb_left ng = rp s u" "rb_parent ng = g0" "rb_parent nx = p"
    and t: "tr H s p sb" "tr H s g u"
    using r by (auto simp: node_at_iff rep_def)
  note u = is_red_rp [OF t(2) bl]
  show ?thesis
  proof (cases "red u")
    case True
    then obtain u1 ua u2 where U: "u = Node True u1 ua u2" by (cases u) auto
    then obtain nu where nu: "H ua = Some nu" using t by (auto simp: node_at_iff)
    have "ua \<notin> set (inorder x1)" "ua \<notin> set (inorder x2)" "ua \<notin> set (inorder sb)"
      "ua \<notin> set (inorder u1)" "ua \<notin> set (inorder u2)"
      using w U by (auto simp: wf_pos_iff)
    then show ?thesis
      by - (rule recolor_up_rep [OF r, of p g ua np ng x nx nu];
        use n nu d u assms(2) U in \<open>auto simp: insert_round_def get_def\<close>)
  next
    case False
    show ?thesis
      by (rule rot_outer_RR [OF assms(1) refl])
        (use False n d u assms(2) in \<open>auto simp: insert_round_def get_def\<close>)
  qed
qed

lemma round_LR:
  assumes "rep H s rt (LF True p sb # RF cg u g # k) q (Node True x1 x x2)"
    and "ins_round (LF True p sb # RF cg u g # k) (Node True x1 x x2) = (k', t')"
  shows "\<exists>H' rt' q'. insert_round H rt s x = Some (H', rt', rp s t') \<and> rep H' s rt' k' q' t' \<and>
     keeps (taddrs (LF True p sb # RF cg u g # k) (Node True x1 x x2)) H H'"
proof -
  let ?T = "Node cg u g (Node True (Node True x1 x x2) p sb)"
  obtain g0 where r: "rep H s rt k g0 ?T"
    using assms by (auto simp: rep_up_RF rep_up_LF)
  then have w: "wf_pos s k ?T" and bl: "black_at H s" and c: "cx H s rt k g g0" by (auto simp: rep_def)
  have d: "p \<noteq> g" "x \<noteq> p" "x \<noteq> g" "s \<noteq> p" "s \<noteq> x" "p \<notin> set (inorder u)" "g \<notin> set (inorder u)"
    "x \<notin> set (inorder u)" "p \<notin> set (inorder sb)" "g \<notin> set (inorder sb)" "x \<notin> set (inorder sb)"
    "x \<notin> set (inorder x1)" "x \<notin> set (inorder x2)" "p \<notin> set (inorder x1)" "p \<notin> set (inorder x2)"
    "g \<notin> set (inorder x1)" "g \<notin> set (inorder x2)"
    using w by (auto simp: wf_pos_iff)
  obtain np ng nx where n: "H p = Some np" "H g = Some ng" "H x = Some nx"
    "rb_right np = rp s sb" "rb_left np = x" "rb_parent np = g"
    "rb_right ng = p" "rb_left ng = rp s u" "rb_parent ng = g0" "rb_parent nx = p"
    and t: "tr H s p sb" "tr H s g u"
    using r by (auto simp: node_at_iff rep_def)
  note u = is_red_rp [OF t(2) bl]
  show ?thesis
  proof (cases "red u")
    case True
    then obtain u1 ua u2 where U: "u = Node True u1 ua u2" by (cases u) auto
    then obtain nu where nu: "H ua = Some nu" using t by (auto simp: node_at_iff)
    have "ua \<notin> set (inorder x1)" "ua \<notin> set (inorder x2)" "ua \<notin> set (inorder sb)"
      "ua \<notin> set (inorder u1)" "ua \<notin> set (inorder u2)"
      using w U by (auto simp: wf_pos_iff)
    then show ?thesis
      by - (rule recolor_up_rep [OF r, of p g ua np ng x nx nu];
        use n nu d u assms(2) U in \<open>auto simp: insert_round_def get_def\<close>)
  next
    case False
    have "rep H s rt (RF cg u g # k) g (Node True (Node True x1 x x2) p sb)"
      using r by (auto simp: rep_up_RF)
    from right_rotate [OF this] obtain H1 rt1 where H1: "rbtree_right_rotate H rt s p = Some (H1, rt1)"
      "rep H1 s rt1 (RF cg u g # k) g (Node True x1 x (Node True x2 p sb))"
      "keeps (taddrs (RF cg u g # k) (Node True (Node True x1 x x2) p sb)) H H1" by blast
    have "rep H1 s rt1 (RF True x1 x # RF cg u g # k) x (Node True x2 p sb)"
      using H1(2) by (simp only: rep_up_RF [of H1 s rt1 True x1 x]) blast
    from rot_outer_RR [OF this refl] obtain H' rt' where
      H': "recolor_rotate rbtree_left_rotate H1 rt1 s p = Some (H', rt', p)"
      "rep H' s rt' (RF False (Node True u g x1) x # k) x (Node True x2 p sb)"
      "keeps (taddrs (RF True x1 x # RF cg u g # k) (Node True x2 p sb)) H1 H'" by blast
    have "keeps (taddrs (LF True p sb # RF cg u g # k) (Node True x1 x x2)) H H'"
      by (rule keeps_trans [OF keeps_mono [OF H1(3)] keeps_mono [OF H'(3)]]) (auto simp: inorder_plug)
    then show ?thesis using False n d u assms(2) H1(1) H'(1,2) by (auto simp: insert_round_def get_def)
  qed
qed

lemma round_rep:
  assumes "ins_inv k t" "hd_red k" "rep H s rt k q t" "ins_round k t = (k', t')"
  obtains H' rt' q' where "insert_round H rt s (rp s t) = Some (H', rt', rp s t')"
    "rep H' s rt' k' q' t'" "keeps (taddrs k t) H H'"
proof -
  obtain l x r where t: "t = Node True l x r" using assms(1) by (cases t) (auto simp: ins_inv_def)
  have "\<exists>H' rt' q'. insert_round H rt s x = Some (H', rt', rp s t') \<and> rep H' s rt' k' q' t' \<and>
    keeps (taddrs k t) H H'"
    using assms(1,2)
  proof (cases rule: ins_inv_cases)
    case LL
    show ?thesis using round_LL assms(3,4) unfolding LL t by blast
  next
    case LR
    show ?thesis using round_LR assms(3,4) unfolding LR t by blast
  next
    case RL
    show ?thesis using round_RL assms(3,4) unfolding RL t by blast
  next
    case RR
    show ?thesis using round_RR assms(3,4) unfolding RR t by blast
  qed
  then show thesis using that t by auto
qed

section \<open>The loop\<close>

lemma loop_test:
  assumes "rep H s rt k q (Node c l x r)"
  shows "x = rt \<longleftrightarrow> k = []" and "k \<noteq> [] \<Longrightarrow> par H x = Some q" and "k \<noteq> [] \<Longrightarrow> rbt_is_red H q = Some (hd_red k)"
proof -
  show "x = rt \<longleftrightarrow> k = []"
    using assms cx_root by (cases k) (fastforce simp: rep_def wf_pos_iff)+
  show "par H x = Some q" using assms by (auto simp: rep_def node_at_iff get_def)
  show "rbt_is_red H q = Some (hd_red k)" if "k \<noteq> []"
    using assms that by (cases k rule: kcases) (auto simp: rep_def node_at_iff get_def rbt_is_red_def)
qed

text \<open>The loop always ends, and ends with a tree that only lacks a black root.\<close>

lemma insert_fixup_rep:
  assumes "ins_inv k t" "rep H s rt k q t"
  shows "\<exists>H' rt' q' T. insert_fixup H rt s (rp s t) = Some (H', rt') \<and> rep H' s rt' [] q' T \<and>
    rbt_ok (paint False T) \<and> inorder T = inorder (plug k t) \<and> keeps (taddrs k t) H H'"
  using assms
proof (induction "length k" arbitrary: k t H rt q rule: less_induct)
  case less
  obtain l x r where t: "t = Node True l x r" using less.prems(1) by (cases t) (auto simp: ins_inv_def)
  note test = loop_test [OF less.prems(2) [unfolded t]]
  show ?case
  proof (cases "hd_red k")
    case True
    then have k: "k \<noteq> []" by auto
    obtain k' t' where R: "ins_round k t = (k', t')" by fastforce
    from round_rep [OF less.prems(1) True less.prems(2) R] obtain H1 rt1 q1 where
      H1: "insert_round H rt s (rp s t) = Some (H1, rt1, rp s t')" "rep H1 s rt1 k' q1 t'"
      "keeps (taddrs k t) H H1" .
    from ins_round_inv [OF less.prems(1) True R] have I: "ins_inv k' t'"
      "inorder (plug k' t') = inorder (plug k t)" "length k' < length k" by auto
    from less.hyps [OF I(3,1) H1(2)] obtain H' rt' q' T where
      "insert_fixup H1 rt1 s (rp s t') = Some (H', rt')" "rep H' s rt' [] q' T"
      "rbt_ok (paint False T)" "inorder T = inorder (plug k' t')" "keeps (taddrs k' t') H1 H'" by blast
    then show ?thesis using test k True H1 I(2) t
      by (auto simp: insert_fixup.simps [of H] intro: keeps_trans)
  next
    case False
    have "insert_fixup H rt s (rp s t) = Some (H, rt)"
      using False test t by (cases "k = []") (auto simp: insert_fixup.simps [of H])
    then show ?thesis
      using ins_inv_done [OF less.prems(1) False] rep_plug [OF less.prems(2)] keeps_refl by blast
  qed
qed

section \<open>The descent\<close>

definition key_of :: "rbheap \<Rightarrow> addr \<Rightarrow> u32" where
  "key_of H a = (case H a of None \<Rightarrow> 0 | Some n \<Rightarrow> rb_key n)"

definition is_LF :: "frame \<Rightarrow> bool" where
  "is_LF f = (case f of LF c a r \<Rightarrow> True | RF c l a \<Rightarrow> False)"

lemma leaf_ctx_nonempty: "k \<noteq> [] \<Longrightarrow> leaf_ctx goL t k \<noteq> []"
  by (induction t arbitrary: k) auto

lemma insert_descend_rep:
  assumes "rep H s rt k q t" "t \<noteq> Leaf" "H node = Some n" "rb_key n = nk"
  shows "insert_descend lt H (rp s t) node s =
    (let f = hd (leaf_ctx (\<lambda>a. lt nk (key_of H a)) t k) in Some (faddr f, is_LF f))"
  using assms(1,2)
proof (induction t arbitrary: k q)
  case (Node c l a r)
  obtain na where na: "H a = Some na" "rb_left na = rp s l" "rb_right na = rp s r"
    using Node.prems(1) by (auto simp: rep_def node_at_iff)
  have s: "rp s l = s \<longleftrightarrow> l = Leaf" "rp s r = s \<longleftrightarrow> r = Leaf"
    using Node.prems(1) by (cases l; cases r; auto simp: rep_def wf_pos_iff)+
  have K: "key_of H a = rb_key na" using na by (simp add: key_of_def)
  have L: "rep H s rt (LF c a r # k) a l" "rep H s rt (RF c l a # k) a r"
    using Node.prems(1) by (auto simp: rep_up_LF rep_up_RF)
  note IH = Node.IH(1) [OF L(1)] Node.IH(2) [OF L(2)]
  show ?case
    using na s assms(3,4) K IH
    by (cases "l = Leaf"; cases "r = Leaf")
      (auto simp: insert_descend.simps [of lt H a] get_def is_LF_def Let_def)
qed simp

section \<open>Insertion\<close>

text \<open>
  \<open>is_rbtree H tree xs\<close>: the tree object is a well-formed red-black tree in the heap whose nodes
  in order are \<open>xs\<close>.
\<close>

definition is_rbtree :: "rbheap \<Rightarrow> rbtree_s \<Rightarrow> addr list \<Rightarrow> bool" where
  "is_rbtree H tree xs \<longleftrightarrow>
     (\<exists>q T. rep H (rbt_sentinel tree) (rbt_root tree) [] q T \<and> rbt_ok T \<and> inorder T = xs)"

lemma attach_rep:
  assumes "rep H s rt (f # k) q Leaf" "H node = Some n" "node \<notin> kaddrs (f # k)" "node \<noteq> s"
    "n' = n\<lparr>rb_parent := faddr f, rb_left := s, rb_right := s, rb_color := 1\<rparr>"
  obtains H1 where "(if is_LF f then set_left node H (faddr f) else set_right node H (faddr f)) = Some H1"
    "rep (H1(node \<mapsto> n')) s rt (f # k) (faddr f) (Node True Leaf node Leaf)"
    "H1 node = Some n" "keeps (insert node (kaddrs (f # k))) H (H1(node \<mapsto> n'))"
proof -
  obtain na where na: "H (faddr f) = Some na" using assms(1) by (cases f) (auto simp: rep_def node_at_iff)
  let ?H1 = "H(faddr f \<mapsto> (if is_LF f then na\<lparr>rb_left := node\<rparr> else na\<lparr>rb_right := node\<rparr>))"
  have f: "faddr f \<in> kaddrs (f # k)" by (cases f) auto
  with assms(3) have "node \<noteq> faddr f" by metis
  moreover from this have "keeps (insert node (kaddrs (f # k))) H (?H1(node \<mapsto> n'))"
    by (intro keeps_kd keeps_refl) (use na f assms(2,5) in \<open>auto simp: kd_def get_def\<close>)
  moreover have "rep (?H1(node \<mapsto> n')) s rt (f # k) (faddr f) (Node True Leaf node Leaf)"
    using assms na by (cases f) (auto simp: rep_def wf_pos_iff node_at_iff is_LF_def)
  moreover have "(if is_LF f then set_left node H (faddr f) else set_right node H (faddr f)) = Some ?H1"
    using na by (simp add: put_def)
  ultimately show thesis using that assms(2) by simp
qed

lemma insert_below_rep:
  assumes "rep H s rt [] q T" "T \<noteq> Leaf" "H node = Some n" "node \<notin> set (inorder T)" "node \<noteq> s"
    "K = leaf_ctx (\<lambda>a. lt (rb_key n) (key_of H a)) T []"
  obtains H' q' where "insert_below lt H rt node s = Some H'"
    "rep H' s rt K q' (Node True Leaf node Leaf)" "keeps (insert node (set (inorder T))) H H'"
proof -
  have "K \<noteq> []" using assms(2,6) by (cases T) (auto simp: leaf_ctx_nonempty)
  then obtain f k where K: "K = f # k" by (cases K) auto
  have P: "plug (f # k) Leaf = T" using plug_leaf_ctx [of _ T "[]"] assms(6) K by simp
  then obtain q0 where r: "rep H s rt (f # k) q0 Leaf" using rep_unplug assms(1) by metis
  have ks: "kaddrs (f # k) = set (inorder T)" using inorder_plug [of "f # k" Leaf] P
    by (simp add: kaddrs_def del: plug.simps)
  have rt: "rt = rp s T" using assms(1) by (simp add: rep_def)
  let ?n = "n\<lparr>rb_parent := faddr f, rb_left := s, rb_right := s, rb_color := 1\<rparr>"
  obtain H1 where H1: "(if is_LF f then set_left node H (faddr f) else set_right node H (faddr f)) = Some H1"
    "rep (H1(node \<mapsto> ?n)) s rt (f # k) (faddr f) (Node True Leaf node Leaf)" "H1 node = Some n"
    "keeps (insert node (kaddrs (f # k))) H (H1(node \<mapsto> ?n))"
    by (rule attach_rep [OF r assms(3)]) (use assms(4,5) ks in auto)
  have "insert_below lt H rt node s = Some (H1(node \<mapsto> ?n))"
    using insert_descend_rep [OF assms(1-3) refl, of lt] H1(1,3) K assms(6) rt
    by (simp add: insert_below_def Let_def put_def rbt_red_def)
  then show thesis using that H1 K ks by metis
qed

lemma recol_root: "distinct (inorder (Node c l a r)) \<Longrightarrow> recol v a (Node c l a r) = Node v l a r"
  by auto

theorem rbtree_insert_rep:
  assumes "rep H s rt [] q T" "rbt_ok T" "H node = Some n" "node \<notin> set (inorder T)" "node \<noteq> s"
    "tree = \<lparr>rbt_root = rt, rbt_sentinel = s, rbt_insert = insert_below lt\<rparr>"
    "K = leaf_ctx (\<lambda>a. lt (rb_key n) (key_of H a)) T []"
  obtains H' tree' where "rbtree_insert H tree node = Some (H', tree')"
    "is_rbtree H' tree' (before K @ node # after K)"
    "rbt_sentinel tree' = s" "rbt_insert tree' = insert_below lt"
    "keeps (insert node (set (inorder T))) H H'"
proof (cases "T = Leaf")
  case True
  let ?H = "H(node \<mapsto> n\<lparr>rb_parent := 0, rb_left := s, rb_right := s, rb_color := 0\<rparr>)"
  have rt: "rt = s" using assms(1) True by (simp add: rep_def)
  have "rbtree_insert H tree node = Some (?H, tree\<lparr>rbt_root := node\<rparr>)"
    using assms(3,6) rt by (simp add: rbtree_insert_def put_def rbt_black_def)
  moreover have "rep ?H s node [] 0 (Node False Leaf node Leaf)"
    using assms(1,5) by (auto simp: rep_def wf_pos_iff)
  moreover have "keeps {node} H ?H"
    by (intro keeps_kd keeps_refl) (use assms(3) in \<open>auto simp: kd_def get_def\<close>)
  ultimately show thesis using that [of ?H "tree\<lparr>rbt_root := node\<rparr>"] True assms(6,7)
    by (force simp: is_rbtree_def rbt_ok_def)
next
  case False
  let ?X = "insert node (set (inorder T))" and ?t = "Node True Leaf node Leaf"
  have rt: "rt \<noteq> s" using assms(1) False by (cases T) (auto simp: rep_def wf_pos_iff)
  obtain H1 q1 where H1: "insert_below lt H rt node s = Some H1" "rep H1 s rt K q1 ?t" "keeps ?X H H1"
    by (rule insert_below_rep [OF assms(1) False assms(3-5), of K lt]) (use assms(7) in auto)
  have P: "plug K Leaf = T" using assms(7) by simp
  have "ins_inv K ?t" using assms(2) rbt_ok_plug [of K Leaf] P by (simp add: ins_inv_def)
  from insert_fixup_rep [OF this H1(2)] obtain H2 rt2 q2 T2 where
    H2: "insert_fixup H1 rt s node = Some (H2, rt2)" "rep H2 s rt2 [] q2 T2" "rbt_ok (paint False T2)"
      "inorder T2 = before K @ node # after K" "keeps (taddrs K ?t) H1 H2" by (auto simp: inorder_plug)
  have X: "set (inorder T2) = ?X" "taddrs K ?t = ?X"
    using H2(4) P by (auto simp: inorder_plug simp flip: P)
  obtain c l r where T2: "T2 = Node c l rt2 r"
    using H2(2,4) by (cases T2) (auto simp: rep_def)
  then obtain n2 where n2: "H2 rt2 = Some n2" using H2(2) by (auto simp: rep_def node_at_iff)
  let ?H = "H2(rt2 \<mapsto> n2\<lparr>rb_color := 0\<rparr>)"
  have "recol False rt2 T2 = paint False T2"
    using H2(2) T2 recol_root by (simp add: rep_def wf_pos_def)
  then have "rep ?H s rt2 [] q2 (paint False T2)" using recolor_rep [OF H2(2) n2, of 0] T2 by simp
  then have "is_rbtree ?H (tree\<lparr>rbt_root := rt2\<rparr>) (before K @ node # after K)"
    unfolding is_rbtree_def using H2(3,4) assms(6) by (intro exI [of _ q2] exI [of _ "paint False T2"]) auto
  moreover have "keeps ?X H2 ?H"
    by (intro keeps_kd keeps_refl) (use n2 X T2 in \<open>auto simp: kd_def get_def\<close>)
  then have "keeps ?X H ?H" using H1(3) H2(5) X keeps_trans by metis
  moreover have "rbtree_insert H tree node = Some (?H, tree\<lparr>rbt_root := rt2\<rparr>)"
    using assms(6) rt H1(1) H2(1) n2 by (simp add: rbtree_insert_def put_def rbt_black_def)
  ultimately show thesis using that assms(6) by simp
qed

end
