(* ===== verification/Rbtree_Delete.thy ===== *)
theory Rbtree_Delete
  imports Rbtree_Insert
begin

text \<open>
  Deletion from the red-black tree of \<^verbatim>\<open>src/rbtree.c\<close>: unlinking the node or its successor, the
  rebalancing loop, and the proof that the pointer program removes exactly the given node, keeps
  the tree a red-black tree, always terminates and never dereferences a bad pointer. The loop
  walks up from the sentinel through the parent field the unlinking stored there.
\<close>

section \<open>The program\<close>

definition clear_node :: "rbheap \<Rightarrow> addr \<Rightarrow> rbheap option" where
  "clear_node H node =
     do { H \<leftarrow> set_left 0 H node; H \<leftarrow> set_right 0 H node; H \<leftarrow> set_parent 0 H node; set_key 0 H node }"

text \<open>The node that leaves its place and the child that takes it: \<open>(temp, subst)\<close>.\<close>

definition delete_choose :: "rbheap \<Rightarrow> addr \<Rightarrow> addr \<Rightarrow> (addr \<times> addr) option" where
  "delete_choose H sentinel node =
     do { nl \<leftarrow> get rb_left H node;
          nr \<leftarrow> get rb_right H node;
          if nl = sentinel then Some (nr, node)
          else if nr = sentinel then Some (nl, node)
          else do { subst \<leftarrow> rbtree_min H nr sentinel;
                    sl \<leftarrow> get rb_left H subst;
                    if sl \<noteq> sentinel then Some (sl, subst)
                    else do { sr \<leftarrow> get rb_right H subst; Some (sr, subst) } } }"

text \<open>\<open>subst\<close> takes the place of \<open>node\<close>.\<close>

definition delete_transplant ::
  "rbheap \<Rightarrow> addr \<Rightarrow> addr \<Rightarrow> addr \<Rightarrow> addr \<Rightarrow> (rbheap \<times> addr) option" where
  "delete_transplant H root sentinel node subst =
     do { nl \<leftarrow> get rb_left H node; H \<leftarrow> set_left nl H subst;
          nr \<leftarrow> get rb_right H node; H \<leftarrow> set_right nr H subst;
          np \<leftarrow> par H node; H \<leftarrow> set_parent np H subst;
          H \<leftarrow> rbt_copy_color H subst node;
          (H, root) \<leftarrow> replace_left H root node subst;
          sl \<leftarrow> get rb_left H subst; H \<leftarrow> adopt H sentinel sl subst;
          sr \<leftarrow> get rb_right H subst; H \<leftarrow> adopt H sentinel sr subst;
          Some (H, root) }"

text \<open>\<open>temp\<close> becomes the child of \<open>sp\<close> that \<open>subst\<close> was.\<close>

definition replace_child :: "rbheap \<Rightarrow> addr \<Rightarrow> addr \<Rightarrow> addr \<Rightarrow> rbheap option" where
  "replace_child H sp subst temp =
     do { spl \<leftarrow> get rb_left H sp; if subst = spl then set_left temp H sp else set_right temp H sp }"

text \<open>The stores that take \<open>subst\<close> out of the tree (\<open>subst\<close> is not the root).\<close>

definition delete_unlink ::
  "rbheap \<Rightarrow> addr \<Rightarrow> addr \<Rightarrow> addr \<Rightarrow> addr \<Rightarrow> addr \<Rightarrow> (rbheap \<times> addr) option" where
  "delete_unlink H root sentinel node subst temp =
     do { sp \<leftarrow> par H subst; H \<leftarrow> replace_child H sp subst temp;
          sp \<leftarrow> par H subst;
          if subst = node then do { H \<leftarrow> set_parent sp H temp; Some (H, root) }
          else do { H \<leftarrow> (if sp = node then set_parent subst H temp else set_parent sp H temp);
                    delete_transplant H root sentinel node subst } }"

text \<open>The last case of the loop: the sibling's far child is red. The loop then ends at the root.\<close>

definition far_red_left :: "rbheap \<Rightarrow> addr \<Rightarrow> addr \<Rightarrow> addr \<Rightarrow> addr \<Rightarrow> (rbheap \<times> addr \<times> addr) option" where
  "far_red_left H root sentinel temp w =
     do { p \<leftarrow> par H temp; H \<leftarrow> rbt_copy_color H w p;
          p \<leftarrow> par H temp; H \<leftarrow> rbt_black H p;
          wr \<leftarrow> get rb_right H w; H \<leftarrow> rbt_black H wr;
          p \<leftarrow> par H temp; (H, root) \<leftarrow> rbtree_left_rotate H root sentinel p;
          Some (H, root, root) }"

definition far_red_right :: "rbheap \<Rightarrow> addr \<Rightarrow> addr \<Rightarrow> addr \<Rightarrow> addr \<Rightarrow> (rbheap \<times> addr \<times> addr) option" where
  "far_red_right H root sentinel temp w =
     do { p \<leftarrow> par H temp; H \<leftarrow> rbt_copy_color H w p;
          p \<leftarrow> par H temp; H \<leftarrow> rbt_black H p;
          wl \<leftarrow> get rb_left H w; H \<leftarrow> rbt_black H wl;
          p \<leftarrow> par H temp; (H, root) \<leftarrow> rbtree_right_rotate H root sentinel p;
          Some (H, root, root) }"

text \<open>The cases with a black sibling \<open>w\<close>.\<close>

definition sibling_left :: "rbheap \<Rightarrow> addr \<Rightarrow> addr \<Rightarrow> addr \<Rightarrow> addr \<Rightarrow> (rbheap \<times> addr \<times> addr) option" where
  "sibling_left H root sentinel temp w =
     do { wl \<leftarrow> get rb_left H w; lb \<leftarrow> rbt_is_black H wl;
          wr \<leftarrow> get rb_right H w; rb \<leftarrow> rbt_is_black H wr;
          if lb \<and> rb then do { H \<leftarrow> rbt_red H w; p \<leftarrow> par H temp; Some (H, root, p) }
          else if rb
          then do { H \<leftarrow> rbt_black H wl; H \<leftarrow> rbt_red H w;
                    (H, root) \<leftarrow> rbtree_right_rotate H root sentinel w;
                    p \<leftarrow> par H temp; w \<leftarrow> get rb_right H p;
                    far_red_left H root sentinel temp w }
          else far_red_left H root sentinel temp w }"

definition sibling_right :: "rbheap \<Rightarrow> addr \<Rightarrow> addr \<Rightarrow> addr \<Rightarrow> addr \<Rightarrow> (rbheap \<times> addr \<times> addr) option" where
  "sibling_right H root sentinel temp w =
     do { wl \<leftarrow> get rb_left H w; lb \<leftarrow> rbt_is_black H wl;
          wr \<leftarrow> get rb_right H w; rb \<leftarrow> rbt_is_black H wr;
          if lb \<and> rb then do { H \<leftarrow> rbt_red H w; p \<leftarrow> par H temp; Some (H, root, p) }
          else if lb
          then do { H \<leftarrow> rbt_black H wr; H \<leftarrow> rbt_red H w;
                    (H, root) \<leftarrow> rbtree_left_rotate H root sentinel w;
                    p \<leftarrow> par H temp; w \<leftarrow> get rb_left H p;
                    far_red_right H root sentinel temp w }
          else far_red_right H root sentinel temp w }"

text \<open>One round of the loop: the heap, the root and the new \<open>temp\<close>.\<close>

definition delete_round :: "rbheap \<Rightarrow> addr \<Rightarrow> addr \<Rightarrow> addr \<Rightarrow> (rbheap \<times> addr \<times> addr) option" where
  "delete_round H root sentinel temp =
     do { p \<leftarrow> par H temp; pl \<leftarrow> get rb_left H p;
          if temp = pl
          then do { w \<leftarrow> get rb_right H p; wred \<leftarrow> rbt_is_red H w;
                    (H, root, w) \<leftarrow>
                      (if wred
                       then do { H \<leftarrow> rbt_black H w;
                                 p \<leftarrow> par H temp; H \<leftarrow> rbt_red H p;
                                 p \<leftarrow> par H temp; (H, root) \<leftarrow> rbtree_left_rotate H root sentinel p;
                                 p \<leftarrow> par H temp; w \<leftarrow> get rb_right H p;
                                 Some (H, root, w) }
                       else Some (H, root, w));
                    sibling_left H root sentinel temp w }
          else do { w \<leftarrow> get rb_left H p; wred \<leftarrow> rbt_is_red H w;
                    (H, root, w) \<leftarrow>
                      (if wred
                       then do { H \<leftarrow> rbt_black H w;
                                 p \<leftarrow> par H temp; H \<leftarrow> rbt_red H p;
                                 p \<leftarrow> par H temp; (H, root) \<leftarrow> rbtree_right_rotate H root sentinel p;
                                 p \<leftarrow> par H temp; w \<leftarrow> get rb_left H p;
                                 Some (H, root, w) }
                       else Some (H, root, w));
                    sibling_right H root sentinel temp w } }"

partial_function (option) delete_fixup :: "rbheap \<Rightarrow> addr \<Rightarrow> addr \<Rightarrow> addr \<Rightarrow> (rbheap \<times> addr) option" where
  "delete_fixup H root sentinel temp =
     (if temp = root then do { H \<leftarrow> rbt_black H temp; Some (H, root) }
      else do { black \<leftarrow> rbt_is_black H temp;
                if black
                then do { (H, root, temp) \<leftarrow> delete_round H root sentinel temp;
                          delete_fixup H root sentinel temp }
                else do { H \<leftarrow> rbt_black H temp; Some (H, root) } })"

text \<open>The part of \<open>rbtree_delete\<close> after the unlinking: no more to do if a red node left.\<close>

definition delete_finish :: "bool \<Rightarrow> rbheap \<Rightarrow> addr \<Rightarrow> addr \<Rightarrow> addr \<Rightarrow> (rbheap \<times> addr) option" where
  "delete_finish sred H root sentinel temp =
     (if sred then Some (H, root) else delete_fixup H root sentinel temp)"

definition rbtree_delete :: "rbheap \<Rightarrow> rbtree_s \<Rightarrow> addr \<Rightarrow> (rbheap \<times> rbtree_s) option" where
  "rbtree_delete H tree node =
     do { (temp, subst) \<leftarrow> delete_choose H (rbt_sentinel tree) node;
          if subst = rbt_root tree
          then do { H \<leftarrow> rbt_black H temp; H \<leftarrow> clear_node H node; Some (H, tree\<lparr>rbt_root := temp\<rparr>) }
          else do { sred \<leftarrow> rbt_is_red H subst;
                    (H, root) \<leftarrow> delete_unlink H (rbt_root tree) (rbt_sentinel tree) node subst temp;
                    H \<leftarrow> clear_node H node;
                    (H, root) \<leftarrow> delete_finish sred H root (rbt_sentinel tree) temp;
                    Some (H, tree\<lparr>rbt_root := root\<rparr>) } }"

section \<open>A round of the loop\<close>

lemmas code_defs = get_def put_def rbt_black_def rbt_red_def rbt_copy_color_def rbt_is_black_def

lemma far_red_left_rep:
  assumes r: "rep H s rt k q (Node cp t p (Node cw a w (Node cb b1 b b2)))"
    and temp: "par H (rp s t) = Some p"
  shows "\<exists>H' rt' q'. far_red_left H rt s (rp s t) w = Some (H', rt', rt') \<and>
    rep H' s rt' k q' (Node cp (Node False t p a) w (Node False b1 b b2)) \<and>
    keeps (taddrs k (Node cp t p (Node cw a w (Node cb b1 b b2)))) H H'"
proof -
  let ?T = "Node cp t p (Node cw a w (Node cb b1 b b2))"
  have w: "wf_pos s k ?T" using r by (simp add: rep_def)
  have d: "p \<noteq> w" "p \<noteq> b" "w \<noteq> b" "s \<noteq> p" "s \<noteq> w" "s \<noteq> b" "p \<notin> set (inorder t)" "w \<notin> set (inorder t)"
    "b \<notin> set (inorder t)" "p \<notin> set (inorder a)" "w \<notin> set (inorder a)" "b \<notin> set (inorder a)"
    "p \<notin> set (inorder b1)" "w \<notin> set (inorder b1)" "b \<notin> set (inorder b1)"
    "p \<notin> set (inorder b2)" "w \<notin> set (inorder b2)" "b \<notin> set (inorder b2)"
    using w by (auto simp: wf_pos_iff)
  have neq: "rp s t \<noteq> p" "rp s t \<noteq> w" "rp s t \<noteq> b" using d by simp_all
  obtain np nw nb where n: "H p = Some np" "H w = Some nw" "H b = Some nb" "rb_right np = w"
      "rb_right nw = b" "(rb_color np \<noteq> 0) = cp"
    using r by (auto simp: rep_def node_at_iff)
  obtain nt where nt: "H (rp s t) = Some nt" "rb_parent nt = p" using temp by (auto simp: get_def)
  let ?H = "H(w \<mapsto> nw\<lparr>rb_color := rb_color np\<rparr>, p \<mapsto> np\<lparr>rb_color := 0\<rparr>, b \<mapsto> nb\<lparr>rb_color := 0\<rparr>)"
  have "rep ?H s rt k q (recol False b (recol False p (recol cp w ?T)))"
    using recolor_rep [OF recolor_rep [OF recolor_rep [OF r n(2), of "rb_color np"], of p np 0], of b nb 0] n d
    by simp
  then have "rep ?H s rt k q (Node False t p (Node cp a w (Node False b1 b b2)))" using d by simp
  from left_rotate [OF this] obtain H' rt' where H': "rbtree_left_rotate ?H rt s p = Some (H', rt')"
    "rep H' s rt' k q (Node cp (Node False t p a) w (Node False b1 b b2))"
    "keeps (taddrs k (Node False t p (Node cp a w (Node False b1 b b2)))) ?H H'" .
  have "keeps (taddrs k ?T) H ?H"
    by (rule keeps_kd keeps_refl)+ (use n d in \<open>auto simp: kd_def get_def\<close>)
  then have "keeps (taddrs k ?T) H H'" by (rule keeps_trans) (use H'(3) in \<open>simp add: inorder_plug\<close>)
  moreover have "far_red_left H rt s (rp s t) w = Some (H', rt', rt')"
    using n nt d neq H'(1) by (simp add: far_red_left_def code_defs)
  ultimately show ?thesis using H'(2) by blast
qed

lemma far_red_right_rep:
  assumes r: "rep H s rt k q (Node cp (Node cw (Node cb b1 b b2) w a) p t)"
    and temp: "par H (rp s t) = Some p"
  shows "\<exists>H' rt' q'. far_red_right H rt s (rp s t) w = Some (H', rt', rt') \<and>
    rep H' s rt' k q' (Node cp (Node False b1 b b2) w (Node False a p t)) \<and>
    keeps (taddrs k (Node cp (Node cw (Node cb b1 b b2) w a) p t)) H H'"
proof -
  let ?T = "Node cp (Node cw (Node cb b1 b b2) w a) p t"
  have w: "wf_pos s k ?T" using r by (simp add: rep_def)
  have d: "p \<noteq> w" "p \<noteq> b" "w \<noteq> b" "s \<noteq> p" "s \<noteq> w" "s \<noteq> b" "p \<notin> set (inorder t)" "w \<notin> set (inorder t)"
    "b \<notin> set (inorder t)" "p \<notin> set (inorder a)" "w \<notin> set (inorder a)" "b \<notin> set (inorder a)"
    "p \<notin> set (inorder b1)" "w \<notin> set (inorder b1)" "b \<notin> set (inorder b1)"
    "p \<notin> set (inorder b2)" "w \<notin> set (inorder b2)" "b \<notin> set (inorder b2)"
    using w by (auto simp: wf_pos_iff)
  have neq: "rp s t \<noteq> p" "rp s t \<noteq> w" "rp s t \<noteq> b" using d by simp_all
  obtain np nw nb where n: "H p = Some np" "H w = Some nw" "H b = Some nb" "rb_left np = w"
      "rb_left nw = b" "(rb_color np \<noteq> 0) = cp"
    using r by (auto simp: rep_def node_at_iff)
  obtain nt where nt: "H (rp s t) = Some nt" "rb_parent nt = p" using temp by (auto simp: get_def)
  let ?H = "H(w \<mapsto> nw\<lparr>rb_color := rb_color np\<rparr>, p \<mapsto> np\<lparr>rb_color := 0\<rparr>, b \<mapsto> nb\<lparr>rb_color := 0\<rparr>)"
  have "rep ?H s rt k q (recol False b (recol False p (recol cp w ?T)))"
    using recolor_rep [OF recolor_rep [OF recolor_rep [OF r n(2), of "rb_color np"], of p np 0], of b nb 0] n d
    by simp
  then have "rep ?H s rt k q (Node False (Node cp (Node False b1 b b2) w a) p t)" using d by simp
  from right_rotate [OF this] obtain H' rt' where H': "rbtree_right_rotate ?H rt s p = Some (H', rt')"
    "rep H' s rt' k q (Node cp (Node False b1 b b2) w (Node False a p t))"
    "keeps (taddrs k (Node False (Node cp (Node False b1 b b2) w a) p t)) ?H H'" .
  have "keeps (taddrs k ?T) H ?H"
    by (rule keeps_kd keeps_refl)+ (use n d in \<open>auto simp: kd_def get_def\<close>)
  then have "keeps (taddrs k ?T) H H'" by (rule keeps_trans) (use H'(3) in \<open>simp add: inorder_plug\<close>)
  moreover have "far_red_right H rt s (rp s t) w = Some (H', rt', rt')"
    using n nt d neq H'(1) by (simp add: far_red_right_def code_defs)
  ultimately show ?thesis using H'(2) by blast
qed

lemma par_kept:
  assumes "keeps X H H'" "s \<notin> X" "par H (rp s t) = Some p" "tr H' s p t"
  shows "par H' (rp s t) = Some p"
  using assms by (cases t) (auto simp: get_def keeps_def node_at_iff)

lemma is_black_rp: "tr H s q t \<Longrightarrow> black_at H s \<Longrightarrow> rbt_is_black H (rp s t) = Some (\<not> red t)"
  by (simp add: rbt_is_black_def is_red_rp)

text \<open>
  What a round leaves, for the two outcomes of the abstract round: the position it moves to, with
  \<open>temp\<close> at its root, or the finished tree, with \<open>temp\<close> at the root.
\<close>

definition round_to :: "rbheap \<Rightarrow> addr \<Rightarrow> addr set \<Rightarrow> (frame list \<times> rtree) + rtree \<Rightarrow>
    (rbheap \<times> addr \<times> addr) option \<Rightarrow> bool" where
  "round_to H s X out res \<longleftrightarrow> (\<exists>H' rt' q'. keeps X H H' \<and>
     (case out of
        Inl (k, t) \<Rightarrow> res = Some (H', rt', rp s t) \<and> rep H' s rt' k q' t
      | Inr T \<Rightarrow> res = Some (H', rt', rt') \<and> rep H' s rt' [] q' T))"

lemma round_to_keeps: "keeps X H H1 \<Longrightarrow> round_to H1 s X out res \<Longrightarrow> round_to H s X out res"
  unfolding round_to_def using keeps_trans by blast

lemma sibling_left_rep:
  assumes r: "rep H s rt k q (Node cp t p (Node False a w b))" and temp: "par H (rp s t) = Some p"
  shows "round_to H s (taddrs k (Node cp t p (Node False a w b)))
    (case del_l cp t p (Node False a w b) of Inl t' \<Rightarrow> Inl (k, t') | Inr t' \<Rightarrow> Inr (plug k t'))
    (sibling_left H rt s (rp s t) w)"
proof -
  let ?T = "Node cp t p (Node False a w b)"
  have wf: "wf_pos s k ?T" and bl: "black_at H s" using r by (auto simp: rep_def)
  have d: "p \<noteq> w" "s \<noteq> p" "s \<noteq> w" "p \<notin> set (inorder t)" "w \<notin> set (inorder t)"
    "p \<notin> set (inorder a)" "w \<notin> set (inorder a)" "p \<notin> set (inorder b)" "w \<notin> set (inorder b)"
    using wf by (auto simp: wf_pos_iff)
  have neq: "rp s t \<noteq> p" "rp s t \<noteq> w" using d by simp_all
  obtain np nw where n: "H p = Some np" "H w = Some nw" "rb_right np = w"
      "rb_left nw = rp s a" "rb_right nw = rp s b"
    and t: "tr H s w a" "tr H s w b"
    using r by (auto simp: rep_def node_at_iff)
  obtain nt where nt: "H (rp s t) = Some nt" "rb_parent nt = p" using temp by (auto simp: get_def)
  note ab = is_black_rp [OF t(1) bl] is_black_rp [OF t(2) bl]
  show ?thesis
  proof (cases "red b")
    case True
    then obtain b1 v b2 where b: "b = Node True b1 v b2" by (cases b) auto
    from far_red_left_rep [OF r [unfolded b] temp] obtain H' rt' q' where
      "far_red_left H rt s (rp s t) w = Some (H', rt', rt')"
      "rep H' s rt' k q' (Node cp (Node False t p a) w (Node False b1 v b2))" "keeps (taddrs k ?T) H H'"
      unfolding b by blast
    then show ?thesis using n ab b rep_plug
      by (fastforce simp: round_to_def sibling_left_def get_def)
  next
    case nb: False
    show ?thesis
    proof (cases "red a")
      case False
      let ?H = "H(w \<mapsto> nw\<lparr>rb_color := 1\<rparr>)"
      have "rep ?H s rt k q (recol True w ?T)" using recolor_rep [OF r n(2), of 1] by simp
      moreover have "keeps (taddrs k ?T) H ?H"
        by (rule keeps_kd keeps_refl)+ (use n in \<open>auto simp: kd_def get_def\<close>)
      ultimately show ?thesis using n nt ab nb False d neq
        by (auto simp: round_to_def sibling_left_def code_defs(1-4))
    next
      case True
      then obtain a1 v a2 where a: "a = Node True a1 v a2" by (cases a) auto
      have d': "v \<noteq> p" "v \<noteq> w" "s \<noteq> v" "v \<notin> set (inorder t)" "v \<notin> set (inorder b)"
        "v \<notin> set (inorder a1)" "v \<notin> set (inorder a2)" using wf a by (auto simp: wf_pos_iff)
      obtain nv where nv: "H v = Some nv" using t a by (auto simp: node_at_iff)
      let ?H = "H(v \<mapsto> nv\<lparr>rb_color := 0\<rparr>, w \<mapsto> nw\<lparr>rb_color := 1\<rparr>)"
      have "rep ?H s rt k q (recol True w (recol False v ?T))"
        using recolor_rep [OF recolor_rep [OF r nv, of 0], of w nw 1] n a d' by simp
      then have "rep ?H s rt k q (Node cp t p (Node True (Node False a1 v a2) w b))"
        using d d' a by simp
      then have "rep ?H s rt (RF cp t p # k) p (Node True (Node False a1 v a2) w b)"
        by (auto simp: rep_up_RF)
      from right_rotate [OF this] obtain H1 rt1 where H1: "rbtree_right_rotate ?H rt s w = Some (H1, rt1)"
        "rep H1 s rt1 (RF cp t p # k) p (Node False a1 v (Node True a2 w b))"
        "keeps (taddrs (RF cp t p # k) (Node True (Node False a1 v a2) w b)) ?H H1" .
      have K: "keeps (taddrs k ?T) H H1"
        by (rule keeps_trans [of _ _ ?H], (rule keeps_kd keeps_refl)+)
          (use n nv d d' H1(3) a in \<open>auto simp: kd_def get_def inorder_plug\<close>)
      from H1(2) obtain q1 where r1: "rep H1 s rt1 k q1 (Node cp t p (Node False a1 v (Node True a2 w b)))"
        by (auto simp: rep_up_RF)
      have temp1: "par H1 (rp s t) = Some p"
        by (rule par_kept [OF K _ temp]) (use wf r1 in \<open>auto simp: wf_pos_iff rep_def\<close>)
      from far_red_left_rep [OF r1 temp1] obtain H' rt' q' where
        H': "far_red_left H1 rt1 s (rp s t) v = Some (H', rt', rt')"
        "rep H' s rt' k q' (Node cp (Node False t p a1) v (Node False a2 w b))"
        "keeps (taddrs k (Node cp t p (Node False a1 v (Node True a2 w b)))) H1 H'"
        by blast
      obtain np1 where np1: "H1 p = Some np1" "rb_right np1 = v" using r1 by (auto simp: rep_def node_at_iff)
      have "keeps (taddrs k ?T) H H'" using K H'(3) a by (auto simp: inorder_plug intro: keeps_trans)
      moreover obtain nt1 where "H1 (rp s t) = Some nt1" "rb_parent nt1 = p" using temp1 by (auto simp: get_def)
      then have "sibling_left H rt s (rp s t) w = Some (H', rt', rt')"
        using n nv ab nb a d d' H1(1) H'(1) np1 by (simp add: sibling_left_def code_defs(1-4))
      ultimately show ?thesis using H'(2) a nb rep_plug by (fastforce simp: round_to_def)
    qed
  qed
qed

lemma sibling_right_rep:
  assumes r: "rep H s rt k q (Node cp (Node False b w a) p t)" and temp: "par H (rp s t) = Some p"
  shows "round_to H s (taddrs k (Node cp (Node False b w a) p t))
    (case del_r cp (Node False b w a) p t of Inl t' \<Rightarrow> Inl (k, t') | Inr t' \<Rightarrow> Inr (plug k t'))
    (sibling_right H rt s (rp s t) w)"
proof -
  let ?T = "Node cp (Node False b w a) p t"
  have wf: "wf_pos s k ?T" and bl: "black_at H s" using r by (auto simp: rep_def)
  have d: "p \<noteq> w" "s \<noteq> p" "s \<noteq> w" "p \<notin> set (inorder t)" "w \<notin> set (inorder t)"
    "p \<notin> set (inorder a)" "w \<notin> set (inorder a)" "p \<notin> set (inorder b)" "w \<notin> set (inorder b)"
    using wf by (auto simp: wf_pos_iff)
  have neq: "rp s t \<noteq> p" "rp s t \<noteq> w" using d by simp_all
  obtain np nw where n: "H p = Some np" "H w = Some nw" "rb_left np = w"
      "rb_right nw = rp s a" "rb_left nw = rp s b"
    and t: "tr H s w a" "tr H s w b"
    using r by (auto simp: rep_def node_at_iff)
  obtain nt where nt: "H (rp s t) = Some nt" "rb_parent nt = p" using temp by (auto simp: get_def)
  note ab = is_black_rp [OF t(1) bl] is_black_rp [OF t(2) bl]
  show ?thesis
  proof (cases "red b")
    case True
    then obtain b1 v b2 where b: "b = Node True b1 v b2" by (cases b) auto
    from far_red_right_rep [OF r [unfolded b] temp] obtain H' rt' q' where
      "far_red_right H rt s (rp s t) w = Some (H', rt', rt')"
      "rep H' s rt' k q' (Node cp (Node False b1 v b2) w (Node False a p t))" "keeps (taddrs k ?T) H H'"
      unfolding b by blast
    then show ?thesis using n ab b rep_plug
      by (fastforce simp: round_to_def sibling_right_def get_def)
  next
    case nb: False
    show ?thesis
    proof (cases "red a")
      case False
      let ?H = "H(w \<mapsto> nw\<lparr>rb_color := 1\<rparr>)"
      have "rep ?H s rt k q (recol True w ?T)" using recolor_rep [OF r n(2), of 1] by simp
      moreover have "keeps (taddrs k ?T) H ?H"
        by (rule keeps_kd keeps_refl)+ (use n in \<open>auto simp: kd_def get_def\<close>)
      ultimately show ?thesis using n nt ab nb False d neq
        by (auto simp: round_to_def sibling_right_def code_defs(1-4))
    next
      case True
      then obtain a1 v a2 where a: "a = Node True a1 v a2" by (cases a) auto
      have d': "v \<noteq> p" "v \<noteq> w" "s \<noteq> v" "v \<notin> set (inorder t)" "v \<notin> set (inorder b)"
        "v \<notin> set (inorder a1)" "v \<notin> set (inorder a2)" using wf a by (auto simp: wf_pos_iff)
      obtain nv where nv: "H v = Some nv" using t a by (auto simp: node_at_iff)
      let ?H = "H(v \<mapsto> nv\<lparr>rb_color := 0\<rparr>, w \<mapsto> nw\<lparr>rb_color := 1\<rparr>)"
      have "rep ?H s rt k q (recol True w (recol False v ?T))"
        using recolor_rep [OF recolor_rep [OF r nv, of 0], of w nw 1] n a d' by simp
      then have "rep ?H s rt k q (Node cp (Node True b w (Node False a1 v a2)) p t)"
        using d d' a by simp
      then have "rep ?H s rt (LF cp p t # k) p (Node True b w (Node False a1 v a2))"
        by (auto simp: rep_up_LF)
      from left_rotate [OF this] obtain H1 rt1 where H1: "rbtree_left_rotate ?H rt s w = Some (H1, rt1)"
        "rep H1 s rt1 (LF cp p t # k) p (Node False (Node True b w a1) v a2)"
        "keeps (taddrs (LF cp p t # k) (Node True b w (Node False a1 v a2))) ?H H1" .
      have K: "keeps (taddrs k ?T) H H1"
        by (rule keeps_trans [of _ _ ?H], (rule keeps_kd keeps_refl)+)
          (use n nv d d' H1(3) a in \<open>auto simp: kd_def get_def inorder_plug\<close>)
      from H1(2) obtain q1 where r1: "rep H1 s rt1 k q1 (Node cp (Node False (Node True b w a1) v a2) p t)"
        by (auto simp: rep_up_LF)
      have temp1: "par H1 (rp s t) = Some p"
        by (rule par_kept [OF K _ temp]) (use wf r1 in \<open>auto simp: wf_pos_iff rep_def\<close>)
      from far_red_right_rep [OF r1 temp1] obtain H' rt' q' where
        H': "far_red_right H1 rt1 s (rp s t) v = Some (H', rt', rt')"
        "rep H' s rt' k q' (Node cp (Node False b w a1) v (Node False a2 p t))"
        "keeps (taddrs k (Node cp (Node False (Node True b w a1) v a2) p t)) H1 H'"
        by blast
      obtain np1 where np1: "H1 p = Some np1" "rb_left np1 = v" using r1 by (auto simp: rep_def node_at_iff)
      have "keeps (taddrs k ?T) H H'" using K H'(3) a by (auto simp: inorder_plug intro: keeps_trans)
      moreover obtain nt1 where "H1 (rp s t) = Some nt1" "rb_parent nt1 = p" using temp1 by (auto simp: get_def)
      then have "sibling_right H rt s (rp s t) w = Some (H', rt', rt')"
        using n nv ab nb a d d' H1(1) H'(1) np1 by (simp add: sibling_right_def code_defs(1-4))
      ultimately show ?thesis using H'(2) a nb rep_plug by (fastforce simp: round_to_def)
    qed
  qed
qed

lemma delete_round_LF:
  assumes r: "rep H s rt (LF cp p w # k) p t" and temp: "par H (rp s t) = Some p"
    and W: "w = Node cw wl wa wr" and near: "cw \<Longrightarrow> \<exists>a v b. wl = Node False a v b"
  shows "round_to H s (taddrs (LF cp p w # k) t) (del_round (LF cp p w) k t) (delete_round H rt s (rp s t))"
proof -
  let ?T = "Node cp t p w"
  obtain q where rk: "rep H s rt k q ?T" using r by (auto simp: rep_up_LF)
  then have wf: "wf_pos s k ?T" and bl: "black_at H s" by (auto simp: rep_def)
  have d: "p \<noteq> wa" "s \<noteq> p" "s \<noteq> wa" "p \<notin> set (inorder t)" "wa \<notin> set (inorder t)" "p \<notin> set (inorder wl)"
    "wa \<notin> set (inorder wl)" "p \<notin> set (inorder wr)" "wa \<notin> set (inorder wr)"
    using wf by (auto simp: wf_pos_iff W)
  have neq: "rp s t \<noteq> p" "rp s t \<noteq> wa" using d by simp_all
  obtain np nw where n: "H p = Some np" "H wa = Some nw" "rb_left np = rp s t" "rb_right np = wa"
      "(rb_color nw \<noteq> 0) = cw"
    using rk by (auto simp: rep_def node_at_iff W)
  obtain nt where nt: "H (rp s t) = Some nt" "rb_parent nt = p" using temp by (auto simp: get_def)
  show ?thesis
  proof (cases cw)
    case False
    then have "rep H s rt k q (Node cp t p (Node False wl wa wr))" using rk W by simp
    from sibling_left_rep [OF this temp] False show ?thesis using n nt neq
      by (simp add: delete_round_def get_def rbt_is_red_def W)
  next
    case True
    let ?H = "H(wa \<mapsto> nw\<lparr>rb_color := 0\<rparr>, p \<mapsto> np\<lparr>rb_color := 1\<rparr>)"
    have "rep ?H s rt k q (recol True p (recol False wa ?T))"
      using recolor_rep [OF recolor_rep [OF rk n(2), of 0], of p np 1] n d W by simp
    then have "rep ?H s rt k q (Node True t p (Node False wl wa wr))" using d W by simp
    from left_rotate [OF this] obtain H1 rt1 where H1: "rbtree_left_rotate ?H rt s p = Some (H1, rt1)"
      "rep H1 s rt1 k q (Node False (Node True t p wl) wa wr)"
      "keeps (taddrs k (Node True t p (Node False wl wa wr))) ?H H1" .
    have K: "keeps (taddrs k ?T) H H1"
      by (rule keeps_trans [of _ _ ?H], (rule keeps_kd keeps_refl)+)
        (use n d W H1(3) in \<open>auto simp: kd_def get_def inorder_plug\<close>)
    from H1(2) have r1: "rep H1 s rt1 (LF False wa wr # k) wa (Node True t p wl)" by (auto simp: rep_up_LF)
    have temp1: "par H1 (rp s t) = Some p"
      by (rule par_kept [OF K _ temp]) (use wf r1 in \<open>auto simp: wf_pos_iff rep_def\<close>)
    then obtain nt1 where nt1: "H1 (rp s t) = Some nt1" "rb_parent nt1 = p" by (auto simp: get_def)
    obtain np1 where np1: "H1 p = Some np1" "rb_right np1 = rp s wl" using r1 by (auto simp: rep_def node_at_iff)
    have e: "delete_round H rt s (rp s t) = sibling_left H1 rt1 s (rp s t) (rp s wl)"
      using n nt d neq True H1(1) nt1 np1 by (simp add: delete_round_def code_defs rbt_is_red_def)
    obtain a v b where wl: "wl = Node False a v b" using near True by blast
    have "round_to H1 s (taddrs k ?T) (del_round (LF cp p w) k t) (sibling_left H1 rt1 s (rp s t) (rp s wl))"
      using sibling_left_rep [OF r1 [unfolded wl] temp1] W True wl
      by (auto simp: inorder_plug split: sum.splits)
    then show ?thesis using round_to_keeps K e by (simp add: inorder_plug)
  qed
qed

lemma delete_round_RF:
  assumes r: "rep H s rt (RF cp w p # k) p t" and temp: "par H (rp s t) = Some p"
    and W: "w = Node cw wr wa wl" and near: "cw \<Longrightarrow> \<exists>a v b. wl = Node False a v b"
  shows "round_to H s (taddrs (RF cp w p # k) t) (del_round (RF cp w p) k t) (delete_round H rt s (rp s t))"
proof -
  let ?T = "Node cp w p t"
  obtain q where rk: "rep H s rt k q ?T" using r by (auto simp: rep_up_RF)
  then have wf: "wf_pos s k ?T" and bl: "black_at H s" by (auto simp: rep_def)
  have d: "p \<noteq> wa" "s \<noteq> p" "s \<noteq> wa" "p \<notin> set (inorder t)" "wa \<notin> set (inorder t)" "p \<notin> set (inorder wl)"
    "wa \<notin> set (inorder wl)" "p \<notin> set (inorder wr)" "wa \<notin> set (inorder wr)"
    using wf by (auto simp: wf_pos_iff W)
  have neq: "rp s t \<noteq> p" "rp s t \<noteq> wa" using d by simp_all
  obtain np nw where n: "H p = Some np" "H wa = Some nw" "rb_right np = rp s t" "rb_left np = wa"
      "(rb_color nw \<noteq> 0) = cw"
    using rk by (auto simp: rep_def node_at_iff W)
  obtain nt where nt: "H (rp s t) = Some nt" "rb_parent nt = p" using temp by (auto simp: get_def)
  show ?thesis
  proof (cases cw)
    case False
    then have "rep H s rt k q (Node cp (Node False wr wa wl) p t)" using rk W by simp
    from sibling_right_rep [OF this temp] False show ?thesis using n nt neq
      by (simp add: delete_round_def get_def rbt_is_red_def W)
  next
    case True
    let ?H = "H(wa \<mapsto> nw\<lparr>rb_color := 0\<rparr>, p \<mapsto> np\<lparr>rb_color := 1\<rparr>)"
    have "rep ?H s rt k q (recol True p (recol False wa ?T))"
      using recolor_rep [OF recolor_rep [OF rk n(2), of 0], of p np 1] n d W by simp
    then have "rep ?H s rt k q (Node True (Node False wr wa wl) p t)" using d W by simp
    from right_rotate [OF this] obtain H1 rt1 where H1: "rbtree_right_rotate ?H rt s p = Some (H1, rt1)"
      "rep H1 s rt1 k q (Node False wr wa (Node True wl p t))"
      "keeps (taddrs k (Node True (Node False wr wa wl) p t)) ?H H1" .
    have K: "keeps (taddrs k ?T) H H1"
      by (rule keeps_trans [of _ _ ?H], (rule keeps_kd keeps_refl)+)
        (use n d W H1(3) in \<open>auto simp: kd_def get_def inorder_plug\<close>)
    from H1(2) have r1: "rep H1 s rt1 (RF False wr wa # k) wa (Node True wl p t)" by (auto simp: rep_up_RF)
    have temp1: "par H1 (rp s t) = Some p"
      by (rule par_kept [OF K _ temp]) (use wf r1 in \<open>auto simp: wf_pos_iff rep_def\<close>)
    then obtain nt1 where nt1: "H1 (rp s t) = Some nt1" "rb_parent nt1 = p" by (auto simp: get_def)
    obtain np1 where np1: "H1 p = Some np1" "rb_left np1 = rp s wl" using r1 by (auto simp: rep_def node_at_iff)
    have e: "delete_round H rt s (rp s t) = sibling_right H1 rt1 s (rp s t) (rp s wl)"
      using n nt d neq True H1(1) nt1 np1 by (simp add: delete_round_def code_defs rbt_is_red_def)
    obtain a v b where wl: "wl = Node False a v b" using near True by blast
    have "round_to H1 s (taddrs k ?T) (del_round (RF cp w p) k t) (sibling_right H1 rt1 s (rp s t) (rp s wl))"
      using sibling_right_rep [OF r1 [unfolded wl] temp1] W True wl
      by (auto simp: inorder_plug split: sum.splits)
    then show ?thesis using round_to_keeps K e by (simp add: inorder_plug)
  qed
qed

section \<open>The loop\<close>

lemma delete_round_rep:
  assumes "del_inv (f # k) t" "\<not> red t" "rep H s rt (f # k) (faddr f) t" "par H (rp s t) = Some (faddr f)"
  shows "round_to H s (taddrs (f # k) t) (del_round f k t) (delete_round H rt s (rp s t))"
proof (cases f)
  case (LF cp p w)
  have "bh w = Suc (bh t)" "invc w" "invh w" using assms(1) LF by (auto simp: del_inv_def)
  moreover from this obtain cw wl wa wr where W: "w = Node cw wl wa wr" by (cases w) auto
  ultimately have "cw \<Longrightarrow> \<exists>a v b. wl = Node False a v b" by (cases wl) auto
  then show ?thesis using delete_round_LF W assms(3,4) unfolding LF by auto
next
  case (RF cp w p)
  have "bh w = Suc (bh t)" "invc w" "invh w" using assms(1) RF by (auto simp: del_inv_def)
  moreover from this obtain cw wl wa wr where W: "w = Node cw wr wa wl" by (cases w) auto
  ultimately have "cw \<Longrightarrow> \<exists>a v b. wl = Node False a v b" by (cases wl) auto
  then show ?thesis using delete_round_RF W assms(3,4) unfolding RF by auto
qed

lemma temp_test:
  assumes "rep H s rt k q t"
  shows "k \<noteq> [] \<Longrightarrow> rp s t \<noteq> rt" and "k = [] \<Longrightarrow> rp s t = rt" and "rbt_is_black H (rp s t) = Some (\<not> red t)"
proof -
  show "rbt_is_black H (rp s t) = Some (\<not> red t)"
    using assms by (auto simp: rep_def intro: is_black_rp)
  show "k = [] \<Longrightarrow> rp s t = rt" using assms by (simp add: rep_def)
  show "k \<noteq> [] \<Longrightarrow> rp s t \<noteq> rt"
    using assms cx_root by (cases k; cases t) (fastforce simp: rep_def wf_pos_iff)+
qed

text \<open>Painting the node at the position black; the sentinel is black already.\<close>

lemma black_rep:
  assumes "rep H s rt k q t"
  obtains H' where "rbt_black H (rp s t) = Some H'" "rep H' s rt k q (paint False t)"
    "keeps (insert s (taddrs k t)) H H'"
proof (cases t)
  case Leaf
  obtain n where n: "H s = Some n" "rb_color n = 0"
    using assms by (auto simp: rep_def black_at_def split: option.splits)
  then have "rbt_black H s = Some H" by (auto simp: code_defs)
  then show thesis using that [of H] assms Leaf by simp
next
  case (Node c l a r)
  then obtain n where n: "H a = Some n" using assms by (auto simp: rep_def node_at_iff)
  have "recol False a t = paint False t"
    using assms Node recol_root by (simp add: rep_def wf_pos_iff)
  then have "rep (H(a \<mapsto> n\<lparr>rb_color := 0\<rparr>)) s rt k q (paint False t)"
    using recolor_rep [OF assms n, of 0] Node by simp
  moreover have "keeps (insert s (taddrs k t)) H (H(a \<mapsto> n\<lparr>rb_color := 0\<rparr>))"
    by (rule keeps_kd keeps_refl)+ (use n Node in \<open>auto simp: kd_def get_def\<close>)
  ultimately show thesis using that n Node by (simp add: code_defs)
qed

lemma delete_fixup_rep:
  assumes "del_inv k t" "rep H s rt k q t" "k \<noteq> [] \<Longrightarrow> par H (rp s t) = Some q"
  shows "\<exists>H' rt' q' T. delete_fixup H rt s (rp s t) = Some (H', rt') \<and> rep H' s rt' [] q' T \<and>
    rbt_ok T \<and> inorder T = inorder (plug k t) \<and> keeps (insert s (taddrs k t)) H H'"
  using assms
proof (induction "if red t then 0 else Suc (length k)" arbitrary: k t H rt q rule: less_induct)
  case less
  note test = temp_test [OF less.prems(2)]
  let ?X = "insert s (taddrs k t)"
  show ?case
  proof (cases "red t \<or> k = []")
    case True
    obtain H' where H': "rbt_black H (rp s t) = Some H'" "rep H' s rt k q (paint False t)" "keeps ?X H H'"
      using black_rep [OF less.prems(2)] .
    have "delete_fixup H rt s (rp s t) = Some (H', rt)"
      using True test H'(1) by (auto simp: delete_fixup.simps [of H])
    moreover obtain q' where "rep H' s rt [] q' (plug k (paint False t))" using rep_plug [OF H'(2)] by blast
    ultimately show ?thesis using del_inv_done [OF less.prems(1) True] H'(3)
      by (metis inorder_plug paint_simps(2))
  next
    case False
    then obtain f k1 where k: "k = f # k1" by (cases k) auto
    have q: "q = faddr f" using less.prems(2) k by (cases f) (auto simp: rep_def)
    have R: "round_to H s (taddrs k t) (del_round f k1 t) (delete_round H rt s (rp s t))"
      using delete_round_rep less.prems False k q by blast
    note I = del_round_inv [of f k1 t, folded k, OF less.prems(1)]
    have step: "delete_fixup H rt s (rp s t) =
      do { (H, root, temp) \<leftarrow> delete_round H rt s (rp s t); delete_fixup H root s temp }"
      using False test by (simp add: delete_fixup.simps [of H])
    show ?thesis
    proof (cases "del_round f k1 t")
      case (Inr T)
      with R obtain H1 rt1 q1 where H1: "delete_round H rt s (rp s t) = Some (H1, rt1, rt1)"
        "rep H1 s rt1 [] q1 T" "keeps (taddrs k t) H H1" by (auto simp: round_to_def)
      then have rt1: "rt1 = rp s T" by (simp add: rep_def)
      have T: "rbt_ok T" "inorder T = inorder (plug k t)" using I Inr False k by auto
      obtain H' where H': "rbt_black H1 rt1 = Some H'" "rep H' s rt1 [] q1 (paint False T)"
        "keeps (insert s (taddrs [] T)) H1 H'" using black_rep [OF H1(2)] rt1 by metis
      have "delete_fixup H rt s (rp s t) = Some (H', rt1)"
        using step H1(1) H'(1) by (simp add: delete_fixup.simps [of H1])
      moreover have "keeps ?X H H'"
        using H1(3) H'(3) T(2) by (auto intro: keeps_trans keeps_mono)
      ultimately show ?thesis using H'(2) T by (auto simp: rbt_ok_def paint_id)
    next
      case (Inl a)
      obtain k' t' where a: "a = (k', t')" by fastforce
      with R Inl obtain H1 rt1 q1 where H1: "delete_round H rt s (rp s t) = Some (H1, rt1, rp s t')"
        "rep H1 s rt1 k' q1 t'" "keeps (taddrs k t) H H1" by (auto simp: round_to_def)
      have T: "del_inv k' t'" "inorder (plug k' t') = inorder (plug k t)" "red t' \<or> k' = k1"
        "t' \<noteq> Leaf" using I Inl a False k by auto
      have "par H1 (rp s t') = Some q1"
        using H1(2) T(4) by (cases t') (auto simp: rep_def get_def node_at_iff)
      moreover have "(if red t' then 0 else Suc (length k')) < (if red t then 0 else Suc (length k))"
        using T(3) False k by auto
      ultimately obtain H' rt' q' T' where
        H': "delete_fixup H1 rt1 s (rp s t') = Some (H', rt')" "rep H' s rt' [] q' T'" "rbt_ok T'"
        "inorder T' = inorder (plug k' t')" "keeps (insert s (taddrs k' t')) H1 H'"
        using less.hyps [OF _ T(1) H1(2)] by blast
      have "keeps ?X H H'" using H1(3) H'(5) T(2) by (auto intro: keeps_trans keeps_mono)
      then show ?thesis using step H1(1) H' T(2) by auto
    qed
  qed
qed

section \<open>The minimum\<close>

lemma min_rep:
  assumes "tr H s q t" "t \<noteq> Leaf" "s \<notin> set (inorder t)"
  shows "\<exists>k c y r. t = plug k (Node c Leaf y r) \<and> before k = [] \<and> rbtree_min H (rp s t) s = Some y"
  using assms
proof (induction t arbitrary: q)
  case (Node c l a r)
  obtain n where n: "H a = Some n" "rb_left n = rp s l" using Node.prems(1) by (auto simp: node_at_iff)
  show ?case
  proof (cases "l = Leaf")
    case True
    then have "Node c l a r = plug [] (Node c Leaf a r) \<and> before [] = [] \<and> rbtree_min H a s = Some a"
      using n by (simp add: rbtree_min.simps get_def)
    then show ?thesis by (metis rp_simps(2))
  next
    case False
    with Node.IH(1) [of a] Node.prems obtain k c' y r' where
      l: "l = plug k (Node c' Leaf y r')" "before k = []" "rbtree_min H (rp s l) s = Some y" by auto
    have "rp s l \<noteq> s" using False Node.prems(3) by (cases l) auto
    then have "Node c l a r = plug (k @ [LF c a r]) (Node c' Leaf y r')" "rbtree_min H a s = Some y"
      using n l by (simp_all add: rbtree_min.simps [of H a] get_def)
    moreover have "before (k @ [LF c a r]) = []" using l(2) by (induction k rule: before.induct) auto
    ultimately show ?thesis by (metis rp_simps(2))
  qed
qed simp

section \<open>Unlinking\<close>

lemma cut_cx:
  assumes "cx H s rt (f # k) y q" "kdist (f # k)" "y \<notin> kaddrs (f # k)" "s \<notin> kaddrs (f # k)" "s \<noteq> y"
  shows "\<exists>H'. replace_child H q y b = Some H' \<and> cx H' s rt (f # k) b q \<and> keeps (kaddrs (f # k)) H H'"
  using assms
  by (cases f) (auto simp: replace_child_def get_def put_def node_at_iff intro!: keeps_upd keeps_refl)

lemma set_parent_rp:
  assumes "tr H s z t" "black_at H s" "distinct (s # inorder t)"
  shows "\<exists>H'. set_parent q H (rp s t) = Some H' \<and> tr H' s q t \<and> par H' (rp s t) = Some q \<and>
    black_at H' s \<and> keeps (insert s (set (inorder t))) H H'"
proof (cases t)
  case Leaf
  then show ?thesis using assms
    by (auto simp: black_at_def put_def get_def split: option.splits intro!: keeps_upd)
next
  case (Node c l a r)
  then show ?thesis using assms
    by (auto simp: put_def get_def node_at_iff intro!: keeps_upd)
qed

text \<open>The node at a position is cut out and the subtree \<open>t\<close> below it moved up.\<close>

lemma cut_rep:
  assumes r: "rep H s rt (f # k) q (Node c l y r)" and t: "l = Leaf \<and> t = r \<or> r = Leaf \<and> t = l"
  obtains H1 H2 where "par H y = Some q" "replace_child H q y (rp s t) = Some H1"
    "par H1 y = Some q" "set_parent z H1 (rp s t) = Some H2"
    "cx H2 s rt (f # k) (rp s t) q" "tr H2 s z t" "par H2 (rp s t) = Some z" "black_at H2 s"
    "H2 y = H y" "keeps (insert s (set (inorder t) \<union> kaddrs (f # k))) H H2"
proof -
  let ?X = "insert s (set (inorder t) \<union> kaddrs (f # k))"
  have wf: "wf_pos s (f # k) (Node c l y r)" and bl: "black_at H s" and cx: "cx H s rt (f # k) y q"
    using r by (auto simp: rep_def)
  have tr: "tr H s y t" and par: "par H y = Some q" using r t by (auto simp: rep_def node_at_iff get_def)
  have d: "kdist (f # k)" "y \<notin> kaddrs (f # k)" "s \<notin> kaddrs (f # k)" "s \<noteq> y" "distinct (s # inorder t)"
    "y \<notin> set (inorder t)" "set (inorder t) \<inter> kaddrs (f # k) = {}" "insert s (set (inorder t)) \<inter> kaddrs (f # k) = {}"
    using wf t by (auto simp: wf_pos_iff)
  obtain H1 where H1: "replace_child H q y (rp s t) = Some H1"
    "cx H1 s rt (f # k) (rp s t) q" "keeps (kaddrs (f # k)) H H1"
    using cut_cx [OF cx d(1-4)] by blast
  have "tr H1 s y t" "black_at H1 s"
    using tr bl keeps_tr [OF H1(3) d(7)] keeps_black [OF H1(3) d(3)] by simp_all
  from set_parent_rp [OF this d(5)] obtain H2 where H2: "set_parent z H1 (rp s t) = Some H2"
    "tr H2 s z t" "par H2 (rp s t) = Some z" "black_at H2 s" "keeps (insert s (set (inorder t))) H1 H2" by blast
  have y: "H1 y = H y" "H2 y = H1 y"
    using keepsD [OF H1(3) d(2)] keepsD [OF H2(5), of y] d(4,6) by auto
  have "cx H2 s rt (f # k) (rp s t) q"
    using keeps_cx [OF H2(5)] d(8) H1(2) by (simp add: Int_commute)
  moreover have "keeps ?X H H2"
    by (rule keeps_trans [OF keeps_mono [OF H1(3)] keeps_mono [OF H2(5)]]) auto
  moreover have "par H1 y = Some q" using par y by (simp add: get_def)
  ultimately show thesis using y by (intro that [OF par H1(1) _ H2(1) _ H2(2-4)]) simp_all
qed

text \<open>Another node \<open>y\<close>, not in the tree, takes the place of \<open>a\<close>.\<close>

lemma transplant_rep:
  assumes a: "H a = Some na" "rb_left na = rp s l" "rb_right na = rp s r" "rb_parent na = q"
      "(rb_color na \<noteq> 0) = c"
    and t: "tr H s z1 l" "tr H s z2 r" "cx H s rt k a q" "black_at H s"
    and wf: "wf_pos s k (Node c l a r)" and y: "H y = Some ny" "y \<notin> taddrs k (Node c l a r)" "y \<noteq> s"
  obtains H' rt' where "delete_transplant H rt s a y = Some (H', rt')" "rep H' s rt' k q (Node c l y r)"
    "keeps (insert y (set (inorder l) \<union> set (inorder r) \<union> kaddrs k)) H H'"
proof -
  let ?X = "insert y (set (inorder l) \<union> set (inorder r) \<union> kaddrs k)"
  let ?ny = "ny\<lparr>rb_left := rp s l, rb_right := rp s r, rb_parent := q, rb_color := rb_color na\<rparr>"
  let ?H1 = "H(y \<mapsto> ?ny)"
  have d: "kdist k" "a \<notin> kaddrs k" "s \<notin> kaddrs k" "s \<noteq> a" "y \<noteq> a" "a \<notin> set (inorder l)" "a \<notin> set (inorder r)"
    "distinct (s # inorder l)" "distinct (s # inorder r)" "set (inorder l) \<inter> set (inorder r) = {}"
    "set (inorder l) \<inter> kaddrs k = {}" "set (inorder r) \<inter> kaddrs k = {}"
    "y \<notin> set (inorder l)" "y \<notin> set (inorder r)" "y \<notin> kaddrs k"
    using wf y by (auto simp: wf_pos_iff)
  have "cx ?H1 s rt k a q" "get rb_parent ?H1 a = Some q" using t d a by (simp_all add: get_def)
  from replace_cx(1) [OF this(1) d(1-4) this(2)] obtain H2 rt2 where
    H2: "replace_left ?H1 rt a y = Some (H2, rt2)" "cx H2 s rt2 k y q" "keeps (kaddrs k) ?H1 H2" by blast
  have "tr H2 s z1 l" "tr H2 s z2 r" using t d keeps_tr [OF H2(3)] by simp_all
  with adopt_tr [of H2 s z1 l] d obtain H3 where H3: "adopt H2 s (rp s l) y = Some H3" "tr H3 s y l"
    "keeps (set (inorder l)) H2 H3" by blast
  have "tr H3 s z2 r" using \<open>tr H2 s z2 r\<close> d keeps_tr [OF H3(3)] by (simp add: Int_commute)
  with adopt_tr [of H3 s z2 r] d obtain H4 where H4: "adopt H3 s (rp s r) y = Some H4" "tr H4 s y r"
    "keeps (set (inorder r)) H3 H4" by blast
  have ys: "H2 y = Some ?ny" "H3 y = Some ?ny" "H4 y = Some ?ny"
    using d keepsD [OF H2(3)] keepsD [OF H3(3)] keepsD [OF H4(3)] by simp_all
  have "tr H4 s y l" using H3(2) d keeps_tr [OF H4(3)] by simp
  moreover have "cx H4 s rt2 k y q"
    using H2(2) d keeps_cx [OF H3(3)] keeps_cx [OF H4(3)] by (simp add: Int_commute)
  moreover have "black_at H4 s"
    using t(4) d y keeps_black [OF H2(3)] keeps_black [OF H3(3)] keeps_black [OF H4(3)] by simp
  moreover have "wf_pos s k (Node c l y r)" using wf y by (auto simp: wf_pos_iff)
  ultimately have "rep H4 s rt2 k q (Node c l y r)"
    using ys H4(2) a(5) by (simp add: rep_def node_at_iff)
  moreover have "keeps ?X H ?H1" by (rule keeps_kd keeps_refl)+ (use y in \<open>auto simp: kd_def get_def\<close>)
  moreover have "keeps ?X ?H1 H2" "keeps ?X H2 H3" "keeps ?X H3 H4"
    using H2(3) H3(3) H4(3) by (auto elim: keeps_mono)
  moreover have "delete_transplant H rt s a y = Some (H4, rt2)"
    using a y d H2(1) H3(1) H4(1) ys by (simp add: delete_transplant_def code_defs)
  ultimately show thesis using that by (meson keeps_trans)
qed

section \<open>Deletion\<close>

lemma rep_plug_app: "rep H s rt (k1 @ k) q t \<Longrightarrow> \<exists>q'. rep H s rt k q' (plug k1 t)"
proof (induction k1 arbitrary: q t)
  case (Cons f k1)
  then show ?case by (cases f) (auto simp: rep_up_LF rep_up_RF)
qed auto

lemma rep_unplug_app: "rep H s rt k q (plug k1 t) \<Longrightarrow> \<exists>q'. rep H s rt (k1 @ k) q' t"
proof (induction k1 arbitrary: t)
  case (Cons f k1)
  then show ?case by (cases f) (auto simp: rep_up_LF rep_up_RF)
qed auto

lemma okctx_subst: "okctx (k1 @ RF c l a # k) b h = okctx (k1 @ RF c l y # k) b h"
proof (induction k1 arbitrary: b h)
  case (Cons f k1)
  then show ?case by (cases f) auto
qed simp

lemma before_after_append:
  "before (k1 @ k) = before k @ before k1" "after (k1 @ k) = after k1 @ after k"
  by (induction k1) (auto, (case_tac a; auto)+)

lemma position_of: "a \<in> set (inorder T) \<Longrightarrow> \<exists>k c l r. T = plug k (Node c l a r)"
proof (induction T)
  case (Node c l x r)
  consider "a \<in> set (inorder l)" | "a = x" | "a \<in> set (inorder r)" using Node.prems by auto
  then show ?case
  proof cases
    case 1
    then obtain k c' l' r' where "l = plug k (Node c' l' a r')" using Node.IH(1) by blast
    then have "Node c l x r = plug (k @ [LF c x r]) (Node c' l' a r')" by simp
    then show ?thesis by blast
  next
    case 2
    then have "Node c l x r = plug [] (Node c l a r)" by simp
    then show ?thesis by blast
  next
    case 3
    then obtain k c' l' r' where "r = plug k (Node c' l' a r')" using Node.IH(2) by blast
    then have "Node c l x r = plug (k @ [RF c l x]) (Node c' l' a r')" by simp
    then show ?thesis by blast
  qed
qed simp

lemma rep_upd_other:
  assumes "rep H s rt k q t" "a \<notin> taddrs k t" "a \<noteq> s"
  shows "rep (H(a \<mapsto> n)) s rt k q t"
  using assms by (auto simp: rep_def)

definition cleared :: "rbtree_node_s \<Rightarrow> rbtree_node_s" where
  "cleared n = n\<lparr>rb_left := 0, rb_right := 0, rb_parent := 0, rb_key := 0\<rparr>"

lemma clear_node_eq: "H a = Some n \<Longrightarrow> clear_node H a = Some (H(a \<mapsto> cleared n))"
  by (simp add: clear_node_def put_def cleared_def)

lemma delete_finish_rep:
  assumes r: "rep H s rt k q t" "par H (rp s t) = Some q"
    and ok: "okctx k c (if c then bh t else Suc (bh t))" "invc t" "invh t" "c \<Longrightarrow> \<not> red t"
  shows "\<exists>H' rt' q' T. delete_finish c H rt s (rp s t) = Some (H', rt') \<and> rep H' s rt' [] q' T \<and>
    rbt_ok T \<and> inorder T = inorder (plug k t) \<and> keeps (insert s (taddrs k t)) H H'"
proof (cases c)
  case True
  then have "rbt_ok (plug k t)" using ok okctx_black [of k c "bh t"] by (simp add: rbt_ok_plug)
  moreover obtain q' where "rep H s rt [] q' (plug k t)" using rep_plug [OF r(1)] by blast
  ultimately show ?thesis using True by (auto simp: delete_finish_def)
next
  case False
  then have "del_inv k t" using ok by (simp add: del_inv_def)
  from delete_fixup_rep [OF this r(1)] r(2) False show ?thesis by (simp add: delete_finish_def)
qed

text \<open>
  The unlinking itself: from the node's position in the tree to the position below which one
  node is missing, whose colour is \<open>cs\<close>.
\<close>

definition unlinked :: "rbheap \<Rightarrow> addr \<Rightarrow> addr \<Rightarrow> rtree \<Rightarrow> addr \<Rightarrow> bool" where
  "unlinked H s rt T a \<longleftrightarrow>
     (\<exists>subst H' rt' k q t cs. delete_choose H s a = Some (rp s t, subst) \<and> subst \<noteq> rt \<and>
        rbt_is_red H subst = Some cs \<and> delete_unlink H rt s a subst (rp s t) = Some (H', rt') \<and>
        rep H' s rt' k q t \<and> par H' (rp s t) = Some q \<and>
        okctx k cs (if cs then bh t else Suc (bh t)) \<and> invc t \<and> invh t \<and> (cs \<longrightarrow> \<not> red t) \<and>
        inorder (plug k t) = remove1 a (inorder T) \<and>
        keeps (insert s (set (inorder T))) H H')"

lemma unlink_single:
  assumes r: "rep H s rt (f # k) q (Node c l a r)" and t: "l = Leaf \<and> t = r \<or> r = Leaf \<and> t = l"
    and ok: "rbt_ok (plug (f # k) (Node c l a r))"
  shows "unlinked H s rt (plug (f # k) (Node c l a r)) a"
proof -
  let ?T = "plug (f # k) (Node c l a r)"
  have wf: "wf_pos s (f # k) (Node c l a r)" using r by (simp add: rep_def)
  obtain n where n: "H a = Some n" "rb_left n = rp s l" "rb_right n = rp s r" "(rb_color n \<noteq> 0) = c"
    using r by (auto simp: rep_def node_at_iff)
  obtain H1 H2 where H: "par H a = Some q" "replace_child H q a (rp s t) = Some H1"
    "par H1 a = Some q" "set_parent q H1 (rp s t) = Some H2"
    "cx H2 s rt (f # k) (rp s t) q" "tr H2 s q t" "par H2 (rp s t) = Some q" "black_at H2 s"
    "H2 a = H a" "keeps (insert s (set (inorder t) \<union> kaddrs (f # k))) H H2"
    by (rule cut_rep [OF r t, of q]) blast
  have "rp s l = s \<longleftrightarrow> l = Leaf" "rp s r = s \<longleftrightarrow> r = Leaf"
    using wf by (cases l; cases r; auto simp: wf_pos_iff)+
  then have "delete_choose H s a = Some (rp s t, a)" using n t by (auto simp: delete_choose_def get_def)
  moreover have "a \<noteq> rt" using loop_test(1) [OF r] by simp
  moreover have "rbt_is_red H a = Some c" using n by (simp add: rbt_is_red_def get_def)
  moreover have "delete_unlink H rt s a a (rp s t) = Some (H2, rt)" using H by (simp add: delete_unlink_def)
  moreover have "wf_pos s (f # k) t" using wf t by (auto simp: wf_pos_iff)
  then have "rep H2 s rt (f # k) q t" using H by (simp add: rep_def)
  moreover have "okctx (f # k) c (if c then bh t else Suc (bh t))" "invc t" "invh t" "c \<Longrightarrow> \<not> red t"
    using ok t by (auto simp: rbt_ok_plug simp del: plug.simps)
  moreover have "inorder (plug (f # k) t) = remove1 a (inorder ?T)"
    using wf t by (auto simp: inorder_plug wf_pos_def remove1_append simp del: plug.simps)
  moreover have "keeps (insert s (set (inorder ?T))) H H2"
    by (rule keeps_mono [OF H(10)]) (use t in \<open>auto simp del: plug.simps\<close>)
  ultimately show ?thesis using H(7) unfolding unlinked_def by blast
qed

lemma cx_parent: "cx H s rt (f # k) p q \<Longrightarrow> q = faddr f"
  by (cases f) auto

text \<open>The node \<open>a\<close> after its successor was cut out of its right subtree.\<close>

lemma after_cut:
  assumes "cx H s rt (k1 @ RF c l a # k) (rp s t) q1" "tr H s z t" "k1 \<noteq> [] \<Longrightarrow> z = q1" "black_at H s"
    "wf_pos s (k1 @ RF c l a # k) t"
  shows "\<exists>g z2. node_at H a c (rp s l) (rp s (plug k1 t)) g \<and> cx H s rt k a g \<and> tr H s a l \<and>
    tr H s z2 (plug k1 t)"
proof (cases k1)
  case Nil
  then show ?thesis using assms by auto
next
  case (Cons f k')
  then have "rep H s rt (k1 @ RF c l a # k) q1 t" using assms by (simp add: rep_def)
  then obtain q' where "rep H s rt (RF c l a # k) q' (plug k1 t)" using rep_plug_app by blast
  then show ?thesis by (auto simp: rep_def)
qed

lemma unlink_two:
  assumes r: "rep H s rt k q (Node c l a r)" and lr: "l \<noteq> Leaf" "r \<noteq> Leaf"
    and ok: "rbt_ok (plug k (Node c l a r))"
  shows "unlinked H s rt (plug k (Node c l a r)) a"
proof -
  let ?T = "plug k (Node c l a r)"
  have wf: "wf_pos s k (Node c l a r)" and tr: "tr H s a r" using r by (auto simp: rep_def)
  have "s \<notin> set (inorder r)" using wf by (auto simp: wf_pos_iff)
  from min_rep [OF tr lr(2) this] obtain k1 cy y ry where
    y: "r = plug k1 (Node cy Leaf y ry)" "before k1 = []" "rbtree_min H (rp s r) s = Some y" by blast
  let ?K = "k1 @ RF c l a # k" and ?K' = "k1 @ RF c l y # k"
  have "rep H s rt (RF c l a # k) a (plug k1 (Node cy Leaf y ry))" using r y by (auto simp: rep_up_RF)
  then obtain q1 where r1: "rep H s rt ?K q1 (Node cy Leaf y ry)" using rep_unplug_app by blast
  obtain f K where K: "?K = f # K" by (metis append_Cons append_Nil neq_Nil_conv)
  obtain n where n: "H a = Some n" "rb_left n = rp s l" "rb_right n = rp s r" "rb_parent n = q"
     "(rb_color n \<noteq> 0) = c" using r by (auto simp: rep_def node_at_iff)
  obtain ny where ny: "H y = Some ny" "rb_left ny = s" "rb_right ny = rp s ry" "(rb_color ny \<noteq> 0) = cy"
    using r1 by (auto simp: rep_def node_at_iff)
  let ?z = "if q1 = a then y else q1"
  obtain H1 H2 where H: "par H y = Some q1" "replace_child H q1 y (rp s ry) = Some H1"
    "par H1 y = Some q1" "set_parent ?z H1 (rp s ry) = Some H2"
    "cx H2 s rt ?K (rp s ry) q1" "tr H2 s ?z ry" "par H2 (rp s ry) = Some ?z" "black_at H2 s"
    "H2 y = H y" "keeps (insert s (set (inorder ry) \<union> kaddrs ?K)) H H2"
    unfolding K by (rule cut_rep [OF r1 [unfolded K], of ry ?z]) blast+
  have wfK: "wf_pos s ?K (Node cy Leaf y ry)" using r1 by (simp add: rep_def)
  have z: "?z = q1" if "k1 \<noteq> []"
  proof -
    obtain f1 k2 where "k1 = f1 # k2" using \<open>k1 \<noteq> []\<close> by (meson neq_Nil_conv)
    then have "q1 \<in> kaddrs k1" using cx_parent [of H2 s rt f1] H(5) by (cases f1) auto
    then have "q1 \<in> set (inorder r)" using y by simp
    then show ?thesis using wf by (auto simp: wf_pos_iff)
  qed
  have "wf_pos s ?K ry" using wfK by (auto simp: wf_pos_iff)
  from after_cut [OF H(5,6) z H(8) this] obtain g z2 where
    g: "node_at H2 a c (rp s l) (rp s (plug k1 ry)) g" "cx H2 s rt k a g" "tr H2 s a l"
    "tr H2 s z2 (plug k1 ry)" by blast
  obtain na where na: "H2 a = Some na" "rb_left na = rp s l" "rb_right na = rp s (plug k1 ry)"
    "rb_parent na = g" "(rb_color na \<noteq> 0) = c" using g(1) by (auto simp: node_at_iff)
  have ya: "y \<noteq> a" "y \<noteq> s" "wf_pos s k (Node c l a (plug k1 ry))" "y \<notin> taddrs k (Node c l a (plug k1 ry))"
    using wf unfolding y(1) by (auto simp: wf_pos_iff inorder_plug kaddrs_def)
  have "H2 y = Some ny" using H(9) ny by simp
  from transplant_rep [OF na g(3,4,2) H(8) ya(3) this ya(4,2)] obtain H3 rt3 where
    H3: "delete_transplant H2 rt s a y = Some (H3, rt3)" "rep H3 s rt3 k g (Node c l y (plug k1 ry))"
    "keeps (insert y (set (inorder l) \<union> set (inorder (plug k1 ry)) \<union> kaddrs k)) H2 H3" .
  have s3: "H3 s = H2 s" using ya(2,3) keepsD [OF H3(3), of s] by (auto simp: wf_pos_iff)
  have "rep H3 s rt3 (RF c l y # k) y (plug k1 ry)" using H3(2) by (auto simp: rep_up_RF)
  then obtain q3 where r3: "rep H3 s rt3 ?K' q3 ry" using rep_unplug_app by blast
  have "q3 = ?z"
  proof (cases k1)
    case Nil
    then show ?thesis using cx_parent [of H3 s rt3 "RF c l y"] cx_parent [of H2 s rt "RF c l a"] r3 H(5)
      by (auto simp: rep_def)
  next
    case (Cons f1 k2)
    then have "q3 = faddr f1" "q1 = faddr f1"
      using cx_parent [of H3 s rt3 f1] cx_parent [of H2 s rt f1] r3 H(5) by (auto simp: rep_def)
    then show ?thesis using z Cons by simp
  qed
  then have "par H3 (rp s ry) = Some q3" using r3 H(7) s3 by (cases ry) (auto simp: get_def rep_def node_at_iff)
  moreover have "rp s l \<noteq> s" "rp s r \<noteq> s" using wf lr by (cases l; cases r; auto simp: wf_pos_iff)+
  then have "delete_choose H s a = Some (rp s ry, y)" using n ny y(3) by (simp add: delete_choose_def get_def)
  moreover have "y \<noteq> rt" using loop_test(1) [OF r1] by simp
  moreover have "rbt_is_red H y = Some cy" using ny by (simp add: rbt_is_red_def get_def)
  moreover have "delete_unlink H rt s a y (rp s ry) = Some (H3, rt3)"
    using H(1-4) H3(1) ya(1) by (simp add: delete_unlink_def split: if_splits)
  moreover have "okctx ?K' cy (if cy then bh ry else Suc (bh ry))" "invc ry" "invh ry" "cy \<Longrightarrow> \<not> red ry"
    using ok rbt_ok_plug [of ?K "Node cy Leaf y ry"] okctx_subst [of k1 c l a k _ _ y] unfolding y(1) by auto
  moreover have "inorder (plug ?K' ry) = remove1 a (inorder ?T)"
    using wf y by (auto simp: inorder_plug wf_pos_def remove1_append before_after_append)
  moreover have "keeps (insert s (set (inorder ?T))) H H3"
    by (rule keeps_trans [OF keeps_mono [OF H(10)] keeps_mono [OF H3(3)]])
      (auto simp: y(1) inorder_plug before_after_append kaddrs_def)
  ultimately show ?thesis using r3 unfolding unlinked_def by blast
qed

text \<open>The node is the root and has at most one child.\<close>

lemma delete_root_rep:
  assumes r: "rep H s rt [] q (Node c l a r)" and t: "l = Leaf \<and> t = r \<or> r = Leaf \<and> t = l"
    and ok: "rbt_ok (Node c l a r)"
  shows "\<exists>H'. delete_choose H s a = Some (rp s t, rt) \<and> a = rt \<and> rbt_black H (rp s t) = Some H' \<and>
    rep H' s (rp s t) [] a (paint False t) \<and> rbt_ok (paint False t) \<and>
    inorder t = remove1 a (inorder (Node c l a r)) \<and> keeps (insert s (set (inorder t))) H H'"
proof -
  have wf: "wf_pos s [] (Node c l a r)" and a: "a = rt" using r by (auto simp: rep_def)
  obtain n where n: "H a = Some n" "rb_left n = rp s l" "rb_right n = rp s r"
    using r by (auto simp: rep_def node_at_iff)
  have "rp s l = s \<longleftrightarrow> l = Leaf" "rp s r = s \<longleftrightarrow> r = Leaf"
    using wf by (cases l; cases r; auto simp: wf_pos_iff)+
  then have 1: "delete_choose H s a = Some (rp s t, a)" using n t by (auto simp: delete_choose_def get_def)
  have "rep H s (rp s t) [] a t" using r t by (auto simp: rep_def wf_pos_iff)
  from black_rep [OF this] obtain H' where 2: "rbt_black H (rp s t) = Some H'"
    "rep H' s (rp s t) [] a (paint False t)" "keeps (insert s (taddrs [] t)) H H'" .
  have 3: "rbt_ok (paint False t)" using ok t by (auto simp: rbt_ok_def)
  have 4: "inorder t = remove1 a (inorder (Node c l a r))"
    using wf t by (auto simp: wf_pos_iff remove1_append)
  from 1 2 3 4 a show ?thesis by simp
qed

definition deleted_to :: "rbheap \<Rightarrow> rbtree_s \<Rightarrow> addr list \<Rightarrow> addr \<Rightarrow> rbheap \<Rightarrow> rbtree_s \<Rightarrow> bool" where
  "deleted_to H tree xs a H' tree' \<longleftrightarrow> is_rbtree H' tree' (remove1 a xs) \<and>
     rbt_sentinel tree' = rbt_sentinel tree \<and> rbt_insert tree' = rbt_insert tree \<and>
     (\<forall>x. x \<notin> insert (rbt_sentinel tree) (set xs) \<longrightarrow> H' x = H x) \<and>
     (\<forall>x. x \<noteq> a \<longrightarrow> kd H' x = kd H x) \<and> (\<exists>n. H' a = Some (cleared n))"

lemma delete_unlinked:
  assumes u: "unlinked H s rt T a" and a: "a \<in> set (inorder T)" "a \<noteq> s" "distinct (inorder T)"
    and Ha: "H a \<noteq> None" and tree: "rbt_root tree = rt" "rbt_sentinel tree = s"
  shows "\<exists>H' tree'. rbtree_delete H tree a = Some (H', tree') \<and> deleted_to H tree (inorder T) a H' tree'"
proof -
  let ?X = "insert s (set (inorder T))"
  obtain subst H1 rt1 k q t cs where 1: "delete_choose H s a = Some (rp s t, subst)" "subst \<noteq> rt"
    "rbt_is_red H subst = Some cs" "delete_unlink H rt s a subst (rp s t) = Some (H1, rt1)"
    "rep H1 s rt1 k q t" "par H1 (rp s t) = Some q" "okctx k cs (if cs then bh t else Suc (bh t))"
    "invc t" "invh t" "cs \<longrightarrow> \<not> red t" "inorder (plug k t) = remove1 a (inorder T)" "keeps ?X H H1"
    using u unfolding unlinked_def by blast
  have "kd H1 a = kd H a" using 1(12) by (simp add: keeps_def)
  then obtain n where n: "H1 a = Some n" using Ha by (auto simp: kd_def get_def)
  let ?H2 = "H1(a \<mapsto> cleared n)"
  have at: "a \<notin> taddrs k t" "taddrs k t \<subseteq> set (inorder T)"
    using 1(11) a by (auto simp del: taddrs_iff simp: set_remove1_subset)
  then have aw: "a \<noteq> rp s t" using a(2) by (cases t) auto
  have "rep ?H2 s rt1 k q t" by (rule rep_upd_other [OF 1(5) at(1) a(2)])
  moreover have "par ?H2 (rp s t) = Some q" using 1(6) aw by (simp add: get_def)
  ultimately obtain H' rt' q' T' where H': "delete_finish cs ?H2 rt1 s (rp s t) = Some (H', rt')"
    "rep H' s rt' [] q' T'" "rbt_ok T'" "inorder T' = inorder (plug k t)" "keeps (insert s (taddrs k t)) ?H2 H'"
    using delete_finish_rep [of ?H2 s rt1 k q t cs] 1(7-10) by blast
  have "rbtree_delete H tree a = Some (H', tree\<lparr>rbt_root := rt'\<rparr>)"
    using 1(1-4) n H'(1) tree by (simp add: rbtree_delete_def clear_node_eq)
  moreover have "is_rbtree H' (tree\<lparr>rbt_root := rt'\<rparr>) (remove1 a (inorder T))"
    unfolding is_rbtree_def using H'(2-4) 1(11) tree by (intro exI [of _ q'] exI [of _ T']) simp
  moreover have "H' x = H x" if x: "x \<notin> ?X" for x
  proof -
    have "x \<notin> insert s (taddrs k t)" "x \<noteq> a" using x at(2) a(1) by blast+
    then show ?thesis using keepsD [OF 1(12) x] keepsD [OF H'(5), of x] by simp
  qed
  moreover have "\<forall>x. x \<noteq> a \<longrightarrow> kd H' x = kd H x"
    using H'(5) 1(12) by (auto simp: keeps_def kd_def get_def fun_eq_iff)
  moreover have "H' a = Some (cleared n)" using keepsD [OF H'(5), of a] at(1) a(2) by auto
  ultimately show ?thesis using tree unfolding deleted_to_def by auto
qed

lemma rbtree_delete_rep:
  assumes r: "rep H s rt [] q T" and ok: "rbt_ok T" and a: "a \<in> set (inorder T)"
    and tree: "rbt_root tree = rt" "rbt_sentinel tree = s"
  shows "\<exists>H' tree'. rbtree_delete H tree a = Some (H', tree') \<and> deleted_to H tree (inorder T) a H' tree'"
proof -
  obtain k c l r' where T: "T = plug k (Node c l a r')" using position_of a by blast
  then obtain q1 where r1: "rep H s rt k q1 (Node c l a r')" using rep_unplug r by blast
  have dist: "distinct (inorder T)" "s \<notin> set (inorder T)" using r by (auto simp: rep_def wf_pos_def)
  then have as: "a \<noteq> s" "a \<notin> set (remove1 a (inorder T))" "set (remove1 a (inorder T)) \<subseteq> set (inorder T)"
    using a by (auto simp: set_remove1_subset)
  obtain n where n: "H a = Some n" using r1 by (auto simp: rep_def node_at_iff)
  show ?thesis
  proof (cases "k = [] \<and> (l = Leaf \<or> r' = Leaf)")
    case True
    then obtain t where t: "l = Leaf \<and> t = r' \<or> r' = Leaf \<and> t = l" by blast
    have "rep H s rt [] q1 (Node c l a r')" "rbt_ok (Node c l a r')" using r1 True ok T by auto
    from delete_root_rep [OF this(1) t this(2)] obtain H' where
      H': "delete_choose H s a = Some (rp s t, rt)" "a = rt" "rbt_black H (rp s t) = Some H'"
      "rep H' s (rp s t) [] a (paint False t)" "rbt_ok (paint False t)"
      "inorder t = remove1 a (inorder T)" "keeps (insert s (set (inorder t))) H H'"
      using T True by auto
    have at: "a \<notin> set (inorder t)" "set (inorder t) \<subseteq> set (inorder T)" using as H'(6) by auto
    have "H' a = H a" using keepsD [OF H'(7)] at as by simp
    then have H'a: "H' a = Some n" using n by simp
    let ?H = "H'(a \<mapsto> cleared n)"
    have "rbtree_delete H tree a = Some (?H, tree\<lparr>rbt_root := rp s t\<rparr>)"
      using H'(1-3) H'a tree by (simp add: rbtree_delete_def clear_node_eq)
    moreover have "rep ?H s (rp s t) [] a (paint False t)"
      by (rule rep_upd_other [OF H'(4)]) (use at as in auto)
    then have "is_rbtree ?H (tree\<lparr>rbt_root := rp s t\<rparr>) (remove1 a (inorder T))"
      unfolding is_rbtree_def using H'(5,6) tree by (intro exI [of _ a] exI [of _ "paint False t"]) simp
    moreover have "\<forall>x. x \<notin> insert s (set (inorder T)) \<longrightarrow> ?H x = H x"
      using keepsD [OF H'(7)] at(2) a by auto
    moreover have "\<forall>x. x \<noteq> a \<longrightarrow> kd ?H x = kd H x" using H'(7) by (auto simp: keeps_def kd_def get_def fun_eq_iff)
    ultimately show ?thesis using tree unfolding deleted_to_def by auto
  next
    case False
    have "unlinked H s rt T a"
    proof (cases "l = Leaf \<or> r' = Leaf")
      case True
      then obtain t where t: "l = Leaf \<and> t = r' \<or> r' = Leaf \<and> t = l" by blast
      obtain f k1 where "k = f # k1" using True False by (meson neq_Nil_conv)
      then show ?thesis using unlink_single t r1 ok unfolding T by blast
    next
      case False
      then show ?thesis using unlink_two r1 ok unfolding T by blast
    qed
    then show ?thesis using delete_unlinked a as(1) dist(1) n tree by blast
  qed
qed

end
