(* ===== verification/Rbtree_Props.thy ===== *)
theory Rbtree_Props
  imports Rbtree_Delete
begin

text \<open>
  What \<^verbatim>\<open>src/rbtree.c\<close> promises its clients, in terms of \<open>is_rbtree H tree xs\<close>: the heap holds a
  red-black tree whose nodes in key order are \<open>xs\<close>. The locale \<open>timer_tree\<close> is the contract the
  timer code relies on, a queue of nodes ordered by a 32-bit key that wraps around; it is
  interpreted on the tree with \<open>rbtree_insert_timer_value\<close> as its insertion function.
\<close>

section \<open>Consequences for sequences\<close>

lemma is_rbtree_distinct:
  assumes "is_rbtree H tree xs"
  shows "distinct xs" "rbt_sentinel tree \<notin> set xs" "\<And>a. a \<in> set xs \<Longrightarrow> H a \<noteq> None" "H (rbt_sentinel tree) \<noteq> None"
proof -
  obtain q T where T: "rep H (rbt_sentinel tree) (rbt_root tree) [] q T" "inorder T = xs"
    using assms by (auto simp: is_rbtree_def)
  then show "distinct xs" "rbt_sentinel tree \<notin> set xs" by (auto simp: rep_def wf_pos_def)
  show "H (rbt_sentinel tree) \<noteq> None" using T by (auto simp: rep_def black_at_def split: option.splits)
  fix a assume "a \<in> set xs"
  then obtain k c l r where "T = plug k (Node c l a r)" using position_of T by metis
  then obtain q1 where "rep H (rbt_sentinel tree) (rbt_root tree) k q1 (Node c l a r)"
    using rep_unplug T by blast
  then show "H a \<noteq> None" by (auto simp: rep_def node_at_iff)
qed

lemma insert_seq:
  assumes t: "is_rbtree H tree xs" and i: "rbt_insert tree = insert_below lt"
    and n: "H node = Some n" "node \<notin> set xs" "node \<noteq> rbt_sentinel tree"
    and m: "sorted_wrt (\<lambda>a b. lt (rb_key n) (key_of H a) \<longrightarrow> lt (rb_key n) (key_of H b)) xs"
  shows "\<exists>H' tree'. rbtree_insert H tree node = Some (H', tree') \<and>
    is_rbtree H' tree' (filter (\<lambda>a. \<not> lt (rb_key n) (key_of H a)) xs @ node #
                        filter (\<lambda>a. lt (rb_key n) (key_of H a)) xs) \<and>
    rbt_sentinel tree' = rbt_sentinel tree \<and> rbt_insert tree' = rbt_insert tree \<and>
    keeps (insert node (set xs)) H H'"
proof -
  obtain q T where T: "rep H (rbt_sentinel tree) (rbt_root tree) [] q T" "rbt_ok T" "inorder T = xs"
    using t by (auto simp: is_rbtree_def)
  let ?go = "\<lambda>a. lt (rb_key n) (key_of H a)"
  let ?K = "leaf_ctx ?go T []"
  have "tree = \<lparr>rbt_root = rbt_root tree, rbt_sentinel = rbt_sentinel tree, rbt_insert = insert_below lt\<rparr>"
    using i by simp
  from rbtree_insert_rep [OF T(1,2) n(1) _ n(3) this refl] n(2) T(3) obtain H' tree' where
    "rbtree_insert H tree node = Some (H', tree')" "is_rbtree H' tree' (before ?K @ node # after ?K)"
    "rbt_sentinel tree' = rbt_sentinel tree" "rbt_insert tree' = insert_below lt"
    "keeps (insert node (set (inorder T))) H H'" by auto
  moreover have "before ?K = filter (\<lambda>a. \<not> ?go a) xs" "after ?K = filter ?go xs"
    using leaf_ctx_split [of ?go T "[]"] m T(3) by simp_all
  ultimately show ?thesis using i T(3) by auto
qed

lemma delete_seq:
  assumes "is_rbtree H tree xs" "a \<in> set xs"
  shows "\<exists>H' tree'. rbtree_delete H tree a = Some (H', tree') \<and> deleted_to H tree xs a H' tree'"
  using assms rbtree_delete_rep by (force simp: is_rbtree_def)

lemma min_seq:
  assumes "is_rbtree H tree xs" "xs \<noteq> []"
  shows "rbtree_min H (rbt_root tree) (rbt_sentinel tree) = Some (hd xs)"
proof -
  obtain q T where T: "rep H (rbt_sentinel tree) (rbt_root tree) [] q T" "inorder T = xs"
    using assms by (auto simp: is_rbtree_def)
  then have t: "tr H (rbt_sentinel tree) q T" "rbt_root tree = rp (rbt_sentinel tree) T" "T \<noteq> Leaf"
    "rbt_sentinel tree \<notin> set (inorder T)"
    using assms(2) by (auto simp: rep_def wf_pos_def)
  from min_rep [OF t(1,3,4)] obtain k c y r where
    "T = plug k (Node c Leaf y r)" "before k = []" "rbtree_min H (rp (rbt_sentinel tree) T) (rbt_sentinel tree) = Some y"
    by blast
  then show ?thesis using T(2) t(2) by (auto simp: inorder_plug)
qed

lemma empty_seq: "is_rbtree H tree xs \<Longrightarrow> (rbt_root tree = rbt_sentinel tree) = (xs = [])"
proof -
  assume "is_rbtree H tree xs"
  then obtain q T where T: "rep H (rbt_sentinel tree) (rbt_root tree) [] q T" "inorder T = xs"
    by (auto simp: is_rbtree_def)
  then show ?thesis by (cases T) (auto simp: rep_def wf_pos_def)
qed

lemma key_of_kd: "kd H' x = kd H x \<Longrightarrow> key_of H' x = key_of H x"
  by (cases "H x"; cases "H' x") (auto simp: kd_def get_def key_of_def)

lemma key_of_keeps: "keeps X H H' \<Longrightarrow> key_of H' = key_of H"
  by (auto simp: keeps_def fun_eq_iff intro: key_of_kd)

text \<open>Inserting by a comparison that is an order on the keys gives an ordered sequence.\<close>

lemma sorted_insert_filter:
  fixes f :: "addr \<Rightarrow> nat"
  assumes "sorted (map f xs)"
  shows "sorted (map f (filter (\<lambda>x. \<not> k < f x) xs)) \<and> sorted (map f (filter (\<lambda>x. k < f x) xs))"
    and "f node = k \<Longrightarrow> sorted (map f (filter (\<lambda>x. \<not> k < f x) xs @ node # filter (\<lambda>x. k < f x) xs))"
proof -
  show 1: "sorted (map f (filter (\<lambda>x. \<not> k < f x) xs)) \<and> sorted (map f (filter (\<lambda>x. k < f x) xs))"
    using assms by (simp add: sorted_filter)
  show "f node = k \<Longrightarrow> sorted (map f (filter (\<lambda>x. \<not> k < f x) xs @ node # filter (\<lambda>x. k < f x) xs))"
    using 1 by (auto simp: sorted_append)
qed

lemma insert_ordered:
  fixes f :: "addr \<Rightarrow> nat"
  assumes t: "is_rbtree H tree xs" and i: "rbt_insert tree = insert_below lt"
    and n: "H node = Some n" "node \<notin> set xs" "node \<noteq> rbt_sentinel tree"
    and f: "\<And>a. a \<in> set xs \<Longrightarrow> lt (rb_key n) (key_of H a) \<longleftrightarrow> f node < f a" and s: "sorted (map f xs)"
  shows "\<exists>H' tree' ys zs. rbtree_insert H tree node = Some (H', tree') \<and> xs = ys @ zs \<and>
    is_rbtree H' tree' (ys @ node # zs) \<and> sorted (map f (ys @ node # zs)) \<and> (\<forall>z\<in>set zs. f node < f z) \<and>
    rbt_sentinel tree' = rbt_sentinel tree \<and> rbt_insert tree' = rbt_insert tree \<and>
    keeps (insert node (set xs)) H H'"
proof -
  let ?ys = "filter (\<lambda>x. \<not> f node < f x) xs" and ?zs = "filter (\<lambda>x. f node < f x) xs"
  have ys: "filter (\<lambda>a. \<not> lt (rb_key n) (key_of H a)) xs = ?ys" "filter (\<lambda>a. lt (rb_key n) (key_of H a)) xs = ?zs"
    using f by (auto intro: filter_cong)
  have le: "sorted_wrt (\<lambda>a b. f a \<le> f b) xs" using s by (simp add: sorted_wrt_map)
  then have m: "sorted_wrt (\<lambda>a b. lt (rb_key n) (key_of H a) \<longrightarrow> lt (rb_key n) (key_of H b)) xs"
    by (rule sorted_wrt_mono_rel [rotated]) (use f in auto)
  have "xs = ?ys @ ?zs" using le
  proof (induction xs)
    case (Cons x xs)
    show ?case
    proof (cases "f node < f x")
      case True
      then have "\<forall>y\<in>set xs. f node < f y" using Cons.prems by auto
      then show ?thesis using True by (simp add: filter_empty_conv)
    qed (use Cons in auto)
  qed simp
  then show ?thesis using insert_seq [OF t i n m] sorted_insert_filter(2) [OF s refl] unfolding ys by fastforce
qed

section \<open>Keys that wrap around\<close>

text \<open>
  The position of a timer key on the clock, counted from a base: as long as all keys lie within
  half the range of the clock from some base, the signed comparison orders them by position,
  whether or not the clock wraps around in between.
\<close>

definition pos :: "u32 \<Rightarrow> u32 \<Rightarrow> nat" where
  "pos base k = unat (k - base)"

lemma int_less_pow31: "n < 2 ^ 31 \<Longrightarrow> int n < 2 ^ 31"
  by (metis of_nat_less_iff of_nat_numeral of_nat_power)

lemma sint_small: "unat (x :: u32) < 2 ^ 31 \<Longrightarrow> sint x = int (unat x)"
proof -
  assume "unat x < 2 ^ 31"
  then have "int (unat x) < 2 ^ 31" by (rule int_less_pow31)
  then have "uint x < 2 ^ 31" by simp
  moreover have "sint x = signed_take_bit 31 (uint x)" by (simp add: sint_uint)
  ultimately show ?thesis using uint_ge_0 [of x] by (simp add: signed_take_bit_int_eq_self)
qed

lemma sint_diff_window:
  assumes "pos base a < 2 ^ 31" "pos base b < 2 ^ 31"
  shows "sint (a - b) = int (pos base a) - int (pos base b)"
proof -
  have "sint (a - b) = sint ((a - base) - (b - base))" by simp
  also have "\<dots> = signed_take_bit 31 (sint (a - base) - sint (b - base))"
    by (simp only: sint_word_ariths(2)) simp
  also have "\<dots> = signed_take_bit 31 (int (pos base a) - int (pos base b))"
    using assms by (simp only: sint_small pos_def)
  also have "\<dots> = int (pos base a) - int (pos base b)"
    using assms [THEN int_less_pow31] by (intro signed_take_bit_int_eq_self) auto
  finally show ?thesis .
qed

lemma timer_less_pos:
  "pos base a < 2 ^ 31 \<Longrightarrow> pos base b < 2 ^ 31 \<Longrightarrow> timer_less a b \<longleftrightarrow> pos base a < pos base b"
  by (simp add: timer_less_def sint_diff_window)

section \<open>The contract of a timer tree\<close>

locale timer_tree =
  fixes rep :: "u32 \<Rightarrow> 's \<Rightarrow> addr list \<Rightarrow> bool"
    and key :: "'s \<Rightarrow> addr \<Rightarrow> u32"
    and live :: "'s \<Rightarrow> addr \<Rightarrow> bool"
    and ins :: "'s \<Rightarrow> addr \<Rightarrow> 's option"
    and del :: "'s \<Rightarrow> addr \<Rightarrow> 's option"
    and first :: "'s \<Rightarrow> addr option"
    and is_empty :: "'s \<Rightarrow> bool"
  assumes rep_order: "rep b s xs \<Longrightarrow> distinct xs \<and> sorted (map (\<lambda>a. pos b (key s a)) xs) \<and>
      (\<forall>a\<in>set xs. pos b (key s a) < 2 ^ 31 \<and> live s a)"
    and ins_law: "rep b s xs \<Longrightarrow> live s a \<Longrightarrow> a \<notin> set xs \<Longrightarrow> pos b (key s a) < 2 ^ 31 \<Longrightarrow>
      \<exists>s' ys zs. ins s a = Some s' \<and> xs = ys @ zs \<and> rep b s' (ys @ a # zs) \<and> key s' = key s \<and> live s' = live s"
    and del_law: "rep b s xs \<Longrightarrow> a \<in> set xs \<Longrightarrow>
      \<exists>s'. del s a = Some s' \<and> rep b s' (remove1 a xs) \<and> (\<forall>x. x \<noteq> a \<longrightarrow> key s' x = key s x) \<and> live s' = live s"
    and first_law: "rep b s xs \<Longrightarrow> xs \<noteq> [] \<Longrightarrow> first s = Some (hd xs)"
    and empty_law: "rep b s xs \<Longrightarrow> is_empty s = (xs = [])"
begin

lemma first_earliest:
  assumes "rep b s xs" "x \<in> set xs"
  shows "\<exists>f. first s = Some f \<and> f \<in> set xs \<and> pos b (key s f) \<le> pos b (key s x)"
proof -
  have "xs \<noteq> []" using assms(2) by auto
  moreover have "pos b (key s (hd xs)) \<le> pos b (key s x)"
    using rep_order [OF assms(1)] assms(2) by (cases xs) auto
  ultimately show ?thesis using first_law [OF assms(1)] by auto
qed

text \<open>A time within the window is compared with a key by the signed difference.\<close>

definition due :: "'s \<Rightarrow> u32 \<Rightarrow> addr \<Rightarrow> bool" where
  "due s now a \<longleftrightarrow> sint (key s a - now) \<le> 0"

lemma due_pos:
  assumes "rep b s xs" "a \<in> set xs" "pos b now < 2 ^ 31"
  shows "due s now a \<longleftrightarrow> pos b (key s a) \<le> pos b now"
  using sint_diff_window [of b "key s a" now] rep_order [OF assms(1)] assms by (simp add: due_def)

text \<open>The first node is due exactly if any node is.\<close>

lemma first_due_iff:
  assumes "rep b s xs" "xs \<noteq> []" "pos b now < 2 ^ 31"
  shows "due s now (hd xs) \<longleftrightarrow> (\<exists>a\<in>set xs. due s now a)"
proof
  assume "\<exists>a\<in>set xs. due s now a"
  then obtain a where a: "a \<in> set xs" "due s now a" by blast
  with first_earliest [OF assms(1) a(1)] first_law [OF assms(1,2)] due_pos [OF assms(1)] assms(2,3)
  show "due s now (hd xs)" by auto
qed (use assms(2) in auto)

lemma pop_first:
  assumes "rep b s (x # xs)"
  obtains s' where "del s x = Some s'" "rep b s' xs" "\<And>y. y \<in> set xs \<Longrightarrow> key s' y = key s y" "live s' = live s"
proof -
  have "x \<notin> set xs" using rep_order [OF assms] by auto
  with del_law [OF assms, of x] show thesis using that by fastforce
qed

lemma ins_then_del:
  assumes "rep b s xs" "live s a" "a \<notin> set xs" "pos b (key s a) < 2 ^ 31"
  shows "\<exists>s1 s2. ins s a = Some s1 \<and> del s1 a = Some s2 \<and> rep b s2 xs"
proof -
  obtain s1 ys zs where s1: "ins s a = Some s1" "xs = ys @ zs" "rep b s1 (ys @ a # zs)"
    using ins_law [OF assms] by blast
  then obtain s2 where "del s1 a = Some s2" "rep b s2 (remove1 a (ys @ a # zs))"
    using del_law [OF s1(3), of a] by auto
  moreover have "remove1 a (ys @ a # zs) = xs" using assms(3) s1(2) by (simp add: remove1_append)
  ultimately show ?thesis using s1(1) by auto
qed

end

section \<open>The red-black tree is a timer tree\<close>

definition tt_rep :: "u32 \<Rightarrow> rbheap \<times> rbtree_s \<Rightarrow> addr list \<Rightarrow> bool" where
  "tt_rep b s xs = (case s of (H, tree) \<Rightarrow>
     is_rbtree H tree xs \<and> rbt_insert tree = rbtree_insert_timer_value \<and>
     (\<forall>a\<in>set xs. pos b (key_of H a) < 2 ^ 31) \<and> sorted (map (\<lambda>a. pos b (key_of H a)) xs))"

definition tt_key :: "rbheap \<times> rbtree_s \<Rightarrow> addr \<Rightarrow> u32" where
  "tt_key s a = key_of (fst s) a"

definition tt_live :: "rbheap \<times> rbtree_s \<Rightarrow> addr \<Rightarrow> bool" where
  "tt_live s a \<longleftrightarrow> fst s a \<noteq> None \<and> a \<noteq> rbt_sentinel (snd s)"

definition tt_insert :: "rbheap \<times> rbtree_s \<Rightarrow> addr \<Rightarrow> (rbheap \<times> rbtree_s) option" where
  "tt_insert s a = rbtree_insert (fst s) (snd s) a"

definition tt_delete :: "rbheap \<times> rbtree_s \<Rightarrow> addr \<Rightarrow> (rbheap \<times> rbtree_s) option" where
  "tt_delete s a = rbtree_delete (fst s) (snd s) a"

definition tt_first :: "rbheap \<times> rbtree_s \<Rightarrow> addr option" where
  "tt_first s = rbtree_min (fst s) (rbt_root (snd s)) (rbt_sentinel (snd s))"

definition tt_empty :: "rbheap \<times> rbtree_s \<Rightarrow> bool" where
  "tt_empty s \<longleftrightarrow> rbt_root (snd s) = rbt_sentinel (snd s)"

lemmas tt_defs = tt_rep_def tt_key_def tt_live_def tt_insert_def tt_delete_def tt_first_def tt_empty_def

lemma kd_dom: "kd H' x = kd H x \<Longrightarrow> (H' x = None) = (H x = None)"
  by (cases "H x"; cases "H' x") (auto simp: kd_def get_def)

lemma tt_live_cong:
  assumes "\<And>x. (H' x = None) = (H x = None)" "rbt_sentinel tree' = rbt_sentinel tree"
  shows "tt_live (H', tree') = tt_live (H, tree)"
  using assms by (simp add: tt_live_def fun_eq_iff)

lemma tt_insert_law:
  assumes "tt_rep b s xs" "tt_live s a" "a \<notin> set xs" "pos b (tt_key s a) < 2 ^ 31"
  shows "\<exists>s' ys zs. tt_insert s a = Some s' \<and> xs = ys @ zs \<and> tt_rep b s' (ys @ a # zs) \<and>
    tt_key s' = tt_key s \<and> tt_live s' = tt_live s"
proof -
  obtain H tree where s: "s = (H, tree)" by fastforce
  obtain n where n: "H a = Some n" using assms(2) s by (auto simp: tt_defs)
  let ?f = "\<lambda>x. pos b (key_of H x)"
  have k: "rb_key n = key_of H a" using n by (simp add: key_of_def)
  have t: "is_rbtree H tree xs" "rbt_insert tree = insert_below timer_less" "a \<noteq> rbt_sentinel tree"
    "sorted (map ?f xs)" "\<forall>x\<in>set xs. ?f x < 2 ^ 31" "?f a < 2 ^ 31"
    using assms s by (auto simp: tt_defs rbtree_insert_timer_value_def)
  have f: "timer_less (rb_key n) (key_of H x) \<longleftrightarrow> ?f a < ?f x" if "x \<in> set xs" for x
    using that t(5,6) k by (simp add: timer_less_pos)
  from insert_ordered [OF t(1,2) n assms(3) t(3) f t(4)] obtain H' tree' ys zs where
    H': "rbtree_insert H tree a = Some (H', tree')" "xs = ys @ zs" "is_rbtree H' tree' (ys @ a # zs)"
    "sorted (map ?f (ys @ a # zs))" "rbt_sentinel tree' = rbt_sentinel tree"
    "rbt_insert tree' = rbt_insert tree" "keeps (insert a (set xs)) H H'" by blast
  note key = key_of_keeps [OF H'(7)]
  have "tt_rep b (H', tree') (ys @ a # zs)"
    using H' t key by (auto simp: tt_rep_def rbtree_insert_timer_value_def)
  moreover have "tt_live (H', tree') = tt_live s"
    unfolding s
  proof (rule tt_live_cong)
    show "(H' x = None) = (H x = None)" for x using kd_dom [of H' x H] H'(7) by (simp add: keeps_def)
  qed (rule H'(5))
  ultimately show ?thesis using H'(1,2) key s by (auto simp: tt_insert_def tt_key_def fun_eq_iff)
qed

lemma tt_delete_law:
  assumes "tt_rep b s xs" "a \<in> set xs"
  shows "\<exists>s'. tt_delete s a = Some s' \<and> tt_rep b s' (remove1 a xs) \<and>
    (\<forall>x. x \<noteq> a \<longrightarrow> tt_key s' x = tt_key s x) \<and> tt_live s' = tt_live s"
proof -
  obtain H tree where s: "s = (H, tree)" by fastforce
  have t: "is_rbtree H tree xs" "rbt_insert tree = rbtree_insert_timer_value"
    "sorted (map (\<lambda>x. pos b (key_of H x)) xs)" "\<forall>x\<in>set xs. pos b (key_of H x) < 2 ^ 31"
    using assms s by (auto simp: tt_defs)
  obtain H' tree' n where H': "rbtree_delete H tree a = Some (H', tree')" "is_rbtree H' tree' (remove1 a xs)"
    "rbt_sentinel tree' = rbt_sentinel tree" "rbt_insert tree' = rbt_insert tree"
    "\<forall>x. x \<noteq> a \<longrightarrow> kd H' x = kd H x" "H' a = Some (cleared n)"
    using delete_seq [OF t(1) assms(2)] unfolding deleted_to_def by blast
  have key: "\<And>x. x \<noteq> a \<Longrightarrow> key_of H' x = key_of H x" using H'(5) key_of_kd by blast
  have sub: "x \<in> set xs" "x \<noteq> a" if "x \<in> set (remove1 a xs)" for x
    using that is_rbtree_distinct(1) [OF t(1)] by auto
  have m: "map (\<lambda>x. pos b (key_of H' x)) (remove1 a xs) = map (\<lambda>x. pos b (key_of H x)) (remove1 a xs)"
    by (intro map_cong refl) (metis sub(2) key)
  have "sorted (map (\<lambda>x. pos b (key_of H' x)) (remove1 a xs))"
    unfolding m using t(3) by (rule sorted_map_remove1)
  moreover have "\<forall>x\<in>set (remove1 a xs). pos b (key_of H' x) < 2 ^ 31"
    by (metis sub key t(4))
  moreover have "rbt_insert tree' = rbtree_insert_timer_value" by (rule H'(4) [unfolded t(2)])
  ultimately have "tt_rep b (H', tree') (remove1 a xs)"
    unfolding tt_rep_def prod.case using H'(2) by (intro conjI)
  moreover have "tt_live (H', tree') = tt_live s"
    unfolding s
  proof (rule tt_live_cong)
    show "(H' x = None) = (H x = None)" for x
      using kd_dom [of H' x H] H'(5,6) is_rbtree_distinct(3) [OF t(1) assms(2)] by (cases "x = a") simp_all
  qed (rule H'(3))
  ultimately show ?thesis using H'(1) key s by (auto simp: tt_delete_def tt_key_def)
qed

interpretation tt: timer_tree tt_rep tt_key tt_live tt_insert tt_delete tt_first tt_empty
proof unfold_locales
  fix b s xs a
  show "distinct xs \<and> sorted (map (\<lambda>a. pos b (tt_key s a)) xs) \<and>
    (\<forall>a\<in>set xs. pos b (tt_key s a) < 2 ^ 31 \<and> tt_live s a)" if "tt_rep b s xs"
    using that is_rbtree_distinct [of "fst s" "snd s" xs] by (auto simp: tt_defs split: prod.splits)
  show "tt_first s = Some (hd xs)" if "tt_rep b s xs" "xs \<noteq> []"
    using that min_seq by (auto simp: tt_defs split: prod.splits)
  show "tt_empty s = (xs = [])" if "tt_rep b s xs"
    using that empty_seq by (auto simp: tt_defs split: prod.splits)
qed (use tt_insert_law tt_delete_law in blast)+

section \<open>Properties\<close>

text \<open>A concrete heap: the sentinel at 1, a one-node tree at 2 and two nodes outside the tree.\<close>

definition ex_node :: "u32 \<Rightarrow> rbtree_node_s" where
  "ex_node k = \<lparr>rb_key = k, rb_left = 1, rb_right = 1, rb_parent = 0, rb_color = 0, rb_data = 0\<rparr>"

definition ex_heap :: rbheap where
  "ex_heap = [1 \<mapsto> ex_node 0, 2 \<mapsto> ex_node 10, 3 \<mapsto> ex_node 20, 4 \<mapsto> ex_node 5]"

definition ex_tree :: "(rbheap \<Rightarrow> addr \<Rightarrow> addr \<Rightarrow> addr \<Rightarrow> rbheap option) \<Rightarrow> rbtree_s" where
  "ex_tree f = \<lparr>rbt_root = 2, rbt_sentinel = 1, rbt_insert = f\<rparr>"

lemmas ex_defs = ex_node_def ex_heap_def ex_tree_def

lemma ex_is_rbtree: "is_rbtree ex_heap (ex_tree f) [2]"
proof -
  have "rep ex_heap 1 2 [] 0 (Node False Leaf 2 Leaf)"
    by (simp add: rep_def wf_pos_def black_at_def node_at_def ex_defs)
  then show ?thesis
    unfolding is_rbtree_def by (intro exI [of _ 0] exI [of _ "Node False Leaf 2 Leaf"])
      (simp add: rbt_ok_def ex_tree_def)
qed

lemma ex_tt_rep: "tt_rep 0 (ex_heap, ex_tree rbtree_insert_timer_value) [2]"
proof -
  have "pos 0 (key_of ex_heap 2) < 2 ^ 31" by (simp add: pos_def key_of_def ex_defs)
  moreover have "rbt_insert (ex_tree rbtree_insert_timer_value) = rbtree_insert_timer_value" by (simp add: ex_tree_def)
  ultimately show ?thesis unfolding tt_rep_def prod.case using ex_is_rbtree by simp
qed

text \<open>
  \<open>rbtree_init\<close> makes the sentinel black and the tree an empty red-black tree, whatever the
  sentinel object held before.
\<close>

theorem rbtree_init_empty:
  assumes "H s = Some n"
  shows "\<exists>H' tree. rbtree_init H s f = Some (H', tree) \<and> is_rbtree H' tree [] \<and>
    rbt_sentinel tree = s \<and> rbt_insert tree = f \<and> (\<forall>x. x \<noteq> s \<longrightarrow> H' x = H x)"
proof -
  let ?H = "H(s \<mapsto> n\<lparr>rb_color := 0\<rparr>)" and ?t = "\<lparr>rbt_root = s, rbt_sentinel = s, rbt_insert = f\<rparr>"
  have "rbtree_init H s f = Some (?H, ?t)"
    using assms by (simp add: rbtree_init_def rbtree_sentinel_init_def rbt_black_def put_def)
  moreover have "rep ?H s s [] 0 Leaf" by (simp add: rep_def wf_pos_def black_at_def)
  then have "is_rbtree ?H ?t []"
    unfolding is_rbtree_def by (intro exI [of _ 0] exI [of _ Leaf]) (simp add: rbt_ok_def)
  ultimately show ?thesis by (intro exI [of _ ?H] exI [of _ ?t]) simp
qed

theorem rbtree_init_empty_witness:
  "\<exists>H' tree. rbtree_init ex_heap 1 rbtree_insert_value = Some (H', tree) \<and> is_rbtree H' tree []"
proof -
  have "ex_heap 1 = Some (ex_node 0)" by (simp add: ex_heap_def)
  from rbtree_init_empty [of ex_heap 1 "ex_node 0" rbtree_insert_value, OF this] show ?thesis by blast
qed

text \<open>
  Inserting a node with \<open>rbtree_insert_value\<close> into a red-black tree whose keys are ordered
  terminates without an invalid access and leaves a red-black tree with the old nodes in their
  order and the new one after all nodes with a key not greater than its own; nothing outside the
  tree is stored to and no key changes.
\<close>

theorem rbtree_insert_value_correct:
  assumes "is_rbtree H tree xs" "rbt_insert tree = rbtree_insert_value" "sorted (map (key_of H) xs)"
    "H node = Some n" "node \<notin> set xs" "node \<noteq> rbt_sentinel tree"
  shows "\<exists>H' tree' ys zs. rbtree_insert H tree node = Some (H', tree') \<and> xs = ys @ zs \<and>
    is_rbtree H' tree' (ys @ node # zs) \<and> sorted (map (key_of H') (ys @ node # zs)) \<and>
    (\<forall>z\<in>set zs. rb_key n < key_of H z) \<and> keeps (insert node (set xs)) H H'"
proof -
  have k: "rb_key n = key_of H node" using assms(4) by (simp add: key_of_def)
  have s: "sorted (map (\<lambda>a. unat (key_of H a)) xs)"
    using assms(3) by (simp add: sorted_wrt_map word_le_nat_alt)
  have i: "rbt_insert tree = insert_below key_less" using assms(2) by (simp add: rbtree_insert_value_def)
  have f: "key_less (rb_key n) (key_of H a) \<longleftrightarrow> unat (key_of H node) < unat (key_of H a)" for a
    using k by (simp add: key_less_def word_less_nat_alt)
  from insert_ordered [OF assms(1) i assms(4-6) f s] obtain H' tree' ys zs where
    H': "rbtree_insert H tree node = Some (H', tree')" "xs = ys @ zs" "is_rbtree H' tree' (ys @ node # zs)"
    "sorted (map (\<lambda>a. unat (key_of H a)) (ys @ node # zs))"
    "\<forall>z\<in>set zs. unat (key_of H node) < unat (key_of H z)" "keeps (insert node (set xs)) H H'" by blast
  have "sorted (map (key_of H') (ys @ node # zs))"
    using H'(4) key_of_keeps [OF H'(6)] unfolding sorted_map by (simp add: word_le_nat_alt)
  moreover have "\<forall>z\<in>set zs. rb_key n < key_of H z" using H'(5) k by (simp add: word_less_nat_alt)
  ultimately show ?thesis using H' by blast
qed

theorem rbtree_insert_value_correct_witness:
  "\<exists>H' tree' ys zs. rbtree_insert ex_heap (ex_tree rbtree_insert_value) 3 = Some (H', tree') \<and> [2] = ys @ zs \<and>
    is_rbtree H' tree' (ys @ 3 # zs)"
proof -
  have "ex_heap 3 = Some (ex_node 20)" "rbt_insert (ex_tree rbtree_insert_value) = rbtree_insert_value"
    "sorted (map (key_of ex_heap) [2])" "(3::addr) \<notin> set [2]" "3 \<noteq> rbt_sentinel (ex_tree rbtree_insert_value)"
    by (simp_all add: ex_heap_def ex_tree_def)
  from rbtree_insert_value_correct [OF ex_is_rbtree this(2,3,1,4,5)] show ?thesis by blast
qed

text \<open>
  C14: inserting a node with \<open>rbtree_insert_timer_value\<close>, whose signed comparison orders the nodes by
  their position on the 32-bit clock, leaves a red-black tree ordered by that clock: if all keys and the new one lie less than half the range of the
  clock after some base, the nodes stay in the order of their distance from it, also when the
  clock wraps around between them.
\<close>

theorem rbtree_insert_timer_correct:
  assumes "tt_rep base (H, tree) xs" "H node \<noteq> None" "node \<notin> set xs" "node \<noteq> rbt_sentinel tree"
    "pos base (key_of H node) < 2 ^ 31"
  shows "\<exists>H' tree' ys zs. rbtree_insert H tree node = Some (H', tree') \<and> xs = ys @ zs \<and>
    is_rbtree H' tree' (ys @ node # zs) \<and> sorted (map (\<lambda>a. pos base (key_of H' a)) (ys @ node # zs)) \<and>
    key_of H' = key_of H"
proof -
  obtain H' tree' ys zs where "rbtree_insert H tree node = Some (H', tree')" "xs = ys @ zs"
    "tt_rep base (H', tree') (ys @ node # zs)" "key_of H' = key_of H"
    using tt.ins_law [OF assms(1), of node] assms(2-5)
    by (auto simp: tt_live_def tt_key_def tt_insert_def fun_eq_iff)
  moreover from this(3) have "is_rbtree H' tree' (ys @ node # zs)"
    "sorted (map (\<lambda>a. pos base (key_of H' a)) (ys @ node # zs))"
    unfolding tt_rep_def prod.case by blast+
  ultimately show ?thesis by blast
qed

theorem rbtree_insert_timer_correct_witness:
  "\<exists>H' tree' ys zs. rbtree_insert ex_heap (ex_tree rbtree_insert_timer_value) 4 = Some (H', tree') \<and>
    [2] = ys @ zs \<and> is_rbtree H' tree' (ys @ 4 # zs)"
proof -
  have "ex_heap 4 \<noteq> None" "(4::addr) \<notin> set [2]" "4 \<noteq> rbt_sentinel (ex_tree rbtree_insert_timer_value)"
    "pos 0 (key_of ex_heap 4) < 2 ^ 31" by (simp_all add: ex_defs pos_def key_of_def)
  from rbtree_insert_timer_correct [OF ex_tt_rep this] show ?thesis by blast
qed

text \<open>
  C7: deleting a node of the tree terminates without an invalid access and leaves a red-black
  tree with the remaining nodes in their order; besides the tree's nodes only the sentinel is
  stored to, no remaining node changes its key, and the node that was taken out has its links and
  its key cleared.
\<close>

theorem rbtree_delete_correct:
  assumes "is_rbtree H tree xs" "a \<in> set xs"
  shows "\<exists>H' tree' n. rbtree_delete H tree a = Some (H', tree') \<and> is_rbtree H' tree' (remove1 a xs) \<and>
    rbt_sentinel tree' = rbt_sentinel tree \<and>
    (\<forall>x. x \<notin> insert (rbt_sentinel tree) (set xs) \<longrightarrow> H' x = H x) \<and>
    (\<forall>x. x \<noteq> a \<longrightarrow> kd H' x = kd H x) \<and>
    H' a = Some (n\<lparr>rb_left := 0, rb_right := 0, rb_parent := 0, rb_key := 0\<rparr>)"
  using delete_seq [OF assms] unfolding deleted_to_def cleared_def by blast

theorem rbtree_delete_correct_witness:
  "\<exists>H' tree'. rbtree_delete ex_heap (ex_tree rbtree_insert_value) 2 = Some (H', tree') \<and> is_rbtree H' tree' []"
proof -
  have "(2::addr) \<in> set [2]" by simp
  from rbtree_delete_correct [OF ex_is_rbtree this] show ?thesis by fastforce
qed

text \<open>
  Deleting a node right after inserting it gives a red-black tree with the nodes there were
  before, in the same order.
\<close>

theorem rbtree_insert_delete_roundtrip:
  assumes "tt_rep base (H, tree) xs" "H node \<noteq> None" "node \<notin> set xs" "node \<noteq> rbt_sentinel tree"
    "pos base (key_of H node) < 2 ^ 31"
  shows "\<exists>H1 tree1 H2 tree2. rbtree_insert H tree node = Some (H1, tree1) \<and>
    rbtree_delete H1 tree1 node = Some (H2, tree2) \<and> is_rbtree H2 tree2 xs"
proof -
  obtain s1 s2 where "tt_insert (H, tree) node = Some s1" "tt_delete s1 node = Some s2" "tt_rep base s2 xs"
    using tt.ins_then_del [OF assms(1), of node] assms(2-5) by (auto simp: tt_live_def tt_key_def)
  then show ?thesis by (cases s1; cases s2) (auto simp: tt_insert_def tt_delete_def tt_rep_def)
qed

theorem rbtree_insert_delete_roundtrip_witness:
  "\<exists>H1 tree1 H2 tree2. rbtree_insert ex_heap (ex_tree rbtree_insert_timer_value) 4 = Some (H1, tree1) \<and>
    rbtree_delete H1 tree1 4 = Some (H2, tree2) \<and> is_rbtree H2 tree2 [2]"
proof -
  have "ex_heap 4 \<noteq> None" "(4::addr) \<notin> set [2]" "4 \<noteq> rbt_sentinel (ex_tree rbtree_insert_timer_value)"
    "pos 0 (key_of ex_heap 4) < 2 ^ 31" by (simp_all add: ex_defs pos_def key_of_def)
  from rbtree_insert_delete_roundtrip [OF ex_tt_rep this] show ?thesis by blast
qed

text \<open>
  The length of every path of a red-black tree is logarithmic in the number of its nodes, and
  \<open>rbtree_min\<close>, which follows the leftmost one, returns the first node in key order.
\<close>

theorem rbtree_min_height:
  assumes "is_rbtree H tree xs" "xs \<noteq> []"
  shows "rbtree_min H (rbt_root tree) (rbt_sentinel tree) = Some (hd xs) \<and>
    (\<exists>q T. rep H (rbt_sentinel tree) (rbt_root tree) [] q T \<and> inorder T = xs \<and>
      2 ^ height T \<le> (Suc (length xs)) ^ 2)"
  using min_seq [OF assms] assms(1) rbt_ok_height unfolding is_rbtree_def by blast

theorem rbtree_min_height_witness:
  "rbtree_min ex_heap 2 1 = Some 2"
proof -
  have "[2::addr] \<noteq> []" by simp
  from rbtree_min_height [OF ex_is_rbtree [of rbtree_insert_value] this] show ?thesis by (simp add: ex_tree_def)
qed

end
