(* ===== verification/Event_Timer.thy ===== *)
theory Event_Timer
  imports Rbtree_Props
begin

text \<open>
  The timers of \<^verbatim>\<open>src/event_timer.c\<close> and \<^verbatim>\<open>src/event_timer.h\<close>: events are objects of a heap, their
  \<open>timer\<close> fields are nodes of the red-black tree \<open>event_timer_rbtree\<close>. The clock is a sequence of
  readings, one per call of \<open>gettimeofday\<close>; the event handlers are a parameter of the two loops.

  \<open>timers_ok b st evs\<close> says that the tree holds the timers of exactly the events \<open>evs\<close>, in the
  order of their expiry, and that every event's \<open>timer_set\<close> flag says whether it is one of them.
  The operations are proved to maintain it over the contract \<open>timer_tree\<close> of the tree, and the
  expiry loop to end with no timer left that is due.
\<close>

section \<open>Events and the timer state\<close>

datatype event_handler =
    NoHandler
  | H_dns_process_event
  | H_dns_timeout_handler
  | H_http_read_event_process
  | H_http_write_event_process
  | H_ssl_handshake_handler
  | H_ssl_write_handler
  | H_ssl_read_handler

record event_s =
  ev_data :: addr
  ev_active :: bool
  ev_ready :: bool
  ev_timedout :: bool
  ev_timer_set :: bool
  ev_pending_eof :: bool
  ev_eof :: bool
  ev_error :: bool
  ev_handler :: event_handler

record ev_state =
  theap :: rbheap
  ttree :: rbtree_s
  events :: "addr \<rightharpoonup> event_s"
  clock :: "nat \<Rightarrow> int \<times> int"
  ticks :: nat

text \<open>The address of an event's \<open>timer\<close> field and back: \<open>offsetof(event_t, timer)\<close> is 16.\<close>

definition timer_node :: "addr \<Rightarrow> addr" where
  "timer_node ev = ev + 16"

definition event_of :: "addr \<Rightarrow> addr" where
  "event_of node = node - 16"

definition upd_event :: "('a ev_state_scheme) \<Rightarrow> addr \<Rightarrow> (event_s \<Rightarrow> event_s) \<Rightarrow> ('a ev_state_scheme) option" where
  "upd_event st ev f =
     (case events st ev of None \<Rightarrow> None | Some e \<Rightarrow> Some (st\<lparr>events := (events st)(ev \<mapsto> f e)\<rparr>))"

definition gettimeofday :: "'a ev_state_scheme \<Rightarrow> (int \<times> int) \<times> 'a ev_state_scheme" where
  "gettimeofday st = (clock st (ticks st), st\<lparr>ticks := Suc (ticks st)\<rparr>)"

text \<open>\<open>tv.tv_sec * 1000 + tv.tv_usec / 1000\<close>, converted to 32 bits.\<close>

definition msec :: "int \<times> int \<Rightarrow> u32" where
  "msec tv = word_of_int (fst tv * 1000 + snd tv sdiv 1000)"

definition TIMER_INFINITE :: u32 where "TIMER_INFINITE = - 1"

definition TIMER_LAZY_DELAY :: int where "TIMER_LAZY_DELAY = 300"

section \<open>The operations\<close>

definition event_timer_init :: "addr \<Rightarrow> 'a ev_state_scheme \<Rightarrow> ('a ev_state_scheme) option" where
  "event_timer_init event_timer_sentinel st =
     do { (H, tree) \<leftarrow> rbtree_init (theap st) event_timer_sentinel rbtree_insert_timer_value;
          Some (st\<lparr>theap := H, ttree := tree\<rparr>) }"

text \<open>The links of a node are cleared after its deletion from the tree.\<close>

definition clear_links :: "rbheap \<Rightarrow> addr \<Rightarrow> rbheap option" where
  "clear_links H node = do { H \<leftarrow> set_left 0 H node; H \<leftarrow> set_right 0 H node; set_parent 0 H node }"

definition event_del_timer :: "'a ev_state_scheme \<Rightarrow> addr \<Rightarrow> ('a ev_state_scheme) option" where
  "event_del_timer st ev =
     do { (H, tree) \<leftarrow> rbtree_delete (theap st) (ttree st) (timer_node ev);
          H \<leftarrow> clear_links H (timer_node ev);
          upd_event (st\<lparr>theap := H, ttree := tree\<rparr>) ev (ev_timer_set_update (\<lambda>_. False)) }"

definition timer_link :: "'a ev_state_scheme \<Rightarrow> addr \<Rightarrow> u32 \<Rightarrow> ('a ev_state_scheme) option" where
  "timer_link st ev key =
     do { H \<leftarrow> set_key key (theap st) (timer_node ev);
          (H, tree) \<leftarrow> rbtree_insert H (ttree st) (timer_node ev);
          upd_event (st\<lparr>theap := H, ttree := tree\<rparr>) ev (ev_timer_set_update (\<lambda>_. True)) }"

text \<open>\<open>abs\<close> of the most negative integer is undefined.\<close>

definition c_abs :: "int \<Rightarrow> int option" where
  "c_abs d = (if d = - (2 ^ 31) then None else Some \<bar>d\<bar>)"

definition event_add_timer :: "'a ev_state_scheme \<Rightarrow> addr \<Rightarrow> u32 \<Rightarrow> ('a ev_state_scheme) option" where
  "event_add_timer st ev timer =
     do { (tv, st) \<leftarrow> Some (gettimeofday st);
          key \<leftarrow> Some (msec tv + timer);
          e \<leftarrow> events st ev;
          if ev_timer_set e
          then do { k \<leftarrow> get rb_key (theap st) (timer_node ev);
                    d \<leftarrow> c_abs (sint (key - k));
                    if d < TIMER_LAZY_DELAY then Some st
                    else do { st \<leftarrow> event_del_timer st ev; timer_link st ev key } }
          else timer_link st ev key }"

definition event_find_timer :: "'a ev_state_scheme \<Rightarrow> (u32 \<times> 'a ev_state_scheme) option" where
  "event_find_timer st =
     (if rbt_root (ttree st) = rbt_sentinel (ttree st) then Some (TIMER_INFINITE, st)
      else do { node \<leftarrow> rbtree_min (theap st) (rbt_root (ttree st)) (rbt_sentinel (ttree st));
                (tv, st) \<leftarrow> Some (gettimeofday st);
                k \<leftarrow> get rb_key (theap st) node;
                timer \<leftarrow> Some (sint (k - msec tv));
                Some (if timer > 0 then word_of_int timer else 0, st) })"

partial_function (option) event_expire_timers ::
  "(event_handler \<Rightarrow> addr \<Rightarrow> 'a ev_state_scheme \<Rightarrow> ('a ev_state_scheme) option) \<Rightarrow> 'a ev_state_scheme \<Rightarrow>
   ('a ev_state_scheme) option" where
  "event_expire_timers call st =
     (if rbt_root (ttree st) = rbt_sentinel (ttree st) then Some st
      else do { node \<leftarrow> rbtree_min (theap st) (rbt_root (ttree st)) (rbt_sentinel (ttree st));
                (tv, st) \<leftarrow> Some (gettimeofday st);
                k \<leftarrow> get rb_key (theap st) node;
                if sint (k - msec tv) > 0 then Some st
                else do { ev \<leftarrow> Some (event_of node);
                          st \<leftarrow> event_del_timer st ev;
                          st \<leftarrow> upd_event st ev (ev_timedout_update (\<lambda>_. True));
                          e \<leftarrow> events st ev;
                          st \<leftarrow> call (ev_handler e) ev st;
                          event_expire_timers call st } })"

partial_function (option) event_cancel_timers ::
  "(event_handler \<Rightarrow> addr \<Rightarrow> 'a ev_state_scheme \<Rightarrow> ('a ev_state_scheme) option) \<Rightarrow> 'a ev_state_scheme \<Rightarrow>
   ('a ev_state_scheme) option" where
  "event_cancel_timers call st =
     (if rbt_root (ttree st) = rbt_sentinel (ttree st) then Some st
      else do { node \<leftarrow> rbtree_min (theap st) (rbt_root (ttree st)) (rbt_sentinel (ttree st));
                ev \<leftarrow> Some (event_of node);
                st \<leftarrow> event_del_timer st ev;
                e \<leftarrow> events st ev;
                st \<leftarrow> call (ev_handler e) ev st;
                event_cancel_timers call st })"

section \<open>The invariant\<close>

definition timers_ok :: "u32 \<Rightarrow> 'a ev_state_scheme \<Rightarrow> addr list \<Rightarrow> bool" where
  "timers_ok b st evs \<longleftrightarrow> tt_rep b (theap st, ttree st) (map timer_node evs) \<and>
     (\<forall>ev e. events st ev = Some e \<longrightarrow> tt_live (theap st, ttree st) (timer_node ev) \<and>
        (ev_timer_set e \<longleftrightarrow> ev \<in> set evs)) \<and> set evs \<subseteq> dom (events st)"

text \<open>When an event's timer expires.\<close>

definition expiry :: "'a ev_state_scheme \<Rightarrow> addr \<Rightarrow> u32" where
  "expiry st ev = key_of (theap st) (timer_node ev)"

lemma timer_node_inj [simp]: "timer_node a = timer_node b \<longleftrightarrow> a = b"
  by (simp add: timer_node_def)

lemma event_of_timer_node [simp]: "event_of (timer_node ev) = ev"
  by (simp add: timer_node_def event_of_def)

lemma inj_timer_node: "inj_on timer_node A"
  by (simp add: inj_on_def)

lemma timer_node_in [simp]: "timer_node ev \<in> timer_node ` A \<longleftrightarrow> ev \<in> A"
  by auto

lemma remove1_map_timer_node: "remove1 (timer_node ev) (map timer_node evs) = map timer_node (remove1 ev evs)"
  by (induction evs) auto

lemma timers_ok_order:
  assumes "timers_ok b st evs"
  shows "distinct evs" "sorted (map (\<lambda>ev. pos b (expiry st ev)) evs)"
    "ev \<in> set evs \<Longrightarrow> pos b (expiry st ev) < 2 ^ 31" "ev \<in> set evs \<Longrightarrow> events st ev \<noteq> None"
  using assms tt.rep_order [of b "(theap st, ttree st)" "map timer_node evs"]
  by (auto simp: timers_ok_def tt_key_def expiry_def comp_def distinct_map)

section \<open>Deleting and adding one timer\<close>

lemma tt_delete_node:
  assumes "tt_rep b (H, tree) xs" "a \<in> set xs"
  obtains H' tree' where "rbtree_delete H tree a = Some (H', tree')" "tt_rep b (H', tree') (remove1 a xs)"
    "\<And>x. x \<noteq> a \<Longrightarrow> key_of H' x = key_of H x" "tt_live (H', tree') = tt_live (H, tree)"
    "clear_links H' a = Some H'"
proof -
  obtain s' where s': "tt_delete (H, tree) a = Some s'" "tt_rep b s' (remove1 a xs)"
    "\<forall>x. x \<noteq> a \<longrightarrow> tt_key s' x = tt_key (H, tree) x" "tt_live s' = tt_live (H, tree)"
    using tt.del_law [OF assms] by blast
  obtain H' tree' where p: "s' = (H', tree')" by fastforce
  have t: "is_rbtree H tree xs" using assms(1) by (auto simp: tt_rep_def)
  obtain n where "H' a = Some (cleared n)"
    using delete_seq [OF t assms(2)] s'(1) p by (auto simp: deleted_to_def tt_delete_def)
  then have "clear_links H' a = Some H'"
    by (auto simp: clear_links_def put_def cleared_def fun_upd_idem)
  with s' p that show thesis by (simp add: tt_delete_def tt_key_def)
qed

lemma del_timer_ok:
  assumes ok: "timers_ok b st evs" and ev: "ev \<in> set evs" "events st ev = Some e"
  obtains H tree st' where "event_del_timer st ev = Some st'"
    "st' = st\<lparr>theap := H, ttree := tree, events := (events st)(ev \<mapsto> e\<lparr>ev_timer_set := False\<rparr>)\<rparr>"
    "timers_ok b st' (remove1 ev evs)" "\<And>x. x \<noteq> ev \<Longrightarrow> expiry st' x = expiry st x"
proof -
  have r: "tt_rep b (theap st, ttree st) (map timer_node evs)" "timer_node ev \<in> set (map timer_node evs)"
    using ok ev by (auto simp: timers_ok_def)
  from tt_delete_node [OF r] obtain H tree where
    H: "rbtree_delete (theap st) (ttree st) (timer_node ev) = Some (H, tree)"
    "tt_rep b (H, tree) (map timer_node (remove1 ev evs))"
    "\<And>x. x \<noteq> timer_node ev \<Longrightarrow> key_of H x = key_of (theap st) x"
    "tt_live (H, tree) = tt_live (theap st, ttree st)" "clear_links H (timer_node ev) = Some H"
    unfolding remove1_map_timer_node by metis
  let ?st = "st\<lparr>theap := H, ttree := tree, events := (events st)(ev \<mapsto> e\<lparr>ev_timer_set := False\<rparr>)\<rparr>"
  have "event_del_timer st ev = Some ?st"
    using H(1,5) ev by (simp add: event_del_timer_def upd_event_def)
  moreover have "timers_ok b ?st (remove1 ev evs)"
    using ok H(2,4) ev timers_ok_order(1) [OF ok] by (auto simp: timers_ok_def)
  moreover have "\<And>x. x \<noteq> ev \<Longrightarrow> expiry ?st x = expiry st x" using H(3) by (simp add: expiry_def)
  ultimately show thesis using that by blast
qed

lemma tt_rep_upd:
  assumes "tt_rep b (H, tree) xs" "a \<notin> set xs" "a \<noteq> rbt_sentinel tree"
  shows "tt_rep b (H(a \<mapsto> n), tree) xs"
proof -
  have key: "key_of (H(a \<mapsto> n)) x = key_of H x" if "x \<noteq> a" for x
    using that by (simp add: key_of_def)
  then have "\<forall>x\<in>set xs. key_of (H(a \<mapsto> n)) x = key_of H x" using assms(2) by metis
  then have m: "map (\<lambda>x. pos b (key_of (H(a \<mapsto> n)) x)) xs = map (\<lambda>x. pos b (key_of H x)) xs"
    "\<forall>x\<in>set xs. pos b (key_of (H(a \<mapsto> n)) x) = pos b (key_of H x)" by auto
  have "is_rbtree (H(a \<mapsto> n)) tree xs"
    using assms rep_upd_other [of H "rbt_sentinel tree" "rbt_root tree" "[]"]
    unfolding tt_rep_def is_rbtree_def prod.case by fastforce
  then show ?thesis using assms(1) m(2) unfolding tt_rep_def prod.case m(1) by simp
qed

lemma timer_link_ok:
  assumes ok: "timers_ok b st evs" and ev: "ev \<notin> set evs" "events st ev = Some e" and k: "pos b k < 2 ^ 31"
  obtains H tree st' ys zs where "timer_link st ev k = Some st'" "evs = ys @ zs"
    "st' = st\<lparr>theap := H, ttree := tree, events := (events st)(ev \<mapsto> e\<lparr>ev_timer_set := True\<rparr>)\<rparr>"
    "timers_ok b st' (ys @ ev # zs)" "expiry st' ev = k" "\<And>x. x \<noteq> ev \<Longrightarrow> expiry st' x = expiry st x"
proof -
  have r: "tt_rep b (theap st, ttree st) (map timer_node evs)" "tt_live (theap st, ttree st) (timer_node ev)"
    using ok ev by (auto simp: timers_ok_def)
  then obtain n where n: "theap st (timer_node ev) = Some n" "timer_node ev \<noteq> rbt_sentinel (ttree st)"
    by (auto simp: tt_live_def)
  let ?H = "(theap st)(timer_node ev \<mapsto> n\<lparr>rb_key := k\<rparr>)"
  have r1: "tt_rep b (?H, ttree st) (map timer_node evs)"
    by (rule tt_rep_upd [OF r(1) _ n(2)]) (use ev in auto)
  have l1: "tt_live (?H, ttree st) = tt_live (theap st, ttree st)"
    using n by (auto simp: tt_live_def fun_eq_iff)
  have k1: "tt_key (?H, ttree st) (timer_node ev) = k" by (simp add: tt_key_def key_of_def)
  obtain s' us vs where s': "tt_insert (?H, ttree st) (timer_node ev) = Some s'" "map timer_node evs = us @ vs"
    "tt_rep b s' (us @ timer_node ev # vs)" "tt_key s' = tt_key (?H, ttree st)" "tt_live s' = tt_live (?H, ttree st)"
    using tt.ins_law [OF r1, of "timer_node ev"] r(2) l1 k1 k ev(1) by auto
  obtain H tree where p: "s' = (H, tree)" by fastforce
  obtain ys zs where yz: "evs = ys @ zs" "us = map timer_node ys" "vs = map timer_node zs"
    using s'(2) by (metis map_eq_append_conv)
  let ?st = "st\<lparr>theap := H, ttree := tree, events := (events st)(ev \<mapsto> e\<lparr>ev_timer_set := True\<rparr>)\<rparr>"
  have "timer_link st ev k = Some ?st"
    using n s'(1) p ev by (simp add: timer_link_def put_def tt_insert_def upd_event_def)
  moreover have "timers_ok b ?st (ys @ ev # zs)"
    using ok s'(3,5) p yz l1 ev by (auto simp: timers_ok_def)
  moreover have "expiry ?st ev = k" "\<And>x. x \<noteq> ev \<Longrightarrow> expiry ?st x = expiry st x"
    using s'(4) p k1 by (auto simp: expiry_def tt_key_def fun_eq_iff key_of_def)
  ultimately show thesis using that yz(1) by blast
qed

lemma timers_ok_ticks [simp]: "timers_ok b (st\<lparr>ticks := n\<rparr>) evs = timers_ok b st evs"
  "expiry (st\<lparr>ticks := n\<rparr>) = expiry st"
  by (simp_all add: timers_ok_def expiry_def fun_eq_iff)

lemma get_key_expiry:
  assumes "timers_ok b st evs" "ev \<in> set evs"
  shows "get rb_key (theap st) (timer_node ev) = Some (expiry st ev)"
proof -
  have "theap st (timer_node ev) \<noteq> None"
    using assms tt.rep_order [of b "(theap st, ttree st)" "map timer_node evs"]
    by (auto simp: timers_ok_def tt_live_def)
  then show ?thesis by (auto simp: get_def expiry_def key_of_def)
qed

lemma add_timer_ok:
  assumes ok: "timers_ok b st evs" and ev: "events st ev = Some e"
    and k: "k = msec (clock st (ticks st)) + t" "pos b k < 2 ^ 31"
  shows "\<exists>st' evs'. event_add_timer st ev t = Some st' \<and> timers_ok b st' evs' \<and> set evs' = insert ev (set evs) \<and>
    (\<forall>x. x \<noteq> ev \<longrightarrow> expiry st' x = expiry st x) \<and>
    expiry st' ev = (if ev \<in> set evs \<and> \<bar>int (pos b k) - int (pos b (expiry st ev))\<bar> < 300 then expiry st ev else k)"
proof -
  let ?st = "st\<lparr>ticks := Suc (ticks st)\<rparr>"
  have ok': "timers_ok b ?st evs" and ev': "events ?st ev = Some e" using ok ev by simp_all
  show ?thesis
  proof (cases "ev \<in> set evs")
    case False
    then have "\<not> ev_timer_set e" using ok ev by (auto simp: timers_ok_def)
    then have "event_add_timer st ev t = timer_link ?st ev k"
      using ev k by (simp add: event_add_timer_def gettimeofday_def)
    moreover obtain st' ys zs where "timer_link ?st ev k = Some st'" "evs = ys @ zs" "timers_ok b st' (ys @ ev # zs)"
      "expiry st' ev = k" "\<And>x. x \<noteq> ev \<Longrightarrow> expiry st' x = expiry ?st x"
      using timer_link_ok [OF ok' False ev' k(2)] by metis
    ultimately show ?thesis using False by (intro exI [of _ st'] exI [of _ "ys @ ev # zs"]) auto
  next
    case True
    then have set: "ev_timer_set e" using ok ev by (auto simp: timers_ok_def)
    let ?d = "int (pos b k) - int (pos b (expiry st ev))"
    have "sint (k - expiry st ev) = ?d"
      using sint_diff_window k(2) timers_ok_order(3) [OF ok True] by blast
    moreover have "?d \<noteq> - (2 ^ 31)" using int_less_pow31 [OF timers_ok_order(3) [OF ok True]] by simp
    ultimately have abs: "c_abs (sint (k - expiry st ev)) = Some \<bar>?d\<bar>" by (simp add: c_abs_def)
    have step: "event_add_timer st ev t = (if \<bar>?d\<bar> < 300 then Some ?st
      else do { st \<leftarrow> event_del_timer ?st ev; timer_link st ev k })"
      using ev k set get_key_expiry [OF ok True] abs
      by (simp add: event_add_timer_def gettimeofday_def TIMER_LAZY_DELAY_def)
    show ?thesis
    proof (cases "\<bar>?d\<bar> < 300")
      case lazy: True
      then show ?thesis using step True ok' by (intro exI [of _ ?st] exI [of _ evs]) auto
    next
      case far: False
      obtain H tree st1 where st1: "event_del_timer ?st ev = Some st1"
        "st1 = ?st\<lparr>theap := H, ttree := tree, events := (events ?st)(ev \<mapsto> e\<lparr>ev_timer_set := False\<rparr>)\<rparr>"
        "timers_ok b st1 (remove1 ev evs)" "\<And>x. x \<noteq> ev \<Longrightarrow> expiry st1 x = expiry ?st x"
        using del_timer_ok [OF ok' True ev'] by metis
      have "ev \<notin> set (remove1 ev evs)" "events st1 ev = Some (e\<lparr>ev_timer_set := False\<rparr>)"
        using timers_ok_order(1) [OF ok] st1(2) by simp_all
      from timer_link_ok [OF st1(3) this k(2)] obtain st' ys zs where
        st': "timer_link st1 ev k = Some st'" "remove1 ev evs = ys @ zs" "timers_ok b st' (ys @ ev # zs)"
        "expiry st' ev = k" "\<And>x. x \<noteq> ev \<Longrightarrow> expiry st' x = expiry st1 x" by metis
      have "set (ys @ ev # zs) = insert ev (set (remove1 ev evs))" using st'(2) by auto
      then have "set (ys @ ev # zs) = insert ev (set evs)" using timers_ok_order(1) [OF ok] by auto
      then show ?thesis using step st1 st' far by (intro exI [of _ st'] exI [of _ "ys @ ev # zs"]) auto
    qed
  qed
qed

text \<open>The head of the tree is the event that expires first.\<close>

lemma tree_min:
  assumes "timers_ok b st evs"
  shows "rbt_root (ttree st) = rbt_sentinel (ttree st) \<longleftrightarrow> evs = []"
    and "evs \<noteq> [] \<Longrightarrow> rbtree_min (theap st) (rbt_root (ttree st)) (rbt_sentinel (ttree st)) = Some (timer_node (hd evs))"
  using assms tt.empty_law [of b "(theap st, ttree st)" "map timer_node evs"]
    tt.first_law [of b "(theap st, ttree st)" "map timer_node evs"]
  by (auto simp: timers_ok_def tt_empty_def tt_first_def hd_map)

section \<open>The loops\<close>

text \<open>One expiry step: the first timer is taken out and its event marked.\<close>

definition due :: "u32 \<Rightarrow> u32 \<Rightarrow> 'a ev_state_scheme \<Rightarrow> addr \<Rightarrow> bool" where
  "due b now st ev \<longleftrightarrow> pos b (expiry st ev) \<le> pos b now"

lemma expire_step:
  assumes ok: "timers_ok b st (ev # evs)" and now: "now = msec (clock st (ticks st))" "pos b now < 2 ^ 31"
  shows "event_expire_timers call st =
    (if \<not> due b now st ev then Some (st\<lparr>ticks := Suc (ticks st)\<rparr>)
     else do { st \<leftarrow> event_del_timer (st\<lparr>ticks := Suc (ticks st)\<rparr>) ev;
               st \<leftarrow> upd_event st ev (ev_timedout_update (\<lambda>_. True));
               e \<leftarrow> events st ev;
               st \<leftarrow> call (ev_handler e) ev st;
               event_expire_timers call st })"
proof -
  have "sint (expiry st ev - now) = int (pos b (expiry st ev)) - int (pos b now)"
    by (rule sint_diff_window) (use timers_ok_order(3) [OF ok, of ev] now in auto)
  then have "sint (expiry st ev - now) > 0 \<longleftrightarrow> \<not> due b now st ev" by (auto simp: due_def)
  then show ?thesis
    using tree_min [OF ok] get_key_expiry [OF ok, of ev] now
    by (subst event_expire_timers.simps) (simp add: gettimeofday_def)
qed

lemma mark_ok:
  assumes "timers_ok b st evs" "events st ev = Some e"
  obtains st' where "upd_event st ev (ev_timedout_update (\<lambda>_. True)) = Some st'" "timers_ok b st' evs"
    "st' = st\<lparr>events := (events st)(ev \<mapsto> e\<lparr>ev_timedout := True\<rparr>)\<rparr>" "expiry st' = expiry st"
proof
  let ?st = "st\<lparr>events := (events st)(ev \<mapsto> e\<lparr>ev_timedout := True\<rparr>)\<rparr>"
  show "upd_event st ev (ev_timedout_update (\<lambda>_. True)) = Some ?st" using assms(2) by (simp add: upd_event_def)
  show "timers_ok b ?st evs" using assms by (auto simp: timers_ok_def)
  show "?st = ?st" "expiry ?st = expiry st" by (simp_all add: expiry_def fun_eq_iff)
qed

lemma pop_ok:
  assumes ok: "timers_ok b st (ev # evs)"
  obtains H tree st1 st2 e where "events st ev = Some e" "event_del_timer st ev = Some st1"
    "upd_event st1 ev (ev_timedout_update (\<lambda>_. True)) = Some st2" "timers_ok b st2 evs"
    "st2 = st\<lparr>theap := H, ttree := tree,
              events := (events st)(ev \<mapsto> e\<lparr>ev_timer_set := False, ev_timedout := True\<rparr>)\<rparr>"
    "\<And>x. x \<in> set evs \<Longrightarrow> expiry st2 x = expiry st x"
proof -
  obtain e where e: "events st ev = Some e" using timers_ok_order(4) [OF ok, of ev] by auto
  have ne: "ev \<notin> set evs" using timers_ok_order(1) [OF ok] by simp
  obtain H tree st1 where st1: "event_del_timer st ev = Some st1"
    "st1 = st\<lparr>theap := H, ttree := tree, events := (events st)(ev \<mapsto> e\<lparr>ev_timer_set := False\<rparr>)\<rparr>"
    "timers_ok b st1 evs" "\<And>x. x \<noteq> ev \<Longrightarrow> expiry st1 x = expiry st x"
    by (rule del_timer_ok [OF ok _ e]) auto
  have "events st1 ev = Some (e\<lparr>ev_timer_set := False\<rparr>)" using st1(2) by simp
  from mark_ok [OF st1(3) this] obtain st2 where st2: "upd_event st1 ev (ev_timedout_update (\<lambda>_. True)) = Some st2"
    "timers_ok b st2 evs"
    "st2 = st1\<lparr>events := (events st1)(ev \<mapsto> e\<lparr>ev_timer_set := False, ev_timedout := True\<rparr>)\<rparr>"
    "expiry st2 = expiry st1" by auto
  have "\<And>x. x \<in> set evs \<Longrightarrow> expiry st2 x = expiry st x" using st1(4) st2(4) ne by metis
  then show thesis
    by (intro that [OF e st1(1) st2(1,2)]) (use st1(2) st2(3) in simp_all)
qed

text \<open>
  What the expiry loop relies on in the handlers it calls, for a pass that ends before the time
  \<open>lim\<close>: a handler may cancel timers, and arm timers that expire after \<open>lim\<close>.
\<close>

definition calm :: "u32 \<Rightarrow> u32 \<Rightarrow> (event_handler \<Rightarrow> addr \<Rightarrow> 'a ev_state_scheme \<Rightarrow> ('a ev_state_scheme) option) \<Rightarrow> bool" where
  "calm b lim call \<longleftrightarrow> (\<forall>h ev st evs. timers_ok b st evs \<longrightarrow>
     (\<exists>st' evs'. call h ev st = Some st' \<and> timers_ok b st' evs' \<and> clock st' = clock st \<and> ticks st \<le> ticks st' \<and>
        (\<forall>x\<in>set evs'. due b lim st' x \<longrightarrow> x \<in> set evs \<and> due b lim st x)))"

lemma expire_ok:
  assumes "timers_ok b st evs" "calm b lim call" "pos b lim < 2 ^ 31"
    "\<forall>n\<ge>ticks st. pos b (msec (clock st n)) \<le> pos b lim"
  shows "\<exists>st' evs'. event_expire_timers call st = Some st' \<and> timers_ok b st' evs' \<and>
    (\<forall>x\<in>set evs'. \<not> due b (msec (clock st (ticks st' - 1))) st' x)"
  using assms
proof (induction "card {x \<in> set evs. due b lim st x}" arbitrary: st evs rule: less_induct)
  case less
  note ok = less.prems(1)
  show ?case
  proof (cases evs)
    case Nil
    then show ?thesis using tree_min(1) [OF ok] ok
      by (intro exI [of _ st] exI [of _ "[]"]) (simp add: event_expire_timers.simps)
  next
    case (Cons ev evs1)
    note ok1 = ok [unfolded Cons]
    let ?now = "msec (clock st (ticks st))" and ?st = "st\<lparr>ticks := Suc (ticks st)\<rparr>"
    have now: "pos b ?now \<le> pos b lim" "pos b ?now < 2 ^ 31" using less.prems(3,4) by (auto intro: le_less_trans)
    note step = expire_step [OF ok1 refl now(2), of call]
    show ?thesis
    proof (cases "due b ?now st ev")
      case False
      have "\<not> due b ?now st x" if "x \<in> set evs" for x
        using False timers_ok_order(2) [OF ok] that Cons by (auto simp: due_def)
      then show ?thesis using step False ok by (intro exI [of _ ?st] exI [of _ evs]) (auto simp: due_def)
    next
      case True
      have "timers_ok b ?st (ev # evs1)" using ok1 by simp
      then obtain H tree st1 st2 e where st2: "event_del_timer ?st ev = Some st1"
        "upd_event st1 ev (ev_timedout_update (\<lambda>_. True)) = Some st2" "timers_ok b st2 evs1"
        "st2 = ?st\<lparr>theap := H, ttree := tree,
              events := (events ?st)(ev \<mapsto> e\<lparr>ev_timer_set := False, ev_timedout := True\<rparr>)\<rparr>"
        "\<And>x. x \<in> set evs1 \<Longrightarrow> expiry st2 x = expiry ?st x" by (rule pop_ok) metis
      let ?e = "e\<lparr>ev_timer_set := False, ev_timedout := True\<rparr>"
      obtain st3 evs3 where st3: "call (ev_handler ?e) ev st2 = Some st3" "timers_ok b st3 evs3"
        "clock st3 = clock st2" "ticks st2 \<le> ticks st3"
        "\<forall>x\<in>set evs3. due b lim st3 x \<longrightarrow> x \<in> set evs1 \<and> due b lim st2 x"
        using less.prems(2) st2(3) unfolding calm_def by blast
      have c: "clock st3 = clock st" "Suc (ticks st) \<le> ticks st3" using st3(3,4) st2(4) by simp_all
      have "{x \<in> set evs3. due b lim st3 x} \<subset> {x \<in> set evs. due b lim st x}"
      proof
        show "{x \<in> set evs3. due b lim st3 x} \<subseteq> {x \<in> set evs. due b lim st x}"
          using st3(5) st2(5) Cons by (auto simp: due_def)
        have "ev \<notin> {x \<in> set evs3. due b lim st3 x}" using st3(5) timers_ok_order(1) [OF ok1] by auto
        moreover have "ev \<in> {x \<in> set evs. due b lim st x}" using True now(1) Cons by (auto simp: due_def)
        ultimately show "{x \<in> set evs3. due b lim st3 x} \<noteq> {x \<in> set evs. due b lim st x}" by blast
      qed
      then have lt: "card {x \<in> set evs3. due b lim st3 x} < card {x \<in> set evs. due b lim st x}"
        by (intro psubset_card_mono) auto
      have "\<forall>n\<ge>ticks st3. pos b (msec (clock st3 n)) \<le> pos b lim" using less.prems(4) c by auto
      from less.hyps [OF lt st3(2) less.prems(2,3) this] have
        "\<exists>st' evs'. event_expire_timers call st3 = Some st' \<and> timers_ok b st' evs' \<and>
          (\<forall>x\<in>set evs'. \<not> due b (msec (clock st (ticks st' - 1))) st' x)" using c(1) by simp
      moreover have "event_expire_timers call st = event_expire_timers call st3"
        using step True st2(1,2,4) st3(1) by simp
      ultimately show ?thesis by simp
    qed
  qed
qed

text \<open>
  The loops with handlers that only record which event they were called for (in the state's
  extension): they show which events a pass handles and in which order.
\<close>

definition record_call :: "event_handler \<Rightarrow> addr \<Rightarrow> ((event_handler \<times> addr) list) ev_state_scheme \<Rightarrow>
    (((event_handler \<times> addr) list) ev_state_scheme) option" where
  "record_call h ev st = Some (ev_state.more_update (\<lambda>log. log @ [(h, ev)]) st)"

lemma timers_ok_more [simp]:
  "timers_ok b (ev_state.more_update f st) evs = timers_ok b st evs" "expiry (ev_state.more_update f st) = expiry st"
  by (simp_all add: timers_ok_def expiry_def fun_eq_iff)

definition handler_of :: "'a ev_state_scheme \<Rightarrow> addr \<Rightarrow> event_handler" where
  "handler_of st ev = (case events st ev of None \<Rightarrow> NoHandler | Some e \<Rightarrow> ev_handler e)"

lemma expire_order:
  assumes "timers_ok b st evs" "\<forall>n\<ge>ticks st. msec (clock st n) = now" "pos b now < 2 ^ 31"
  shows "\<exists>st'. event_expire_timers record_call st = Some st' \<and> timers_ok b st' (filter (\<lambda>x. \<not> due b now st x) evs) \<and>
    ev_state.more st' = ev_state.more st @ map (\<lambda>x. (handler_of st x, x)) (filter (due b now st) evs) \<and>
    (\<forall>x\<in>set evs. due b now st x \<longrightarrow> (\<exists>e. events st' x = Some e \<and> ev_timedout e \<and> \<not> ev_timer_set e)) \<and>
    (\<forall>x. x \<notin> set evs \<longrightarrow> events st' x = events st x)"
  using assms
proof (induction evs arbitrary: st)
  case Nil
  then show ?case using tree_min(1) [OF Nil(1)]
    by (intro exI [of _ st]) (simp add: event_expire_timers.simps)
next
  case (Cons ev evs)
  note ok = Cons.prems(1)
  let ?st = "st\<lparr>ticks := Suc (ticks st)\<rparr>"
  have now: "msec (clock st (ticks st)) = now" using Cons.prems(2) by simp
  note step = expire_step [OF ok now [symmetric] Cons.prems(3), of record_call]
  show ?case
  proof (cases "due b now st ev")
    case False
    then have nd: "\<not> due b now st x" if "x \<in> set (ev # evs)" for x
      using timers_ok_order(2) [OF ok] that by (auto simp: due_def)
    then have "filter (\<lambda>x. \<not> due b now st x) (ev # evs) = ev # evs" "filter (due b now st) (ev # evs) = []"
      by (simp_all add: filter_empty_conv)
    then show ?thesis using step False ok nd by (intro exI [of _ ?st]) auto
  next
    case True
    have "timers_ok b ?st (ev # evs)" using ok by simp
    then obtain H tree st1 st2 e where e: "events ?st ev = Some e" and st2: "event_del_timer ?st ev = Some st1"
      "upd_event st1 ev (ev_timedout_update (\<lambda>_. True)) = Some st2" "timers_ok b st2 evs"
      "st2 = ?st\<lparr>theap := H, ttree := tree,
            events := (events ?st)(ev \<mapsto> e\<lparr>ev_timer_set := False, ev_timedout := True\<rparr>)\<rparr>"
      "\<And>x. x \<in> set evs \<Longrightarrow> expiry st2 x = expiry ?st x" by (rule pop_ok) metis
    let ?st3 = "ev_state.more_update (\<lambda>log. log @ [(ev_handler e, ev)]) st2"
    have ne: "ev \<notin> set evs" using timers_ok_order(1) [OF ok] by simp
    have due: "due b now ?st3 x = due b now st x" if "x \<in> set evs" for x
      using that st2(5) by (simp add: due_def)
    have fl: "filter (\<lambda>x. \<not> due b now ?st3 x) evs = filter (\<lambda>x. \<not> due b now st x) (ev # evs)"
      "filter (due b now st) (ev # evs) = ev # filter (due b now ?st3) evs"
      using True due by (auto intro: filter_cong)
    have h: "map (\<lambda>x. (handler_of ?st3 x, x)) (filter (due b now ?st3) evs) =
        map (\<lambda>x. (handler_of st x, x)) (filter (due b now ?st3) evs)" "handler_of st ev = ev_handler e"
      using ne st2(4) e by (auto simp: handler_of_def)
    have "timers_ok b ?st3 evs" "\<forall>n\<ge>ticks ?st3. msec (clock ?st3 n) = now"
      using st2(3,4) Cons.prems(2) by simp_all
    from Cons.IH [OF this Cons.prems(3)] obtain st' where
      st': "event_expire_timers record_call ?st3 = Some st'" "timers_ok b st' (filter (\<lambda>x. \<not> due b now st x) (ev # evs))"
      "ev_state.more st' = ev_state.more ?st3 @ map (\<lambda>x. (handler_of st x, x)) (filter (due b now ?st3) evs)"
      "\<forall>x\<in>set evs. due b now ?st3 x \<longrightarrow> (\<exists>e. events st' x = Some e \<and> ev_timedout e \<and> \<not> ev_timer_set e)"
      "\<forall>x. x \<notin> set evs \<longrightarrow> events st' x = events ?st3 x"
      unfolding fl(1) h(1) by blast
    have "event_expire_timers record_call st = Some st'"
      using step True st2(1,2,4) st'(1) by (simp add: record_call_def)
    moreover have "ev_state.more st' = ev_state.more st @ map (\<lambda>x. (handler_of st x, x)) (filter (due b now st) (ev # evs))"
      unfolding fl(2) using st'(3) st2(4) h(2) by simp
    moreover have "\<exists>e. events st' ev = Some e \<and> ev_timedout e \<and> \<not> ev_timer_set e"
      using st'(5) ne st2(4) by simp
    moreover have "\<forall>x. x \<notin> set (ev # evs) \<longrightarrow> events st' x = events st x" using st'(5) st2(4) by simp
    ultimately show ?thesis using st'(2,4) due by auto
  qed
qed

text \<open>Cancelling: every timer is taken out, with handlers that arm no new timer.\<close>

lemma cancel_ok:
  assumes "timers_ok b st evs"
    "\<And>h ev st evs. timers_ok b st evs \<Longrightarrow> \<exists>st' evs'. call h ev st = Some st' \<and> timers_ok b st' evs' \<and> set evs' \<subseteq> set evs"
  shows "\<exists>st'. event_cancel_timers call st = Some st' \<and> timers_ok b st' []"
  using assms(1)
proof (induction "card (set evs)" arbitrary: st evs rule: less_induct)
  case less
  note ok = less.prems
  show ?case
  proof (cases evs)
    case Nil
    then show ?thesis using tree_min(1) [OF ok] ok by (simp add: event_cancel_timers.simps)
  next
    case (Cons ev evs1)
    note ok1 = ok [unfolded Cons]
    obtain e where e: "events st ev = Some e" using timers_ok_order(4) [OF ok1, of ev] by auto
    obtain H tree st1 where st1: "event_del_timer st ev = Some st1"
      "st1 = st\<lparr>theap := H, ttree := tree, events := (events st)(ev \<mapsto> e\<lparr>ev_timer_set := False\<rparr>)\<rparr>"
      "timers_ok b st1 evs1" by (rule del_timer_ok [OF ok1 _ e]) auto
    let ?h = "ev_handler (e\<lparr>ev_timer_set := False\<rparr>)"
    obtain st2 evs2 where st2: "call ?h ev st1 = Some st2" "timers_ok b st2 evs2" "set evs2 \<subseteq> set evs1"
      using assms(2) [OF st1(3)] by blast
    have "ev \<notin> set evs1" using timers_ok_order(1) [OF ok1] by simp
    then have "card (set evs2) < card (set evs)"
      using card_mono [OF _ st2(3)] Cons by (simp add: le_imp_less_Suc)
    from less.hyps [OF this st2(2)] have "\<exists>st'. event_cancel_timers call st2 = Some st' \<and> timers_ok b st' []" .
    moreover have "event_cancel_timers call st = event_cancel_timers call st2"
      using tree_min [OF ok1] st1 st2(1) by (subst event_cancel_timers.simps) simp
    ultimately show ?thesis by simp
  qed
qed

section \<open>Properties\<close>

text \<open>Two events whose timers are not set and one whose timer is, at time 1000.\<close>

definition ex_event :: "bool \<Rightarrow> event_s" where
  "ex_event armed = \<lparr>ev_data = 0, ev_active = False, ev_ready = False, ev_timedout = False, ev_timer_set = armed,
     ev_pending_eof = False, ev_eof = False, ev_error = False, ev_handler = H_dns_timeout_handler\<rparr>"

definition ex_timer_node :: "u32 \<Rightarrow> rbtree_node_s" where
  "ex_timer_node k = \<lparr>rb_key = k, rb_left = 1, rb_right = 1, rb_parent = 0, rb_color = 0, rb_data = 0\<rparr>"

definition ex_state :: "((event_handler \<times> addr) list) ev_state_scheme" where
  "ex_state = \<lparr>theap = [1 \<mapsto> ex_timer_node 0, 116 \<mapsto> ex_timer_node 900, 216 \<mapsto> ex_timer_node 0],
     ttree = \<lparr>rbt_root = 116, rbt_sentinel = 1, rbt_insert = rbtree_insert_timer_value\<rparr>,
     events = [100 \<mapsto> ex_event True, 200 \<mapsto> ex_event False], clock = \<lambda>n. (1, 0), ticks = 0, \<dots> = []\<rparr>"

lemma ex_timers_ok: "timers_ok 0 ex_state [100]"
proof -
  have "rep (theap ex_state) 1 116 [] 0 (Node False Leaf 116 Leaf)"
    by (simp add: rep_def wf_pos_def black_at_def node_at_def ex_state_def ex_timer_node_def)
  then have "is_rbtree (theap ex_state) (ttree ex_state) [116]"
    unfolding is_rbtree_def by (intro exI [of _ 0] exI [of _ "Node False Leaf 116 Leaf"])
      (simp add: rbt_ok_def ex_state_def)
  moreover have "pos 0 (key_of (theap ex_state) 116) < 2 ^ 31"
    by (simp add: pos_def key_of_def ex_state_def ex_timer_node_def)
  ultimately have "tt_rep 0 (theap ex_state, ttree ex_state) (map timer_node [100])"
    unfolding tt_rep_def prod.case by (simp add: timer_node_def ex_state_def)
  then show ?thesis
    unfolding timers_ok_def
    by (simp add: ex_state_def ex_event_def tt_live_def timer_node_def ex_timer_node_def)
qed

lemma ex_msec: "msec (clock ex_state n) = 1000"
  by (simp add: msec_def ex_state_def signed_divide_int_def)

text \<open>
  C13: \<open>event_add_timer\<close> terminates without undefined behaviour, keeps the timer invariant and
  arms the event's timer for \<open>timer\<close> milliseconds from now; a timer that is armed already is left
  alone if the new time is less than 300 ms from the old one, and moved otherwise. No other timer
  changes.
\<close>

theorem event_add_timer_correct:
  assumes "timers_ok b st evs" "events st ev = Some e"
    "k = msec (clock st (ticks st)) + t" "pos b k < 2 ^ 31"
  shows "\<exists>st' evs'. event_add_timer st ev t = Some st' \<and> timers_ok b st' evs' \<and> set evs' = insert ev (set evs) \<and>
    (\<forall>x. x \<noteq> ev \<longrightarrow> expiry st' x = expiry st x) \<and>
    expiry st' ev = (if ev \<in> set evs \<and> \<bar>int (pos b k) - int (pos b (expiry st ev))\<bar> < 300 then expiry st ev else k)"
  using add_timer_ok [OF assms] .

theorem event_add_timer_correct_witness:
  "\<exists>st' evs'. event_add_timer ex_state 200 5000 = Some st' \<and> timers_ok 0 st' evs' \<and> set evs' = {200, 100} \<and>
    expiry st' 200 = 6000"
proof -
  have e: "events ex_state 200 = Some (ex_event False)" by (simp add: ex_state_def)
  have k: "(6000::u32) = msec (clock ex_state (ticks ex_state)) + 5000" by (simp add: ex_msec)
  have p: "pos 0 6000 < 2 ^ 31" by (simp add: pos_def)
  from event_add_timer_correct [OF ex_timers_ok e k p] show ?thesis by fastforce
qed

text \<open>
  \<open>event_find_timer\<close> returns the infinite timeout exactly if no timer is armed, and otherwise
  the number of milliseconds until the earliest one expires, 0 if it is due.
\<close>

theorem event_find_timer_correct:
  assumes "timers_ok b st evs" "now = msec (clock st (ticks st))" "pos b now < 2 ^ 31"
  shows "\<exists>w st'. event_find_timer st = Some (w, st') \<and>
    (if evs = [] then w = TIMER_INFINITE
     else unat w = Min ((\<lambda>ev. pos b (expiry st ev)) ` set evs) - pos b now)"
proof (cases evs)
  case Nil
  then show ?thesis using tree_min(1) [OF assms(1)] by (simp add: event_find_timer_def)
next
  case (Cons ev evs1)
  let ?d = "int (pos b (expiry st ev)) - int (pos b now)"
  have p: "pos b (expiry st ev) < 2 ^ 31" using timers_ok_order(3) [OF assms(1)] Cons by simp
  then have d: "sint (expiry st ev - now) = ?d" using sint_diff_window assms(3) by blast
  have m: "Min ((\<lambda>ev. pos b (expiry st ev)) ` set evs) = pos b (expiry st ev)"
    using timers_ok_order(2) [OF assms(1)] Cons by (intro Min_eqI) auto
  have "event_find_timer st = Some (if ?d > 0 then word_of_int ?d else 0, st\<lparr>ticks := Suc (ticks st)\<rparr>)"
    using tree_min [OF assms(1)] Cons get_key_expiry [OF assms(1), of ev] assms(2) d
    by (simp add: event_find_timer_def gettimeofday_def)
  moreover have "unat (word_of_int ?d :: u32) = pos b (expiry st ev) - pos b now" if "?d > 0"
  proof -
    have "word_of_int ?d = (of_nat (pos b (expiry st ev) - pos b now) :: u32)"
      using that by (simp add: of_nat_diff)
    then show ?thesis using p by (simp add: unat_of_nat)
  qed
  ultimately show ?thesis using Cons m by (auto simp: not_less)
qed

theorem event_find_timer_correct_witness:
  "\<exists>w st'. event_find_timer ex_state = Some (w, st') \<and> unat w = 0"
proof -
  have p: "pos 0 1000 < 2 ^ 31" by (simp add: pos_def)
  have "expiry ex_state 100 = 900" by (simp add: expiry_def key_of_def timer_node_def ex_state_def ex_timer_node_def)
  with event_find_timer_correct [OF ex_timers_ok ex_msec [symmetric] p] show ?thesis by (auto simp: pos_def)
qed



text \<open>
  C23: one pass of the expiry loop calls the handler of every event whose timer is due, exactly
  once, in the order of expiry; it takes their timers out, marks the events as timed out and
  leaves the other timers armed.
\<close>

theorem event_expire_timers_order:
  assumes "timers_ok b st evs" "\<forall>n\<ge>ticks st. msec (clock st n) = now" "pos b now < 2 ^ 31"
  shows "\<exists>st'. event_expire_timers record_call st = Some st' \<and> timers_ok b st' (filter (\<lambda>x. \<not> due b now st x) evs) \<and>
    ev_state.more st' = ev_state.more st @ map (\<lambda>x. (handler_of st x, x)) (filter (due b now st) evs) \<and>
    sorted (map (\<lambda>x. pos b (expiry st x)) (filter (due b now st) evs)) \<and>
    (\<forall>x\<in>set evs. due b now st x \<longrightarrow> (\<exists>e. events st' x = Some e \<and> ev_timedout e \<and> \<not> ev_timer_set e))"
  using expire_order [OF assms] sorted_filter [OF timers_ok_order(2) [OF assms(1)]] by blast

theorem event_expire_timers_order_witness:
  "\<exists>st'. event_expire_timers record_call ex_state = Some st' \<and> timers_ok 0 st' [] \<and>
    ev_state.more st' = [(H_dns_timeout_handler, 100)]"
proof -
  have p: "pos 0 1000 < 2 ^ 31" by (simp add: pos_def)
  have "\<forall>n\<ge>ticks ex_state. msec (clock ex_state n) = 1000" by (simp add: ex_msec)
  moreover have "due 0 1000 ex_state 100"
    by (simp add: due_def pos_def expiry_def key_of_def timer_node_def ex_state_def ex_timer_node_def)
  moreover have "handler_of ex_state 100 = H_dns_timeout_handler" "ev_state.more ex_state = []"
    by (simp_all add: ex_state_def handler_of_def ex_event_def)
  ultimately show ?thesis using event_expire_timers_order [OF ex_timers_ok _ p] by fastforce
qed

text \<open>
  \<open>event_cancel_timers\<close> ends with no timer armed, if the handlers it calls arm none.
\<close>

theorem event_cancel_timers_empty:
  assumes "timers_ok b st evs"
    "\<And>h ev st evs. timers_ok b st evs \<Longrightarrow> \<exists>st' evs'. call h ev st = Some st' \<and> timers_ok b st' evs' \<and> set evs' \<subseteq> set evs"
  shows "\<exists>st'. event_cancel_timers call st = Some st' \<and> timers_ok b st' []"
  by (rule cancel_ok [where call = call, OF assms(1)]) (rule assms(2))

theorem event_cancel_timers_empty_witness:
  "\<exists>st'. event_cancel_timers record_call ex_state = Some st' \<and> timers_ok 0 st' []"
  by (rule event_cancel_timers_empty [OF ex_timers_ok]) (auto simp: record_call_def)

end
