(* ===== verification/Event.thy ===== *)
theory Event
  imports Event_Timer
begin

text \<open>
  The event loop of \<^verbatim>\<open>src/event.c\<close> over the connection objects of \<^verbatim>\<open>src/connection.h\<close>. The kernel's
  epoll instance is a parameter: a state and the functions \<open>epoll_ctl\<close> and \<open>epoll_wait\<close> on it; what
  is documented of \<open>epoll_ctl\<close> is the hypothesis \<open>epoll_spec\<close> on the parameter. The handlers are a
  parameter of \<open>event_process\<close> as they are of the timer loops.
\<close>

section \<open>Connections\<close>

datatype recv_fn = NoRecv | R_unix_recv | R_unix_udp_recv | R_ssl_recv

datatype send_fn = NoSend | S_unix_send | S_ssl_send

record connection_s =
  c_data :: addr
  c_read :: addr
  c_write :: addr
  c_fd :: int
  c_recv :: recv_fn
  c_send :: send_fn
  c_sent :: int
  c_ssl :: addr

record conn_state = ev_state +
  conns :: "addr \<rightharpoonup> connection_s"
  free_connections :: addr
  free_connection_n :: u32

definition upd_conn ::
  "'a conn_state_scheme \<Rightarrow> addr \<Rightarrow> (connection_s \<Rightarrow> connection_s) \<Rightarrow> ('a conn_state_scheme) option" where
  "upd_conn st c f =
     (case conns st c of None \<Rightarrow> None | Some x \<Rightarrow> Some (st\<lparr>conns := (conns st)(c \<mapsto> f x)\<rparr>))"

section \<open>Constants of epoll and of the event module\<close>

definition EPOLLIN :: u32 where "EPOLLIN = 0x1"
definition EPOLLOUT :: u32 where "EPOLLOUT = 0x4"
definition EPOLLERR :: u32 where "EPOLLERR = 0x8"
definition EPOLLHUP :: u32 where "EPOLLHUP = 0x10"
definition EPOLLRDHUP :: u32 where "EPOLLRDHUP = 0x2000"
definition EPOLLET :: u32 where "EPOLLET = 0x80000000"
definition READ_EVENT :: u32 where "READ_EVENT = EPOLLIN OR EPOLLRDHUP"
definition WRITE_EVENT :: u32 where "WRITE_EVENT = EPOLLOUT"
definition CLEAR_EVENT :: u32 where "CLEAR_EVENT = EPOLLET"
definition CLOSE_EVENT :: u32 where "CLOSE_EVENT = 1"

lemmas epoll_consts = EPOLLIN_def EPOLLOUT_def EPOLLERR_def EPOLLHUP_def EPOLLRDHUP_def EPOLLET_def
  READ_EVENT_def WRITE_EVENT_def CLEAR_EVENT_def CLOSE_EVENT_def

datatype epoll_op = EPOLL_CTL_ADD | EPOLL_CTL_MOD | EPOLL_CTL_DEL

type_synonym 'k epoll_ctl = "epoll_op \<Rightarrow> int \<Rightarrow> u32 \<Rightarrow> addr \<Rightarrow> 'k \<Rightarrow> int \<times> 'k"

text \<open>
  \<open>event_init\<close> with the results of \<open>epoll_create\<close> and \<open>calloc\<close>: the result, the new \<open>ep\<close> and
  \<open>event_list\<close>, and what is freed.
\<close>

definition event_init :: "int \<Rightarrow> addr \<Rightarrow> int \<Rightarrow> addr option \<Rightarrow> int \<times> int \<times> addr \<times> addr list" where
  "event_init ep event_list created mem =
     (let ep = (if ep = - 1 then created else ep)
      in if ep = - 1 then (- 1, ep, event_list, [])
         else let freed = (if event_list \<noteq> 0 then [event_list] else [])
              in (case mem of None \<Rightarrow> (- 1, ep, 0, freed) | Some m \<Rightarrow> (0, ep, m, freed)))"

section \<open>Registering and removing interest\<close>

text \<open>The other event of the connection and the flags it stands for.\<close>

definition other_event :: "connection_s \<Rightarrow> u32 \<Rightarrow> addr \<times> u32" where
  "other_event c event =
     (if event = READ_EVENT then (c_write c, EPOLLOUT) else (c_read c, EPOLLIN OR EPOLLRDHUP))"

definition event_add :: "'k epoll_ctl \<Rightarrow> 'a conn_state_scheme \<Rightarrow> 'k \<Rightarrow> addr \<Rightarrow> u32 \<Rightarrow> u32 \<Rightarrow>
    (int \<times> 'a conn_state_scheme \<times> 'k) option" where
  "event_add ctl st k ev event flags =
     do { evo \<leftarrow> events st ev;
          c \<leftarrow> Some (ev_data evo);
          conn \<leftarrow> conns st c;
          (e, prev) \<leftarrow> Some (other_event conn event);
          eo \<leftarrow> events st e;
          (op, evs) \<leftarrow> Some (if ev_active eo then (EPOLL_CTL_MOD, event OR prev) else (EPOLL_CTL_ADD, event));
          (r, k) \<leftarrow> Some (ctl op (c_fd conn) (evs OR flags) c k);
          if r = - 1 then Some (- 1, st, k)
          else do { st \<leftarrow> upd_event st ev (ev_active_update (\<lambda>_. True)); Some (0, st, k) } }"

definition event_del :: "'k epoll_ctl \<Rightarrow> 'a conn_state_scheme \<Rightarrow> 'k \<Rightarrow> addr \<Rightarrow> u32 \<Rightarrow> u32 \<Rightarrow>
    (int \<times> 'a conn_state_scheme \<times> 'k) option" where
  "event_del ctl st k ev event flags =
     do { evo \<leftarrow> events st ev;
          if flags AND CLOSE_EVENT \<noteq> 0
          then do { st \<leftarrow> upd_event st ev (ev_active_update (\<lambda>_. False)); Some (0, st, k) }
          else do {
            c \<leftarrow> Some (ev_data evo);
            conn \<leftarrow> conns st c;
            (e, prev) \<leftarrow> Some (other_event conn event);
            eo \<leftarrow> events st e;
            (op, evs, p) \<leftarrow> Some (if ev_active eo then (EPOLL_CTL_MOD, prev OR flags, c) else (EPOLL_CTL_DEL, 0, 0));
            (r, k) \<leftarrow> Some (ctl op (c_fd conn) evs p k);
            if r = - 1 then Some (- 1, st, k)
            else do { st \<leftarrow> upd_event st ev (ev_active_update (\<lambda>_. False)); Some (0, st, k) } } }"

section \<open>Dispatching\<close>

datatype wait_result = WaitFailed bool | WaitEvents "(u32 \<times> addr) list"

type_synonym 'a handlers = "event_handler \<Rightarrow> addr \<Rightarrow> 'a conn_state_scheme \<Rightarrow> ('a conn_state_scheme) option"

definition widen :: "u32 \<Rightarrow> u32" where
  "widen revents =
     (if revents AND (EPOLLERR OR EPOLLHUP) \<noteq> 0 \<and> revents AND (EPOLLIN OR EPOLLOUT) = 0
      then revents OR (EPOLLIN OR EPOLLOUT) else revents)"

definition run_handler :: "'a handlers \<Rightarrow> 'a conn_state_scheme \<Rightarrow> addr \<Rightarrow> ('a conn_state_scheme) option" where
  "run_handler call st ev = do { e \<leftarrow> events st ev; call (ev_handler e) ev st }"

definition dispatch_read :: "'a handlers \<Rightarrow> 'a conn_state_scheme \<Rightarrow> addr \<Rightarrow> u32 \<Rightarrow> ('a conn_state_scheme) option" where
  "dispatch_read call st c revents =
     do { conn \<leftarrow> conns st c;
          rev \<leftarrow> Some (c_read conn);
          e \<leftarrow> events st rev;
          if revents AND EPOLLIN \<noteq> 0 \<and> ev_active e
          then do { st \<leftarrow> (if revents AND EPOLLRDHUP \<noteq> 0
                           then upd_event st rev (ev_pending_eof_update (\<lambda>_. True)) else Some st);
                    st \<leftarrow> upd_event st rev (ev_ready_update (\<lambda>_. True));
                    run_handler call st rev }
          else Some st }"

definition dispatch_write :: "'a handlers \<Rightarrow> 'a conn_state_scheme \<Rightarrow> addr \<Rightarrow> u32 \<Rightarrow> ('a conn_state_scheme) option" where
  "dispatch_write call st c revents =
     do { conn \<leftarrow> conns st c;
          wev \<leftarrow> Some (c_write conn);
          e \<leftarrow> events st wev;
          if revents AND EPOLLOUT \<noteq> 0 \<and> ev_active e \<and> c_fd conn \<noteq> - 1
          then do { st \<leftarrow> upd_event st wev (ev_ready_update (\<lambda>_. True)); run_handler call st wev }
          else Some st }"

definition dispatch :: "'a handlers \<Rightarrow> 'a conn_state_scheme \<Rightarrow> u32 \<times> addr \<Rightarrow> ('a conn_state_scheme) option" where
  "dispatch call st entry =
     do { (revents, c) \<leftarrow> Some entry;
          conn \<leftarrow> conns st c;
          if c_fd conn = - 1 then Some st
          else do { st \<leftarrow> dispatch_read call st c (widen revents);
                    dispatch_write call st c (widen revents) } }"

fun dispatch_all :: "'a handlers \<Rightarrow> 'a conn_state_scheme \<Rightarrow> (u32 \<times> addr) list \<Rightarrow> ('a conn_state_scheme) option" where
  "dispatch_all call st [] = Some st"
| "dispatch_all call st (entry # list) = do { st \<leftarrow> dispatch call st entry; dispatch_all call st list }"

text \<open>
  \<open>event_process\<close> with the result of \<open>epoll_wait\<close>; \<open>WaitFailed True\<close> is \<open>EINTR\<close>. The comparison
  with \<open>(uint32_t) -1\<close> converts the timeout to 32 bits.
\<close>

definition event_process :: "'a handlers \<Rightarrow> 'a conn_state_scheme \<Rightarrow> int \<Rightarrow> wait_result \<Rightarrow>
    (int \<times> 'a conn_state_scheme) option" where
  "event_process call st timeout res =
     (case res of
        WaitFailed eintr \<Rightarrow> Some (if eintr then 0 else - 1, st)
      | WaitEvents list \<Rightarrow>
          if list = [] then Some (if (word_of_int timeout :: u32) \<noteq> - 1 then 0 else - 1, st)
          else do { st \<leftarrow> dispatch_all call st list; Some (0, st) })"

section \<open>Agreement with the kernel\<close>

text \<open>
  What is documented of \<open>epoll_ctl\<close>, in terms of the interest list of the instance: it fails and
  changes nothing, or it does what the operation says; adding a descriptor that is registered and
  changing or removing one that is not always fails.
\<close>

definition epoll_spec :: "'k epoll_ctl \<Rightarrow> ('k \<Rightarrow> int \<rightharpoonup> u32 \<times> addr) \<Rightarrow> bool" where
  "epoll_spec ctl interest \<longleftrightarrow> (\<forall>op fd m c k r k'. ctl op fd m c k = (r, k') \<longrightarrow>
     (r = - 1 \<and> interest k' = interest k) \<or>
     (r \<noteq> - 1 \<and> (interest k fd = None \<longleftrightarrow> op = EPOLL_CTL_ADD) \<and>
      interest k' = (interest k)(fd := (if op = EPOLL_CTL_DEL then None else Some (m, c)))))"

lemma epoll_specD:
  assumes "epoll_spec ctl interest" "ctl op fd m c k = (r, k')" "r \<noteq> - 1"
  shows "interest k fd = None \<longleftrightarrow> op = EPOLL_CTL_ADD"
    and "interest k' = (interest k)(fd := (if op = EPOLL_CTL_DEL then None else Some (m, c)))"
  using assms unfolding epoll_spec_def by blast+

text \<open>
  The invariant of the module: the kernel watches a connection exactly if one of its two events is
  active, for what the active ones stand for, and reports it with the connection's address.
\<close>

definition reg_mask :: "bool \<Rightarrow> bool \<Rightarrow> u32" where
  "reg_mask r w = (if r then READ_EVENT else 0) OR (if w then EPOLLOUT else 0)"

definition conn_reg :: "('k \<Rightarrow> int \<rightharpoonup> u32 \<times> addr) \<Rightarrow> 'a conn_state_scheme \<Rightarrow> 'k \<Rightarrow> addr \<Rightarrow> connection_s \<Rightarrow> bool" where
  "conn_reg interest st k c conn \<longleftrightarrow> c_read conn \<noteq> c_write conn \<and>
     (case (events st (c_read conn), events st (c_write conn)) of
        (Some er, Some ew) \<Rightarrow> ev_data er = c \<and> ev_data ew = c \<and>
          (case interest k (c_fd conn) of
             None \<Rightarrow> \<not> ev_active er \<and> \<not> ev_active ew
           | Some (m, p) \<Rightarrow> p = c \<and> (ev_active er \<or> ev_active ew) \<and>
               m AND (READ_EVENT OR EPOLLOUT) = reg_mask (ev_active er) (ev_active ew))
      | _ \<Rightarrow> False)"

definition reg_ok :: "('k \<Rightarrow> int \<rightharpoonup> u32 \<times> addr) \<Rightarrow> 'a conn_state_scheme \<Rightarrow> 'k \<Rightarrow> bool" where
  "reg_ok interest st k \<longleftrightarrow> (\<forall>c conn. conns st c = Some conn \<longrightarrow> c_fd conn \<noteq> - 1 \<longrightarrow> conn_reg interest st k c conn) \<and>
     (\<forall>c1 c2 conn1 conn2. conns st c1 = Some conn1 \<longrightarrow> conns st c2 = Some conn2 \<longrightarrow>
        c_fd conn1 = c_fd conn2 \<longrightarrow> c_fd conn1 \<noteq> - 1 \<longrightarrow> c1 = c2)"

text \<open>Which of the two events of a connection an operation is about.\<close>

definition side :: "connection_s \<Rightarrow> addr \<Rightarrow> u32 \<Rightarrow> bool" where
  "side conn ev event \<longleftrightarrow> (ev = c_read conn \<and> event = READ_EVENT) \<or> (ev = c_write conn \<and> event = WRITE_EVENT)"

lemma mask_or: "flags AND (READ_EVENT OR EPOLLOUT) = 0 \<Longrightarrow>
    (m OR flags) AND (READ_EVENT OR EPOLLOUT) = m AND (READ_EVENT OR EPOLLOUT)"
  by (simp add: bit.conj_disj_distrib2)

lemma conn_reg_cong:
  assumes "events st' (c_read conn) = events st (c_read conn)" "events st' (c_write conn) = events st (c_write conn)"
    "interest k' (c_fd conn) = interest k (c_fd conn)"
  shows "conn_reg interest st' k' c conn = conn_reg interest st k c conn"
  unfolding conn_reg_def assms ..

lemma reg_ok_kernel: "interest k' = interest k \<Longrightarrow> reg_ok interest st k' = reg_ok interest st k"
proof -
  assume "interest k' = interest k"
  then have "conn_reg interest st k' = conn_reg interest st k" by (intro ext conn_reg_cong) simp_all
  then show ?thesis by (simp add: reg_ok_def)
qed

text \<open>A change of one connection's events and registration leaves the others alone.\<close>

lemma reg_ok_change:
  assumes ok: "reg_ok interest st k" and c: "conns st c = Some conn" "c_fd conn \<noteq> - 1"
    and ev: "ev = c_read conn \<or> ev = c_write conn" "events st ev = Some e"
    and st': "st' = st\<lparr>events := (events st)(ev \<mapsto> e')\<rparr>" "ev_data e' = c"
    and k': "interest k' = (interest k)(c_fd conn := x)" and new: "conn_reg interest st' k' c conn"
  shows "reg_ok interest st' k'"
proof -
  have "conn_reg interest st' k' c2 conn2" if c2: "conns st c2 = Some conn2" "c_fd conn2 \<noteq> - 1" for c2 conn2
  proof (cases "c2 = c")
    case True
    then show ?thesis using new c c2 by simp
  next
    case False
    have r: "conn_reg interest st k c2 conn2" "conn_reg interest st k c conn"
      using ok c2 c by (auto simp: reg_ok_def)
    have "c_fd conn2 \<noteq> c_fd conn" using ok c c2 False by (auto simp: reg_ok_def)
    moreover have "ev \<noteq> c_read conn2" "ev \<noteq> c_write conn2"
      using r False ev by (auto simp: conn_reg_def split: option.splits)
    ultimately show ?thesis
      using r(1) conn_reg_cong [of st' conn2 st interest k' k c2] st'(1) k' by simp
  qed
  then show ?thesis using ok st'(1) by (simp add: reg_ok_def)
qed

lemma event_add_ok:
  assumes ok: "reg_ok interest st k" and spec: "epoll_spec ctl interest"
    and c: "conns st c = Some conn" "c_fd conn \<noteq> - 1" and sd: "side conn ev event"
    and e: "events st ev = Some e" "\<not> ev_active e" and f: "flags AND (READ_EVENT OR EPOLLOUT) = 0"
  shows "\<exists>r st' k'. event_add ctl st k ev event flags = Some (r, st', k') \<and> reg_ok interest st' k' \<and>
    (r = 0 \<or> r = - 1) \<and> (r = - 1 \<longrightarrow> st' = st \<and> interest k' = interest k) \<and>
    (r = 0 \<longrightarrow> st' = st\<lparr>events := (events st)(ev \<mapsto> e\<lparr>ev_active := True\<rparr>)\<rparr> \<and>
      (\<exists>m. interest k' (c_fd conn) = Some (m, c) \<and> m AND event = event))"
proof -
  have reg: "conn_reg interest st k c conn" using ok c by (simp add: reg_ok_def)
  then obtain er ew where er: "events st (c_read conn) = Some er" "events st (c_write conn) = Some ew"
    "ev_data er = c" "ev_data ew = c" "c_read conn \<noteq> c_write conn"
    by (auto simp: conn_reg_def split: option.splits)
  have dc: "ev_data e = c" using sd e er by (auto simp: side_def)
  have rw: "READ_EVENT \<noteq> WRITE_EVENT" "WRITE_EVENT = EPOLLOUT" "READ_EVENT = EPOLLIN OR EPOLLRDHUP"
    by (simp_all add: epoll_consts)
  obtain oe prev eo where o: "other_event conn event = (oe, prev)" "events st oe = Some eo"
    "eo = (if event = READ_EVENT then ew else er)" "prev = (if event = READ_EVENT then EPOLLOUT else READ_EVENT)"
    using sd er rw by (auto simp: other_event_def side_def)
  let ?op = "if ev_active eo then EPOLL_CTL_MOD else EPOLL_CTL_ADD"
  let ?m = "(if ev_active eo then event OR prev else event) OR flags"
  obtain r k' where r: "ctl ?op (c_fd conn) ?m c k = (r, k')" by fastforce
  have step: "event_add ctl st k ev event flags = (if r = - 1 then Some (- 1, st, k')
      else Some (0, st\<lparr>events := (events st)(ev \<mapsto> e\<lparr>ev_active := True\<rparr>)\<rparr>, k'))"
    using e dc c o r by (cases "ev_active eo") (simp_all add: event_add_def upd_event_def)
  show ?thesis
  proof (cases "r = - 1")
    case True
    then have "interest k' = interest k" using spec r unfolding epoll_spec_def by blast
    then show ?thesis using step True ok reg_ok_kernel [of interest k' k st] by auto
  next
    case False
    let ?st = "st\<lparr>events := (events st)(ev \<mapsto> e\<lparr>ev_active := True\<rparr>)\<rparr>"
    have k': "interest k' = (interest k)(c_fd conn := Some (?m, c))"
      using epoll_specD(2) [OF spec r False] by (cases "ev_active eo") simp_all
    have m: "?m AND (READ_EVENT OR EPOLLOUT) = (if ev_active eo then event OR prev else event) AND (READ_EVENT OR EPOLLOUT)"
      using f by (rule mask_or)
    have "?m AND event = event"
      by (auto simp: bit.conj_disj_distrib2 word_ao_absorbs)
    moreover have "conn_reg interest ?st k' c conn"
      using er sd e m k' o rw by (auto simp: conn_reg_def side_def reg_mask_def epoll_consts)
    then have "reg_ok interest ?st k'"
      by (intro reg_ok_change [OF ok c _ e(1) refl _ k']) (use sd dc in \<open>auto simp: side_def\<close>)
    ultimately show ?thesis using step False k' by auto
  qed
qed

lemma event_del_ok:
  assumes ok: "reg_ok interest st k" and spec: "epoll_spec ctl interest"
    and c: "conns st c = Some conn" "c_fd conn \<noteq> - 1" and sd: "side conn ev event"
    and e: "events st ev = Some e" "ev_active e" and f: "flags AND (READ_EVENT OR EPOLLOUT) = 0"
      "flags AND CLOSE_EVENT = 0"
  shows "\<exists>r st' k'. event_del ctl st k ev event flags = Some (r, st', k') \<and> reg_ok interest st' k' \<and>
    (r = 0 \<or> r = - 1) \<and> (r = - 1 \<longrightarrow> st' = st \<and> interest k' = interest k) \<and>
    (r = 0 \<longrightarrow> st' = st\<lparr>events := (events st)(ev \<mapsto> e\<lparr>ev_active := False\<rparr>)\<rparr> \<and>
      (\<forall>m p. interest k' (c_fd conn) = Some (m, p) \<longrightarrow> m AND event = 0))"
proof -
  have reg: "conn_reg interest st k c conn" using ok c by (simp add: reg_ok_def)
  then obtain er ew where er: "events st (c_read conn) = Some er" "events st (c_write conn) = Some ew"
    "ev_data er = c" "ev_data ew = c" "c_read conn \<noteq> c_write conn"
    by (auto simp: conn_reg_def split: option.splits)
  have dc: "ev_data e = c" using sd e er by (auto simp: side_def)
  have rw: "READ_EVENT \<noteq> WRITE_EVENT" "WRITE_EVENT = EPOLLOUT" "READ_EVENT = EPOLLIN OR EPOLLRDHUP"
    by (simp_all add: epoll_consts)
  obtain oe prev eo where o: "other_event conn event = (oe, prev)" "events st oe = Some eo"
    "eo = (if event = READ_EVENT then ew else er)" "prev = (if event = READ_EVENT then EPOLLOUT else READ_EVENT)"
    using sd er rw by (auto simp: other_event_def side_def)
  let ?op = "if ev_active eo then EPOLL_CTL_MOD else EPOLL_CTL_DEL"
  let ?m = "if ev_active eo then prev OR flags else 0" and ?p = "if ev_active eo then c else 0"
  obtain r k' where r: "ctl ?op (c_fd conn) ?m ?p k = (r, k')" by fastforce
  have step: "event_del ctl st k ev event flags = (if r = - 1 then Some (- 1, st, k')
      else Some (0, st\<lparr>events := (events st)(ev \<mapsto> e\<lparr>ev_active := False\<rparr>)\<rparr>, k'))"
    using e dc c o r f(2) by (cases "ev_active eo") (simp_all add: event_del_def upd_event_def)
  show ?thesis
  proof (cases "r = - 1")
    case True
    then have "interest k' = interest k" using spec r unfolding epoll_spec_def by blast
    then show ?thesis using step True ok reg_ok_kernel [of interest k' k st] by auto
  next
    case False
    let ?st = "st\<lparr>events := (events st)(ev \<mapsto> e\<lparr>ev_active := False\<rparr>)\<rparr>"
    let ?x = "if ev_active eo then Some (?m, c) else None"
    have k': "interest k' = (interest k)(c_fd conn := ?x)"
      using epoll_specD(2) [OF spec r False] by (cases "ev_active eo") simp_all
    have m: "(prev OR flags) AND (READ_EVENT OR EPOLLOUT) = prev AND (READ_EVENT OR EPOLLOUT)"
      using f(1) by (rule mask_or)
    have fe: "flags AND READ_EVENT = 0" "flags AND EPOLLOUT = 0"
      using f(1) by (metis bit.conj_disj_distrib or_eq_0_iff)+
    have "(prev OR flags) AND event = 0"
      using sd o(4) rw fe by (auto simp: side_def bit.conj_disj_distrib2 epoll_consts)
    moreover have "conn_reg interest ?st k' c conn"
      using er sd e m k' o rw by (auto simp: conn_reg_def side_def reg_mask_def epoll_consts)
    then have "reg_ok interest ?st k'"
      by (intro reg_ok_change [OF ok c _ e(1) refl _ k']) (use sd dc in \<open>auto simp: side_def\<close>)
    ultimately show ?thesis using step False k' by (auto split: if_splits)
  qed
qed

section \<open>Which handlers a pass runs\<close>

type_synonym log_state = "((event_handler \<times> addr) list) conn_state_scheme"

text \<open>Handlers that only record their calls.\<close>

definition log_call :: "event_handler \<Rightarrow> addr \<Rightarrow> log_state \<Rightarrow> log_state option" where
  "log_call h ev st = Some (conn_state.more_update (\<lambda>log. log @ [(h, ev)]) st)"

text \<open>The calls the flags \<open>revents\<close> reported for \<open>c\<close> ask for: the read handler first.\<close>

definition wanted :: "'a conn_state_scheme \<Rightarrow> u32 \<times> addr \<Rightarrow> (event_handler \<times> addr) list" where
  "wanted st entry = (case entry of (revents, c) \<Rightarrow>
     (case conns st c of None \<Rightarrow> [] | Some conn \<Rightarrow>
        if c_fd conn = - 1 then []
        else (case events st (c_read conn) of None \<Rightarrow> [] | Some e \<Rightarrow>
                if widen revents AND EPOLLIN \<noteq> 0 \<and> ev_active e then [(ev_handler e, c_read conn)] else []) @
             (case events st (c_write conn) of None \<Rightarrow> [] | Some e \<Rightarrow>
                if widen revents AND EPOLLOUT \<noteq> 0 \<and> ev_active e then [(ev_handler e, c_write conn)] else [])))"

text \<open>\<open>same\<close>: two states that differ only in the ready and end-of-file marks and in the record.\<close>

definition same :: "'a conn_state_scheme \<Rightarrow> 'a conn_state_scheme \<Rightarrow> bool" where
  "same st st' \<longleftrightarrow> conns st' = conns st \<and>
     (\<forall>ev. map_option (\<lambda>e. (ev_handler e, ev_active e)) (events st' ev) =
           map_option (\<lambda>e. (ev_handler e, ev_active e)) (events st ev))"

lemma same_refl [simp]: "same st st"
  by (simp add: same_def)

lemma same_trans: "same a b \<Longrightarrow> same b c \<Longrightarrow> same a c"
  by (simp add: same_def)

lemma same_event:
  assumes "same st st'" "events st ev = Some e"
  obtains e' where "events st' ev = Some e'" "ev_handler e' = ev_handler e" "ev_active e' = ev_active e"
proof -
  have "map_option (\<lambda>e. (ev_handler e, ev_active e)) (events st' ev) = Some (ev_handler e, ev_active e)"
    using assms by (simp add: same_def)
  with that show thesis by auto
qed

lemma same_none: "same st st' \<Longrightarrow> events st' ev = None \<longleftrightarrow> events st ev = None"
  by (cases "events st ev"; cases "events st' ev") (auto simp: same_def dest: spec [of _ ev])

definition slot :: "bool \<Rightarrow> addr \<Rightarrow> event_s option \<Rightarrow> (event_handler \<times> addr) list" where
  "slot p ev eo = (case eo of None \<Rightarrow> [] | Some e \<Rightarrow> if p \<and> ev_active e then [(ev_handler e, ev)] else [])"

lemma same_slot: "same st st' \<Longrightarrow> slot p ev (events st' ev) = slot p ev (events st ev)"
  by (cases "events st ev"; cases "events st' ev") (auto simp: same_def slot_def dest: spec [of _ ev])

lemma same_wanted:
  assumes "same st st'"
  shows "wanted st' entry = wanted st entry"
proof -
  obtain rv c where "entry = (rv, c)" by fastforce
  then show ?thesis
    using same_slot [OF assms] assms unfolding wanted_def slot_def same_def
    by (cases "conns st c") simp_all
qed

definition entry_ok :: "'a conn_state_scheme \<Rightarrow> u32 \<times> addr \<Rightarrow> bool" where
  "entry_ok st entry \<longleftrightarrow> (\<exists>conn. conns st (snd entry) = Some conn \<and>
     events st (c_read conn) \<noteq> None \<and> events st (c_write conn) \<noteq> None)"

lemma same_entry_ok: "same st st' \<Longrightarrow> entry_ok st' entry = entry_ok st entry"
  using same_none [of st st'] by (simp add: entry_ok_def same_def)

lemma dispatch_log:
  assumes "entry_ok st entry"
  shows "\<exists>st'. dispatch log_call st entry = Some st' \<and> same st st' \<and>
    conn_state.more st' = conn_state.more st @ wanted st entry"
proof -
  obtain rv c where rv: "entry = (rv, c)" by fastforce
  obtain conn er ew where c: "conns st c = Some conn" "events st (c_read conn) = Some er"
    "events st (c_write conn) = Some ew" using assms rv by (auto simp: entry_ok_def)
  show ?thesis
  proof (cases "c_fd conn = - 1")
    case True
    then show ?thesis using c rv by (simp add: dispatch_def wanted_def)
  next
    case False
    have "\<exists>st1. dispatch_read log_call st c (widen rv) = Some st1 \<and> same st st1 \<and> conn_state.more st1 =
      conn_state.more st @ (if widen rv AND EPOLLIN \<noteq> 0 \<and> ev_active er then [(ev_handler er, c_read conn)] else [])"
      using c by (auto simp: dispatch_read_def run_handler_def upd_event_def log_call_def same_def)
    then obtain st1 where st1: "dispatch_read log_call st c (widen rv) = Some st1" "same st st1"
      "conn_state.more st1 = conn_state.more st @
        (if widen rv AND EPOLLIN \<noteq> 0 \<and> ev_active er then [(ev_handler er, c_read conn)] else [])" by blast
    obtain ew1 where ew1: "events st1 (c_write conn) = Some ew1" "ev_handler ew1 = ev_handler ew"
      "ev_active ew1 = ev_active ew" using same_event [OF st1(2) c(3)] by blast
    have "conns st1 c = Some conn" using st1(2) c by (simp add: same_def)
    then have "\<exists>st2. dispatch_write log_call st1 c (widen rv) = Some st2 \<and> same st1 st2 \<and> conn_state.more st2 =
      conn_state.more st1 @ (if widen rv AND EPOLLOUT \<noteq> 0 \<and> ev_active ew then [(ev_handler ew, c_write conn)] else [])"
      using ew1 False by (auto simp: dispatch_write_def run_handler_def upd_event_def log_call_def same_def)
    then show ?thesis using st1 c False rv same_trans
      by (auto simp: dispatch_def wanted_def)
  qed
qed

lemma dispatch_all_log:
  assumes "\<forall>entry\<in>set list. entry_ok st entry"
  shows "\<exists>st'. dispatch_all log_call st list = Some st' \<and> same st st' \<and>
    conn_state.more st' = conn_state.more st @ concat (map (wanted st) list)"
  using assms
proof (induction list arbitrary: st)
  case (Cons entry list)
  obtain st1 where st1: "dispatch log_call st entry = Some st1" "same st st1"
    "conn_state.more st1 = conn_state.more st @ wanted st entry" using dispatch_log Cons.prems by fastforce
  have "\<forall>entry\<in>set list. entry_ok st1 entry" using Cons.prems same_entry_ok [OF st1(2)] by simp
  from Cons.IH [OF this] obtain st' where st': "dispatch_all log_call st1 list = Some st'" "same st1 st'"
    "conn_state.more st' = conn_state.more st1 @ concat (map (wanted st1) list)" by blast
  have "wanted st1 = wanted st" using same_wanted [OF st1(2)] by auto
  then show ?case using st1 st' same_trans by auto
qed simp

section \<open>Properties\<close>

text \<open>One connection, with the read event active, registered with a kernel that is its interest list.\<close>

definition ex_ev :: "bool \<Rightarrow> event_handler \<Rightarrow> event_s" where
  "ex_ev act h = \<lparr>ev_data = 500, ev_active = act, ev_ready = False, ev_timedout = False, ev_timer_set = False,
     ev_pending_eof = False, ev_eof = False, ev_error = False, ev_handler = h\<rparr>"

definition ex_conn :: connection_s where
  "ex_conn = \<lparr>c_data = 0, c_read = 100, c_write = 200, c_fd = 7, c_recv = NoRecv, c_send = NoSend, c_sent = 0, c_ssl = 0\<rparr>"

definition ex_cstate :: log_state where
  "ex_cstate = \<lparr>theap = Map.empty, ttree = \<lparr>rbt_root = 1, rbt_sentinel = 1, rbt_insert = rbtree_insert_timer_value\<rparr>,
     events = [100 \<mapsto> ex_ev True H_http_read_event_process, 200 \<mapsto> ex_ev False H_http_write_event_process],
     clock = \<lambda>n. (1, 0), ticks = 0, conns = [500 \<mapsto> ex_conn], free_connections = 0, free_connection_n = 0, \<dots> = []\<rparr>"

fun ex_ctl :: "(int \<rightharpoonup> u32 \<times> addr) epoll_ctl" where
  "ex_ctl EPOLL_CTL_ADD fd m c k = (if k fd = None then (0, k(fd \<mapsto> (m, c))) else (- 1, k))"
| "ex_ctl EPOLL_CTL_MOD fd m c k = (if k fd = None then (- 1, k) else (0, k(fd \<mapsto> (m, c))))"
| "ex_ctl EPOLL_CTL_DEL fd m c k = (if k fd = None then (- 1, k) else (0, k(fd := None)))"

lemma ex_spec: "epoll_spec ex_ctl id"
  unfolding epoll_spec_def
proof (intro allI impI)
  fix op fd m c k r k'
  assume "ex_ctl op fd m c k = (r, k')"
  then show "r = - 1 \<and> id k' = id k \<or> r \<noteq> - 1 \<and> (id k fd = None) = (op = EPOLL_CTL_ADD) \<and>
       id k' = (id k)(fd := if op = EPOLL_CTL_DEL then None else Some (m, c))"
    by (cases op) (auto split: if_splits)
qed

lemma ex_reg: "reg_ok id ex_cstate [7 \<mapsto> (READ_EVENT OR CLEAR_EVENT, 500)]"
  by (auto simp: reg_ok_def conn_reg_def ex_cstate_def ex_conn_def ex_ev_def reg_mask_def epoll_consts split: if_splits)

text \<open>
  C24: \<open>event_add\<close> keeps the agreement between the events' \<open>active\<close> flags and the kernel's interest
  list: it adds the descriptor exactly if the kernel does not watch it, changes the registration
  otherwise, keeps what the other event asked for, and marks the event active if and only if the
  kernel accepted.
\<close>

theorem event_add_agrees:
  assumes "reg_ok interest st k" "epoll_spec ctl interest" "conns st c = Some conn" "c_fd conn \<noteq> - 1"
    "side conn ev event" "events st ev = Some e" "\<not> ev_active e" "flags AND (READ_EVENT OR EPOLLOUT) = 0"
  shows "\<exists>r st' k'. event_add ctl st k ev event flags = Some (r, st', k') \<and> reg_ok interest st' k' \<and>
    (r = 0 \<or> r = - 1) \<and> (r = - 1 \<longrightarrow> st' = st \<and> interest k' = interest k) \<and>
    (r = 0 \<longrightarrow> st' = st\<lparr>events := (events st)(ev \<mapsto> e\<lparr>ev_active := True\<rparr>)\<rparr> \<and>
      (\<exists>m. interest k' (c_fd conn) = Some (m, c) \<and> m AND event = event))"
  using event_add_ok [OF assms] .

theorem event_add_agrees_witness:
  "\<exists>r st' k'. event_add ex_ctl ex_cstate [7 \<mapsto> (READ_EVENT OR CLEAR_EVENT, 500)] 200 WRITE_EVENT CLEAR_EVENT = Some (r, st', k') \<and>
    reg_ok id st' k'"
proof -
  have "conns ex_cstate 500 = Some ex_conn" "c_fd ex_conn \<noteq> - 1" "side ex_conn 200 WRITE_EVENT"
    "events ex_cstate 200 = Some (ex_ev False H_http_write_event_process)"
    "\<not> ev_active (ex_ev False H_http_write_event_process)" "CLEAR_EVENT AND (READ_EVENT OR EPOLLOUT) = 0"
    by (simp_all add: ex_cstate_def ex_conn_def ex_ev_def side_def epoll_consts)
  from event_add_agrees [OF ex_reg ex_spec this] show ?thesis by blast
qed

text \<open>
  \<open>event_del\<close> keeps the same agreement: the registration is removed if the other event is not
  active, reduced to what the other event asks for if it is.
\<close>

theorem event_del_agrees:
  assumes "reg_ok interest st k" "epoll_spec ctl interest" "conns st c = Some conn" "c_fd conn \<noteq> - 1"
    "side conn ev event" "events st ev = Some e" "ev_active e" "flags AND (READ_EVENT OR EPOLLOUT) = 0"
    "flags AND CLOSE_EVENT = 0"
  shows "\<exists>r st' k'. event_del ctl st k ev event flags = Some (r, st', k') \<and> reg_ok interest st' k' \<and>
    (r = 0 \<or> r = - 1) \<and> (r = - 1 \<longrightarrow> st' = st \<and> interest k' = interest k) \<and>
    (r = 0 \<longrightarrow> st' = st\<lparr>events := (events st)(ev \<mapsto> e\<lparr>ev_active := False\<rparr>)\<rparr> \<and>
      (\<forall>m p. interest k' (c_fd conn) = Some (m, p) \<longrightarrow> m AND event = 0))"
  using event_del_ok [OF assms] .

theorem event_del_agrees_witness:
  "\<exists>r st' k'. event_del ex_ctl ex_cstate [7 \<mapsto> (READ_EVENT OR CLEAR_EVENT, 500)] 100 READ_EVENT CLEAR_EVENT = Some (r, st', k') \<and>
    reg_ok id st' k'"
proof -
  have "conns ex_cstate 500 = Some ex_conn" "c_fd ex_conn \<noteq> - 1" "side ex_conn 100 READ_EVENT"
    "events ex_cstate 100 = Some (ex_ev True H_http_read_event_process)"
    "ev_active (ex_ev True H_http_read_event_process)" "CLEAR_EVENT AND (READ_EVENT OR EPOLLOUT) = 0"
    "CLEAR_EVENT AND CLOSE_EVENT = 0"
    by (simp_all add: ex_cstate_def ex_conn_def ex_ev_def side_def epoll_consts)
  from event_del_agrees [OF ex_reg ex_spec this] show ?thesis by blast
qed

text \<open>
  C25: a pass of \<open>event_process\<close> over the reported events runs, for each entry in order, the read
  handler and then the write handler of an open connection, each only if it was reported and its
  event is active; a report of an error alone counts as both. Entries of closed connections are
  skipped.
\<close>

theorem event_process_runs_wanted:
  assumes "list \<noteq> []" "\<forall>entry\<in>set list. entry_ok st entry"
  shows "\<exists>st'. event_process log_call st timeout (WaitEvents list) = Some (0, st') \<and>
    conn_state.more st' = conn_state.more st @ concat (map (wanted st) list)"
  using dispatch_all_log [OF assms(2)] assms(1) by (auto simp: event_process_def)

theorem event_process_runs_wanted_witness:
  "\<exists>st'. event_process log_call ex_cstate 1000 (WaitEvents [(EPOLLERR, 500)]) = Some (0, st') \<and>
    conn_state.more st' = [(H_http_read_event_process, 100)]"
proof -
  have "[(EPOLLERR, 500::addr)] \<noteq> []" "\<forall>entry\<in>set [(EPOLLERR, 500)]. entry_ok ex_cstate entry"
    "wanted ex_cstate (EPOLLERR, 500) = [(H_http_read_event_process, 100)]" "conn_state.more ex_cstate = []"
    by (simp_all add: entry_ok_def wanted_def widen_def ex_cstate_def ex_conn_def ex_ev_def epoll_consts)
  with event_process_runs_wanted [of "[(EPOLLERR, 500)]" ex_cstate 1000] show ?thesis by simp
qed

text \<open>
  Whatever the handlers do, if the read handler of an entry closes the connection (or it is
  closed already), its write handler is not run in that round.
\<close>

theorem closed_connection_not_written:
  assumes "conns st c = Some conn" "c_fd conn \<noteq> - 1" "dispatch_read call st c (widen revents) = Some st1"
    "conns st1 c = Some conn1" "c_fd conn1 = - 1" "events st1 (c_write conn1) \<noteq> None"
  shows "dispatch call st (revents, c) = Some st1"
  using assms by (auto simp: dispatch_def dispatch_write_def)

theorem closed_connection_not_written_witness:
  "\<exists>st1. dispatch (\<lambda>h ev st. upd_conn st 500 (c_fd_update (\<lambda>_. - 1))) ex_cstate (EPOLLIN OR EPOLLOUT, 500) = Some st1"
proof -
  let ?call = "\<lambda>h ev st. upd_conn st 500 (c_fd_update (\<lambda>_. - 1))"
  have 1: "conns ex_cstate 500 = Some ex_conn" "c_fd ex_conn \<noteq> - 1" by (simp_all add: ex_cstate_def ex_conn_def)
  have "\<exists>st1 conn1. dispatch_read ?call ex_cstate 500 (widen (EPOLLIN OR EPOLLOUT)) = Some st1 \<and>
      conns st1 500 = Some conn1 \<and> c_fd conn1 = - 1 \<and> events st1 (c_write conn1) \<noteq> None"
    by (simp add: dispatch_read_def run_handler_def upd_event_def upd_conn_def widen_def ex_cstate_def ex_conn_def
        ex_ev_def epoll_consts)
  then show ?thesis using closed_connection_not_written [OF 1] by blast
qed

end
