(* ===== verification/Connection.thy ===== *)
theory Connection
  imports Event
begin

text \<open>
  The connection pool of \<^verbatim>\<open>src/connection.c\<close>: connections are taken from and returned to a free list
  threaded through their \<open>data\<close> fields. \<open>pool_ok st free\<close> says that the list is \<open>free\<close>, that the
  counter agrees with it and that a free connection is closed, watches nothing and has no timer.
  The locale \<open>connection_pool\<close> is the contract the clients rely on and proves that connections are
  neither lost nor handed out twice over any sequence of operations.
\<close>

section \<open>The pool\<close>

definition zero_event :: event_s where
  "zero_event = \<lparr>ev_data = 0, ev_active = False, ev_ready = False, ev_timedout = False, ev_timer_set = False,
     ev_pending_eof = False, ev_eof = False, ev_error = False, ev_handler = NoHandler\<rparr>"

definition zero_node :: rbtree_node_s where
  "zero_node = \<lparr>rb_key = 0, rb_left = 0, rb_right = 0, rb_parent = 0, rb_color = 0, rb_data = 0\<rparr>"

definition zero_conn :: connection_s where
  "zero_conn = \<lparr>c_data = 0, c_read = 0, c_write = 0, c_fd = 0, c_recv = NoRecv, c_send = NoSend, c_sent = 0, c_ssl = 0\<rparr>"

text \<open>The elements of an array of \<open>n\<close> objects of size \<open>sz\<close>, all \<open>z\<close>.\<close>

definition alloc_array :: "addr \<Rightarrow> nat \<Rightarrow> nat \<Rightarrow> 'o \<Rightarrow> (addr \<rightharpoonup> 'o) \<Rightarrow> (addr \<rightharpoonup> 'o)" where
  "alloc_array base sz n z m = fold (\<lambda>i m. m(base + i * sz \<mapsto> z)) [0..<n] m"

definition sizeof_connection :: nat where "sizeof_connection = 128"
definition sizeof_event :: nat where "sizeof_event = 80"

definition calloc_events :: "addr \<Rightarrow> nat \<Rightarrow> 'a conn_state_scheme \<Rightarrow> 'a conn_state_scheme" where
  "calloc_events base n st =
     st\<lparr>events := alloc_array base sizeof_event n zero_event (events st),
        theap := alloc_array (timer_node base) sizeof_event n zero_node (theap st)\<rparr>"

text \<open>
  The loop of \<open>connection_init\<close>, entered with \<open>i\<close> still to be decremented: with \<open>i = 0\<close> it would
  store to the element before the array. The counter is an \<open>int\<close>; from \<open>n = 2 ^ 31\<close> on it starts
  negative and the first store is outside the array too, so that the loop is entered with 0.
\<close>

fun init_loop :: "addr \<Rightarrow> addr \<Rightarrow> addr \<Rightarrow> nat \<Rightarrow> addr \<Rightarrow> 'a conn_state_scheme \<Rightarrow> (addr \<times> 'a conn_state_scheme) option" where
  "init_loop cb rb wb 0 nxt st = None"
| "init_loop cb rb wb (Suc i) nxt st =
     do { c \<leftarrow> Some (cb + i * sizeof_connection);
          st \<leftarrow> upd_conn st c (\<lambda>x. x\<lparr>c_data := nxt, c_read := rb + i * sizeof_event,
                                    c_write := wb + i * sizeof_event, c_fd := - 1\<rparr>);
          if i = 0 then Some (c, st) else init_loop cb rb wb i c st }"

text \<open>\<open>connection_init\<close> with the results of the three calls of \<open>calloc\<close> (\<open>None\<close> for \<open>NULL\<close>).\<close>

definition connection_init :: "u32 \<Rightarrow> addr option \<Rightarrow> addr option \<Rightarrow> addr option \<Rightarrow> 'a conn_state_scheme \<Rightarrow>
    (int \<times> 'a conn_state_scheme) option" where
  "connection_init n cmem wmem rmem st =
     (case cmem of None \<Rightarrow> Some (- 1, st) | Some cb \<Rightarrow>
      let st = st\<lparr>conns := alloc_array cb sizeof_connection (unat n) zero_conn (conns st)\<rparr>
      in (case wmem of None \<Rightarrow> Some (- 1, st) | Some wb \<Rightarrow>
          let st = calloc_events wb (unat n) st
          in (case rmem of None \<Rightarrow> Some (- 1, st) | Some rb \<Rightarrow>
              let st = calloc_events rb (unat n) st
              in do { (nxt, st) \<leftarrow> init_loop cb rb wb (if unat n < 2 ^ 31 then unat n else 0) 0 st;
                      Some (0, st\<lparr>free_connections := nxt, free_connection_n := n\<rparr>) })))"

definition get_free_connection_n :: "'a conn_state_scheme \<Rightarrow> u32" where
  "get_free_connection_n st = free_connection_n st"

text \<open>\<open>memset(ev, 0, sizeof(event_t))\<close>: the event and the timer node inside it.\<close>

definition zero_event_at :: "'a conn_state_scheme \<Rightarrow> addr \<Rightarrow> ('a conn_state_scheme) option" where
  "zero_event_at st ev =
     (if events st ev = None \<or> theap st (timer_node ev) = None then None
      else Some (st\<lparr>events := (events st)(ev \<mapsto> zero_event), theap := (theap st)(timer_node ev \<mapsto> zero_node)\<rparr>))"

text \<open>\<open>get_connection\<close>: the connection, 0 (\<open>NULL\<close>) if none is free.\<close>

definition get_connection :: "'a conn_state_scheme \<Rightarrow> int \<Rightarrow> (addr \<times> 'a conn_state_scheme) option" where
  "get_connection st s =
     (if free_connections st = 0 then Some (0, st)
      else do { c \<leftarrow> Some (free_connections st);
                conn \<leftarrow> conns st c;
                st \<leftarrow> Some (st\<lparr>free_connections := c_data conn, free_connection_n := free_connection_n st - 1\<rparr>);
                rev \<leftarrow> Some (c_read conn);
                wev \<leftarrow> Some (c_write conn);
                st \<leftarrow> upd_conn st c (\<lambda>_. zero_conn);
                st \<leftarrow> zero_event_at st rev;
                st \<leftarrow> zero_event_at st wev;
                st \<leftarrow> upd_conn st c (\<lambda>x. x\<lparr>c_read := rev, c_write := wev, c_fd := s\<rparr>);
                st \<leftarrow> upd_event st rev (ev_data_update (\<lambda>_. c));
                st \<leftarrow> upd_event st wev (ev_data_update (\<lambda>_. c));
                Some (c, st) })"

definition free_connection :: "'a conn_state_scheme \<Rightarrow> addr \<Rightarrow> ('a conn_state_scheme) option" where
  "free_connection st c =
     do { st \<leftarrow> upd_conn st c (c_data_update (\<lambda>_. free_connections st));
          Some (st\<lparr>free_connections := c, free_connection_n := free_connection_n st + 1\<rparr>) }"

text \<open>\<open>close_connection\<close>; \<open>close\<close> is the system call on the kernel state.\<close>

definition del_if_active :: "'k epoll_ctl \<Rightarrow> 'a conn_state_scheme \<Rightarrow> 'k \<Rightarrow> addr \<Rightarrow> ('a conn_state_scheme \<times> 'k) option" where
  "del_if_active ctl st k ev =
     do { e \<leftarrow> events st ev;
          if ev_active e
          then do { (r, st, k) \<leftarrow> event_del ctl st k ev READ_EVENT CLOSE_EVENT; Some (st, k) }
          else Some (st, k) }"

definition del_if_timer :: "'a conn_state_scheme \<Rightarrow> addr \<Rightarrow> ('a conn_state_scheme) option" where
  "del_if_timer st ev = do { e \<leftarrow> events st ev; if ev_timer_set e then event_del_timer st ev else Some st }"

definition close_connection :: "'k epoll_ctl \<Rightarrow> (int \<Rightarrow> 'k \<Rightarrow> 'k) \<Rightarrow> 'a conn_state_scheme \<Rightarrow> 'k \<Rightarrow> addr \<Rightarrow>
    ('a conn_state_scheme \<times> 'k) option" where
  "close_connection ctl close st k c =
     do { conn \<leftarrow> conns st c;
          if c_fd conn = - 1 then Some (st, k)
          else do { (st, k) \<leftarrow> del_if_active ctl st k (c_read conn);
                    (st, k) \<leftarrow> del_if_active ctl st k (c_write conn);
                    st \<leftarrow> del_if_timer st (c_read conn);
                    st \<leftarrow> del_if_timer st (c_write conn);
                    st \<leftarrow> free_connection st c;
                    conn \<leftarrow> conns st c;
                    fd \<leftarrow> Some (c_fd conn);
                    st \<leftarrow> upd_conn st c (c_fd_update (\<lambda>_. - 1));
                    Some (st, close fd k) } }"

section \<open>The invariant\<close>

fun free_chain :: "(addr \<rightharpoonup> connection_s) \<Rightarrow> addr \<Rightarrow> addr list \<Rightarrow> bool" where
  "free_chain m p [] \<longleftrightarrow> p = 0"
| "free_chain m p (x # xs) \<longleftrightarrow> p = x \<and> x \<noteq> 0 \<and>
     (case m x of None \<Rightarrow> False | Some conn \<Rightarrow> free_chain m (c_data conn) xs)"

definition wf_conns :: "'a conn_state_scheme \<Rightarrow> bool" where
  "wf_conns st \<longleftrightarrow> (\<forall>c conn. conns st c = Some conn \<longrightarrow> c \<noteq> 0 \<and> c_read conn \<noteq> c_write conn \<and>
     events st (c_read conn) \<noteq> None \<and> events st (c_write conn) \<noteq> None \<and>
     (\<forall>c' conn'. conns st c' = Some conn' \<longrightarrow> c' \<noteq> c \<longrightarrow>
        {c_read conn, c_write conn} \<inter> {c_read conn', c_write conn'} = {}))"

definition idle_event :: "event_s option \<Rightarrow> bool" where
  "idle_event eo \<longleftrightarrow> (case eo of None \<Rightarrow> False | Some e \<Rightarrow> \<not> ev_active e \<and> \<not> ev_timer_set e)"

definition idle :: "'a conn_state_scheme \<Rightarrow> addr \<Rightarrow> bool" where
  "idle st c \<longleftrightarrow> (case conns st c of None \<Rightarrow> False | Some conn \<Rightarrow>
     c_fd conn = - 1 \<and> idle_event (events st (c_read conn)) \<and> idle_event (events st (c_write conn)))"

definition pool_ok :: "'a conn_state_scheme \<Rightarrow> addr list \<Rightarrow> bool" where
  "pool_ok st free \<longleftrightarrow> wf_conns st \<and> free_chain (conns st) (free_connections st) free \<and> distinct free \<and>
     unat (free_connection_n st) = length free \<and> (\<forall>c\<in>set free. idle st c)"

lemma free_chain_upd:
  "c \<notin> set xs \<Longrightarrow> free_chain (m(c \<mapsto> x)) p xs = free_chain m p xs"
  by (induction xs arbitrary: p) (auto split: option.splits)

lemma free_chain_dom: "free_chain m p xs \<Longrightarrow> c \<in> set xs \<Longrightarrow> m c \<noteq> None"
  by (induction xs arbitrary: p) (auto split: option.splits)

text \<open>
  The invariant under changes of one connection: its event pointers stay, other connections' events
  are not touched.
\<close>

definition same_links :: "'a conn_state_scheme \<Rightarrow> 'a conn_state_scheme \<Rightarrow> bool" where
  "same_links st st' \<longleftrightarrow>
     (\<forall>c. map_option (\<lambda>x. (c_read x, c_write x)) (conns st' c) = map_option (\<lambda>x. (c_read x, c_write x)) (conns st c)) \<and>
     (\<forall>ev. events st ev \<noteq> None \<longrightarrow> events st' ev \<noteq> None)"

lemma same_linksE:
  assumes "same_links st st'" "conns st' c = Some x"
  obtains y where "conns st c = Some y" "c_read y = c_read x" "c_write y = c_write x"
proof -
  have "map_option (\<lambda>x. (c_read x, c_write x)) (conns st c) = Some (c_read x, c_write x)"
    using assms unfolding same_links_def by (metis option.simps(9))
  with that show thesis by auto
qed

lemma wf_conns_same:
  assumes "wf_conns st" "same_links st st'"
  shows "wf_conns st'"
  unfolding wf_conns_def
proof (intro allI impI conjI)
  fix c x assume x: "conns st' c = Some x"
  obtain y where y: "conns st c = Some y" "c_read y = c_read x" "c_write y = c_write x"
    using same_linksE [OF assms(2) x] .
  show "c \<noteq> 0" "c_read x \<noteq> c_write x" using assms(1) y unfolding wf_conns_def by metis+
  have "events st (c_read y) \<noteq> None" "events st (c_write y) \<noteq> None"
    using assms(1) y(1) unfolding wf_conns_def by blast+
  then show "events st' (c_read x) \<noteq> None" "events st' (c_write x) \<noteq> None"
    using assms(2) y unfolding same_links_def by metis+
  fix c' x' assume x': "conns st' c' = Some x'" "c' \<noteq> c"
  obtain y' where y': "conns st c' = Some y'" "c_read y' = c_read x'" "c_write y' = c_write x'"
    using same_linksE [OF assms(2) x'(1)] .
  have "{c_read y, c_write y} \<inter> {c_read y', c_write y'} = {}"
    using assms(1) y(1) y'(1) x'(2) unfolding wf_conns_def by blast
  then show "{c_read x, c_write x} \<inter> {c_read x', c_write x'} = {}" using y y' by simp
qed

lemma idle_other:
  assumes wf: "wf_conns st" and c: "conns st c = Some conn" and x: "x \<noteq> c"
    and st': "conns st' x = conns st x" "\<And>ev. ev \<noteq> c_read conn \<Longrightarrow> ev \<noteq> c_write conn \<Longrightarrow> events st' ev = events st ev"
  shows "idle st' x = idle st x"
proof (cases "conns st x")
  case None
  then show ?thesis using st'(1) by (simp add: idle_def)
next
  case (Some y)
  then have "{c_read conn, c_write conn} \<inter> {c_read y, c_write y} = {}"
    using wf c x unfolding wf_conns_def by blast
  then have "events st' (c_read y) = events st (c_read y)" "events st' (c_write y) = events st (c_write y)"
    using st'(2) by auto
  then show ?thesis using st'(1) Some by (simp add: idle_def)
qed

text \<open>Zeroing an event whose timer is not in the tree leaves the timers alone.\<close>

lemma timers_ok_zero:
  assumes ok: "timers_ok b st evs" and ev: "ev \<notin> set evs" "events st ev \<noteq> None" and z: "zero_event_at st ev = Some st'"
  shows "timers_ok b st' evs" "\<And>x. x \<noteq> ev \<Longrightarrow> expiry st' x = expiry st x"
proof -
  have r: "tt_rep b (theap st, ttree st) (map timer_node evs)" "tt_live (theap st, ttree st) (timer_node ev)"
    using ok ev by (auto simp: timers_ok_def)
  have st': "st' = st\<lparr>events := (events st)(ev \<mapsto> zero_event), theap := (theap st)(timer_node ev \<mapsto> zero_node)\<rparr>"
    using z by (auto simp: zero_event_at_def split: if_splits)
  have "tt_rep b ((theap st)(timer_node ev \<mapsto> zero_node), ttree st) (map timer_node evs)"
    by (rule tt_rep_upd [OF r(1)]) (use ev r(2) in \<open>auto simp: tt_live_def\<close>)
  then show "timers_ok b st' evs"
    using ok ev st' by (auto simp: timers_ok_def tt_live_def zero_event_def)
  show "\<And>x. x \<noteq> ev \<Longrightarrow> expiry st' x = expiry st x" using st' by (simp add: expiry_def key_of_def)
qed

lemma get_connection_ok:
  assumes p: "pool_ok st (c # free)" and t: "timers_ok b st evs"
  obtains conn st' where "conns st c = Some conn" "get_connection st s = Some (c, st')" "pool_ok st' free" "timers_ok b st' evs"
    "conns st' = (conns st)(c \<mapsto> zero_conn\<lparr>c_read := c_read conn, c_write := c_write conn, c_fd := s\<rparr>)"
    "events st' = (events st)(c_read conn \<mapsto> zero_event\<lparr>ev_data := c\<rparr>, c_write conn \<mapsto> zero_event\<lparr>ev_data := c\<rparr>)"
proof -
  obtain conn where conn: "conns st c = Some conn" "free_connections st = c" "c \<noteq> 0"
    "free_chain (conns st) (c_data conn) free"
    using p by (auto simp: pool_ok_def split: option.splits)
  let ?r = "c_read conn" and ?w = "c_write conn"
  have wf: "?r \<noteq> ?w" "events st ?r \<noteq> None" "events st ?w \<noteq> None"
    using p conn(1) by (auto simp: pool_ok_def wf_conns_def)
  have ni: "?r \<notin> set evs" "?w \<notin> set evs"
    using p conn(1) t by (auto simp: pool_ok_def idle_def idle_event_def timers_ok_def split: option.splits)
  have h: "theap st (timer_node ?r) \<noteq> None" "theap st (timer_node ?w) \<noteq> None"
    using t wf by (auto simp: timers_ok_def tt_live_def)
  let ?st1 = "st\<lparr>free_connections := c_data conn, free_connection_n := free_connection_n st - 1,
    conns := (conns st)(c \<mapsto> zero_conn)\<rparr>"
  have t1: "timers_ok b ?st1 evs" using t by (simp add: timers_ok_def)
  obtain st2 where st2: "zero_event_at ?st1 ?r = Some st2" using wf h by (simp add: zero_event_at_def)
  then have st2': "st2 = ?st1\<lparr>events := (events st)(?r \<mapsto> zero_event), theap := (theap st)(timer_node ?r \<mapsto> zero_node)\<rparr>"
    using wf h by (simp add: zero_event_at_def)
  have t2: "timers_ok b st2 evs" by (rule timers_ok_zero(1) [OF t1 ni(1) _ st2]) (use wf in simp)
  obtain st3 where st3: "zero_event_at st2 ?w = Some st3" using wf h st2' by (simp add: zero_event_at_def)
  have t3: "timers_ok b st3 evs" by (rule timers_ok_zero(1) [OF t2 ni(2) _ st3]) (use wf st2' in simp)
  have st3': "st3 = ?st1\<lparr>events := (events st)(?r \<mapsto> zero_event, ?w \<mapsto> zero_event),
      theap := (theap st)(timer_node ?r \<mapsto> zero_node, timer_node ?w \<mapsto> zero_node)\<rparr>"
    using st3 wf h st2' by (simp add: zero_event_at_def)
  let ?st = "st3\<lparr>conns := (conns st)(c \<mapsto> zero_conn\<lparr>c_read := ?r, c_write := ?w, c_fd := s\<rparr>),
    events := (events st)(?r \<mapsto> zero_event\<lparr>ev_data := c\<rparr>, ?w \<mapsto> zero_event\<lparr>ev_data := c\<rparr>)\<rparr>"
  have "get_connection st s = Some (c, ?st)"
    using conn st2 st3 st2' st3' wf by (simp add: get_connection_def upd_conn_def upd_event_def fun_upd_twist)
  moreover have "timers_ok b ?st evs"
    using t3 st3' ni wf by (auto simp: timers_ok_def zero_event_def)
  moreover have "pool_ok ?st free"
  proof -
    have wfc: "wf_conns st" using p by (simp add: pool_ok_def)
    have "same_links st ?st" using conn(1) by (auto simp: same_links_def)
    moreover have "c \<notin> set free" using p by (simp add: pool_ok_def)
    moreover have "idle ?st x" if "x \<in> set free" for x
    proof -
      have "x \<noteq> c" using that \<open>c \<notin> set free\<close> by blast
      then have "idle ?st x = idle st x" by (intro idle_other [OF wfc conn(1)]) auto
      then show ?thesis using that p by (simp add: pool_ok_def)
    qed
    moreover have "unat (free_connection_n st - 1) = length free"
    proof -
      have n: "unat (free_connection_n st) = Suc (length free)" using p by (simp add: pool_ok_def)
      then have "free_connection_n st \<noteq> 0" by auto
      then show ?thesis using n by (simp add: unat_minus_one)
    qed
    ultimately show ?thesis
      using p conn(4) wf_conns_same [OF wfc] st3' by (auto simp: pool_ok_def free_chain_upd)
  qed
  ultimately show thesis using that [OF conn(1)] by simp
qed

lemma del_if_active_eq:
  assumes "events st ev = Some e"
  shows "del_if_active ctl st k ev = Some (st\<lparr>events := (events st)(ev \<mapsto> e\<lparr>ev_active := False\<rparr>)\<rparr>, k)"
proof (cases "ev_active e")
  case True
  then show ?thesis using assms by (simp add: del_if_active_def event_del_def upd_event_def CLOSE_EVENT_def)
next
  case False
  then have "(events st)(ev \<mapsto> e\<lparr>ev_active := False\<rparr>) = events st" using assms by (simp add: fun_upd_idem)
  then show ?thesis using assms False by (simp add: del_if_active_def)
qed

lemma timers_ok_event:
  assumes "timers_ok b st evs" "events st ev = Some e" "ev_timer_set e' = ev_timer_set e"
  shows "timers_ok b (st\<lparr>events := (events st)(ev \<mapsto> e')\<rparr>) evs"
  using assms by (auto simp: timers_ok_def)

lemma del_if_timer_ok:
  assumes ok: "timers_ok b st evs" and e: "events st ev = Some e"
  obtains H tree where
    "del_if_timer st ev = Some (st\<lparr>theap := H, ttree := tree, events := (events st)(ev \<mapsto> e\<lparr>ev_timer_set := False\<rparr>)\<rparr>)"
    "timers_ok b (st\<lparr>theap := H, ttree := tree, events := (events st)(ev \<mapsto> e\<lparr>ev_timer_set := False\<rparr>)\<rparr>) (remove1 ev evs)"
proof (cases "ev_timer_set e")
  case True
  then have "ev \<in> set evs" using ok e by (auto simp: timers_ok_def)
  from del_timer_ok [OF ok this e] obtain H tree st' where d: "event_del_timer st ev = Some st'"
    "st' = st\<lparr>theap := H, ttree := tree, events := (events st)(ev \<mapsto> e\<lparr>ev_timer_set := False\<rparr>)\<rparr>"
    "timers_ok b st' (remove1 ev evs)" .
  have "del_if_timer st ev = event_del_timer st ev" using e True by (simp add: del_if_timer_def)
  with d that [of tree H] show thesis by simp
next
  case False
  then have "ev \<notin> set evs" using ok e by (auto simp: timers_ok_def)
  moreover have "st\<lparr>theap := theap st, ttree := ttree st, events := (events st)(ev \<mapsto> e\<lparr>ev_timer_set := False\<rparr>)\<rparr> = st"
    using False e by (simp add: fun_upd_idem)
  ultimately show thesis using that [of "ttree st" "theap st"] ok e False by (simp add: del_if_timer_def remove1_idem)
qed

definition without :: "connection_s \<Rightarrow> addr list \<Rightarrow> addr list" where
  "without conn evs = remove1 (c_write conn) (remove1 (c_read conn) evs)"

lemma close_connection_ok:
  assumes p: "pool_ok st free" and t: "timers_ok b st evs" and c: "conns st c = Some conn" "c_fd conn \<noteq> - 1"
    and n: "c \<notin> set free" "Suc (length free) < 2 ^ 32"
  obtains st' where "close_connection ctl close st k c = Some (st', close (c_fd conn) k)" "pool_ok st' (c # free)"
    "timers_ok b st' (without conn evs)" "conns st' = (conns st)(c \<mapsto> conn\<lparr>c_data := free_connections st, c_fd := - 1\<rparr>)"
    "\<And>ev. ev \<noteq> c_read conn \<Longrightarrow> ev \<noteq> c_write conn \<Longrightarrow> events st' ev = events st ev"
proof -
  let ?r = "c_read conn" and ?w = "c_write conn"
  have wfc: "wf_conns st" using p by (simp add: pool_ok_def)
  then obtain er ew where e: "?r \<noteq> ?w" "events st ?r = Some er" "events st ?w = Some ew" "c \<noteq> 0"
    using c(1) unfolding wf_conns_def by (metis not_None_eq)
  let ?er = "er\<lparr>ev_active := False\<rparr>" and ?ew = "ew\<lparr>ev_active := False\<rparr>"
  let ?st1 = "st\<lparr>events := (events st)(?r \<mapsto> ?er)\<rparr>" and ?st2 = "st\<lparr>events := (events st)(?r \<mapsto> ?er, ?w \<mapsto> ?ew)\<rparr>"
  have s1: "del_if_active ctl st k ?r = Some (?st1, k)" "del_if_active ctl ?st1 k ?w = Some (?st2, k)"
    using del_if_active_eq [of st ?r er ctl k] del_if_active_eq [of ?st1 ?w ew ctl k] e by simp_all
  have "timers_ok b ?st1 evs" using timers_ok_event [OF t e(2)] by simp
  from timers_ok_event [OF this, of ?w ew ?ew] have t2: "timers_ok b ?st2 evs" using e by simp
  obtain H3 T3 where s3: "del_if_timer ?st2 ?r = Some (?st2\<lparr>theap := H3, ttree := T3,
      events := (events ?st2)(?r \<mapsto> ?er\<lparr>ev_timer_set := False\<rparr>)\<rparr>)"
    "timers_ok b (?st2\<lparr>theap := H3, ttree := T3, events := (events ?st2)(?r \<mapsto> ?er\<lparr>ev_timer_set := False\<rparr>)\<rparr>) (remove1 ?r evs)"
    by (rule del_if_timer_ok [OF t2, of ?r ?er]) (use e in auto)
  let ?st3 = "?st2\<lparr>theap := H3, ttree := T3, events := (events ?st2)(?r \<mapsto> ?er\<lparr>ev_timer_set := False\<rparr>)\<rparr>"
  obtain H4 T4 where s4: "del_if_timer ?st3 ?w = Some (?st3\<lparr>theap := H4, ttree := T4,
      events := (events ?st3)(?w \<mapsto> ?ew\<lparr>ev_timer_set := False\<rparr>)\<rparr>)"
    "timers_ok b (?st3\<lparr>theap := H4, ttree := T4, events := (events ?st3)(?w \<mapsto> ?ew\<lparr>ev_timer_set := False\<rparr>)\<rparr>) (without conn evs)"
    unfolding without_def by (rule del_if_timer_ok [OF s3(2), of ?w ?ew]) (use e in auto)
  let ?E = "(events ?st3)(?w \<mapsto> ?ew\<lparr>ev_timer_set := False\<rparr>)"
  let ?st = "st\<lparr>theap := H4, ttree := T4, events := ?E, conns := (conns st)(c \<mapsto> conn\<lparr>c_data := free_connections st, c_fd := - 1\<rparr>),
     free_connections := c, free_connection_n := free_connection_n st + 1\<rparr>"
  have "close_connection ctl close st k c = Some (?st, close (c_fd conn) k)"
    using c s1 s3(1) s4(1) by (simp add: close_connection_def free_connection_def upd_conn_def)
  moreover have "timers_ok b ?st (without conn evs)" using s4(2) by (simp add: timers_ok_def)
  moreover have "\<And>ev. ev \<noteq> ?r \<Longrightarrow> ev \<noteq> ?w \<Longrightarrow> events ?st ev = events st ev" by simp
  moreover have "pool_ok ?st (c # free)"
  proof -
    have "same_links st ?st" using c(1) by (auto simp: same_links_def)
    from wf_conns_same [OF wfc this] have "wf_conns ?st" .
    moreover have "free_chain (conns ?st) (free_connections ?st) (c # free)"
      using p e(4) n(1) by (simp add: pool_ok_def free_chain_upd)
    moreover have "unat (free_connection_n st + 1) = Suc (length free)"
      using p n(2) by (simp add: pool_ok_def unat_word_ariths)
    moreover have "idle ?st x" if "x \<in> set free" for x
    proof -
      have "x \<noteq> c" using that n(1) by blast
      then have "idle ?st x = idle st x" by (intro idle_other [OF wfc c(1)]) auto
      then show ?thesis using that p by (simp add: pool_ok_def)
    qed
    moreover have "idle ?st c" using e(1) by (simp add: idle_def idle_event_def)
    ultimately show ?thesis using p n(1) by (simp add: pool_ok_def)
  qed
  ultimately show thesis using that by simp
qed

section \<open>The contract of the pool\<close>

text \<open>
  A client sees a stack of free connections: taking one pops it (0 when there is none), returning a
  connection that is in use pushes it, returning one that is free does nothing.
\<close>

datatype pool_op = Get int | Close addr

fun pool_spec :: "pool_op list \<Rightarrow> addr list \<Rightarrow> addr list \<times> addr list" where
  "pool_spec [] free = ([], free)"
| "pool_spec (Get fd # ops) [] = (let (rs, free') = pool_spec ops [] in (0 # rs, free'))"
| "pool_spec (Get fd # ops) (c # free) = (let (rs, free') = pool_spec ops free in (c # rs, free'))"
| "pool_spec (Close c # ops) free = pool_spec ops (if c \<in> set free then free else c # free)"

fun op_ok :: "addr set \<Rightarrow> pool_op \<Rightarrow> bool" where
  "op_ok cs (Get fd) \<longleftrightarrow> fd \<noteq> - 1"
| "op_ok cs (Close c) \<longleftrightarrow> c \<in> cs"

fun pool_run :: "('s \<Rightarrow> int \<Rightarrow> (addr \<times> 's) option) \<Rightarrow> ('s \<Rightarrow> addr \<Rightarrow> 's option) \<Rightarrow> pool_op list \<Rightarrow> 's \<Rightarrow>
    (addr list \<times> 's) option" where
  "pool_run g cl [] s = Some ([], s)"
| "pool_run g cl (Get fd # ops) s = do { (c, s) \<leftarrow> g s fd; (rs, s) \<leftarrow> pool_run g cl ops s; Some (c # rs, s) }"
| "pool_run g cl (Close c # ops) s = do { s \<leftarrow> cl s c; pool_run g cl ops s }"

locale connection_pool =
  fixes inv :: "'s \<Rightarrow> addr list \<Rightarrow> bool" and members :: "'s \<Rightarrow> addr set"
    and take_conn :: "'s \<Rightarrow> int \<Rightarrow> (addr \<times> 's) option" and close_conn :: "'s \<Rightarrow> addr \<Rightarrow> 's option"
  assumes inv_free: "inv s free \<Longrightarrow> distinct free \<and> set free \<subseteq> members s \<and> 0 \<notin> members s \<and> finite (members s)"
    and take_empty: "inv s [] \<Longrightarrow> take_conn s fd = Some (0, s)"
    and take_free: "inv s (c # free) \<Longrightarrow> fd \<noteq> - 1 \<Longrightarrow>
      \<exists>s'. take_conn s fd = Some (c, s') \<and> inv s' free \<and> members s' = members s"
    and close_used: "inv s free \<Longrightarrow> c \<in> members s \<Longrightarrow> c \<notin> set free \<Longrightarrow>
      \<exists>s'. close_conn s c = Some s' \<and> inv s' (c # free) \<and> members s' = members s"
    and close_free: "inv s free \<Longrightarrow> c \<in> set free \<Longrightarrow> close_conn s c = Some s"
begin

lemma run_refines:
  assumes "inv s free" "\<forall>op\<in>set ops. op_ok (members s) op"
  shows "\<exists>s'. pool_run take_conn close_conn ops s = Some (fst (pool_spec ops free), s') \<and>
    inv s' (snd (pool_spec ops free)) \<and> members s' = members s"
  using assms
proof (induction ops free arbitrary: s rule: pool_spec.induct)
  case (1 free)
  then show ?case by simp
next
  case (2 fd ops)
  from 2(1) [OF 2(2)] 2(3) obtain s' where "pool_run take_conn close_conn ops s = Some (fst (pool_spec ops []), s')"
    "inv s' (snd (pool_spec ops []))" "members s' = members s" by auto
  then show ?case using take_empty [OF 2(2), of fd] by (auto simp: case_prod_beta)
next
  case (3 fd ops c free)
  from take_free [OF 3(2), of fd] 3(3) obtain t where t: "take_conn s fd = Some (c, t)" "inv t free"
    "members t = members s" by auto
  from 3(1) [OF t(2)] 3(3) t(3) obtain s' where "pool_run take_conn close_conn ops t = Some (fst (pool_spec ops free), s')"
    "inv s' (snd (pool_spec ops free))" "members s' = members t" by auto
  then show ?case using t by (auto simp: case_prod_beta)
next
  case (4 c ops free)
  have "\<exists>t. close_conn s c = Some t \<and> inv t (if c \<in> set free then free else c # free) \<and> members t = members s"
    using close_used [OF 4(2), of c] close_free [OF 4(2), of c] 4(2,3) by simp
  then obtain t where t: "close_conn s c = Some t" "inv t (if c \<in> set free then free else c # free)"
    "members t = members s" by blast
  from 4(1) [OF t(2)] 4(3) t(3) obtain s' where
    "pool_run take_conn close_conn ops t = Some (fst (pool_spec ops (if c \<in> set free then free else c # free)), s')"
    "inv s' (snd (pool_spec ops (if c \<in> set free then free else c # free)))" "members s' = members t" by auto
  then show ?case using t by simp
qed

text \<open>Connections are neither lost nor duplicated: free and used ones always add up.\<close>

lemma run_conserves:
  assumes "inv s free" "\<forall>op\<in>set ops. op_ok (members s) op"
  shows "\<exists>rs s' free'. pool_run take_conn close_conn ops s = Some (rs, s') \<and> inv s' free' \<and>
    length free' + card (members s - set free') = card (members s)"
proof -
  from run_refines [OF assms] obtain rs s' free' where r: "pool_run take_conn close_conn ops s = Some (rs, s')"
    "inv s' free'" "members s' = members s" by blast
  have f: "distinct free'" "set free' \<subseteq> members s" "finite (members s)" using inv_free [OF r(2)] r(3) by auto
  then have "length free' = card (set free')" by (simp add: distinct_card)
  also have "card (set free') + card (members s - set free') = card (members s)"
    using f by (simp add: card_Diff_subset card_mono)
  finally show ?thesis using r by auto
qed

lemma take_close:
  assumes "inv s (c # free)" "fd \<noteq> - 1"
  shows "\<exists>s' s''. take_conn s fd = Some (c, s') \<and> close_conn s' c = Some s'' \<and> inv s'' (c # free)"
proof -
  from take_free [OF assms] obtain s' where s': "take_conn s fd = Some (c, s')" "inv s' free" "members s' = members s"
    by blast
  have "c \<in> members s'" "c \<notin> set free" using inv_free [OF assms(1)] s'(3) by auto
  from close_used [OF s'(2) this] s'(1) show ?thesis by blast
qed

end

text \<open>The model's pool: the program state and the kernel's.\<close>

definition pool_inv :: "u32 \<Rightarrow> 'a conn_state_scheme \<times> 'k \<Rightarrow> addr list \<Rightarrow> bool" where
  "pool_inv b s free \<longleftrightarrow> pool_ok (fst s) free \<and> (\<exists>evs. timers_ok b (fst s) evs) \<and>
     finite (dom (conns (fst s))) \<and> card (dom (conns (fst s))) < 2 ^ 32 \<and>
     (\<forall>c conn. conns (fst s) c = Some conn \<longrightarrow> c \<notin> set free \<longrightarrow> c_fd conn \<noteq> - 1)"

definition pool_members :: "'a conn_state_scheme \<times> 'k \<Rightarrow> addr set" where
  "pool_members s = dom (conns (fst s))"

definition pool_get :: "'a conn_state_scheme \<times> 'k \<Rightarrow> int \<Rightarrow> (addr \<times> 'a conn_state_scheme \<times> 'k) option" where
  "pool_get s fd = do { (c, st) \<leftarrow> get_connection (fst s) fd; Some (c, st, snd s) }"

definition pool_close :: "'k epoll_ctl \<Rightarrow> (int \<Rightarrow> 'k \<Rightarrow> 'k) \<Rightarrow> 'a conn_state_scheme \<times> 'k \<Rightarrow> addr \<Rightarrow>
    ('a conn_state_scheme \<times> 'k) option" where
  "pool_close ctl close s c = close_connection ctl close (fst s) (snd s) c"

lemma pool_inv_free:
  assumes "pool_inv b s free"
  shows "distinct free \<and> set free \<subseteq> pool_members s \<and> 0 \<notin> pool_members s \<and> finite (pool_members s)"
proof -
  have "set free \<subseteq> dom (conns (fst s))" "0 \<notin> dom (conns (fst s))"
    using assms by (auto simp: pool_inv_def pool_ok_def wf_conns_def dest: free_chain_dom)
  then show ?thesis using assms by (simp add: pool_inv_def pool_members_def pool_ok_def)
qed

lemma pool_get_empty: "pool_inv b s [] \<Longrightarrow> pool_get s fd = Some (0, s)"
  by (simp add: pool_inv_def pool_ok_def pool_get_def get_connection_def)

lemma pool_get_free:
  assumes inv: "pool_inv b s (c # free)" and fd: "fd \<noteq> - 1"
  shows "\<exists>s'. pool_get s fd = Some (c, s') \<and> pool_inv b s' free \<and> pool_members s' = pool_members s"
proof -
  from inv obtain evs where ok: "pool_ok (fst s) (c # free)" "timers_ok b (fst s) evs" by (auto simp: pool_inv_def)
  obtain conn st' where g: "conns (fst s) c = Some conn" "get_connection (fst s) fd = Some (c, st')" "pool_ok st' free"
    "timers_ok b st' evs"
    "conns st' = (conns (fst s))(c \<mapsto> zero_conn\<lparr>c_read := c_read conn, c_write := c_write conn, c_fd := fd\<rparr>)"
    by (rule get_connection_ok [OF ok])
  have d: "dom (conns st') = dom (conns (fst s))" using g(1,5) by auto
  have "\<forall>x y. conns st' x = Some y \<longrightarrow> x \<notin> set free \<longrightarrow> c_fd y \<noteq> - 1"
    using inv g(5) fd by (auto simp: pool_inv_def)
  then have "pool_inv b (st', snd s) free" using inv g d by (auto simp: pool_inv_def)
  then show ?thesis using g(2) d by (auto simp: pool_get_def pool_members_def)
qed

lemma pool_close_used:
  assumes inv: "pool_inv b s free" and c: "c \<in> pool_members s" "c \<notin> set free"
  shows "\<exists>s'. pool_close ctl close s c = Some s' \<and> pool_inv b s' (c # free) \<and> pool_members s' = pool_members s"
proof -
  from inv obtain evs where ok: "pool_ok (fst s) free" "timers_ok b (fst s) evs" by (auto simp: pool_inv_def)
  from c(1) obtain conn where conn: "conns (fst s) c = Some conn" by (auto simp: pool_members_def)
  then have fd: "c_fd conn \<noteq> - 1" using inv c(2) by (auto simp: pool_inv_def)
  have f: "distinct free" "set free \<subseteq> dom (conns (fst s))" "finite (dom (conns (fst s)))"
    using pool_inv_free [OF inv] by (auto simp: pool_members_def)
  have "card (set (c # free)) \<le> card (dom (conns (fst s)))" using f c conn by (intro card_mono) auto
  then have n: "Suc (length free) < 2 ^ 32" using inv f(1) c(2) by (simp add: pool_inv_def distinct_card)
  obtain st' where g: "close_connection ctl close (fst s) (snd s) c = Some (st', close (c_fd conn) (snd s))"
    "pool_ok st' (c # free)" "timers_ok b st' (without conn evs)"
    "conns st' = (conns (fst s))(c \<mapsto> conn\<lparr>c_data := free_connections (fst s), c_fd := - 1\<rparr>)"
    by (rule close_connection_ok [OF ok conn fd c(2) n])
  have d: "dom (conns st') = dom (conns (fst s))" using g(4) conn by auto
  have "\<forall>x y. conns st' x = Some y \<longrightarrow> x \<notin> set (c # free) \<longrightarrow> c_fd y \<noteq> - 1"
    using inv g(4) by (auto simp: pool_inv_def)
  then have "pool_inv b (st', close (c_fd conn) (snd s)) (c # free)" using inv g d by (auto simp: pool_inv_def)
  then show ?thesis using g(1) d by (auto simp: pool_close_def pool_members_def)
qed

lemma pool_close_free:
  assumes "pool_inv b s free" "c \<in> set free"
  shows "pool_close ctl close s c = Some s"
proof -
  have "idle (fst s) c" using assms by (simp add: pool_inv_def pool_ok_def)
  then show ?thesis by (auto simp: idle_def pool_close_def close_connection_def split: option.splits)
qed

interpretation cp: connection_pool "pool_inv b" pool_members pool_get "pool_close ctl close"
  by unfold_locales
    (erule pool_inv_free pool_get_empty pool_get_free pool_close_used pool_close_free; assumption)+

section \<open>Initialisation\<close>

lemma alloc_array_Suc:
  "alloc_array base sz (Suc n) z m = (alloc_array base sz n z m)(base + n * sz \<mapsto> z)"
  by (simp add: alloc_array_def)

lemma alloc_array_at:
  "alloc_array base sz n z m x = (if \<exists>i<n. x = base + i * sz then Some z else m x)"
  by (induction n) (auto simp: alloc_array_def less_Suc_eq)

abbreviation nth_conn :: "addr \<Rightarrow> nat \<Rightarrow> addr" where "nth_conn cb i \<equiv> cb + i * sizeof_connection"
abbreviation nth_event :: "addr \<Rightarrow> nat \<Rightarrow> addr" where "nth_event eb i \<equiv> eb + i * sizeof_event"

lemma sizeof_pos [simp]: "sizeof_connection \<noteq> 0" "sizeof_event \<noteq> 0"
  by (simp_all add: sizeof_connection_def sizeof_event_def)

lemma init_loop_eq:
  assumes "\<forall>j\<le>i. conns st (nth_conn cb j) = Some zero_conn"
  shows "\<exists>M. init_loop cb rb wb (Suc i) nxt st = Some (cb, st\<lparr>conns := M\<rparr>) \<and>
    (\<forall>x. (\<forall>j\<le>i. x \<noteq> nth_conn cb j) \<longrightarrow> M x = conns st x) \<and>
    (\<forall>j\<le>i. M (nth_conn cb j) = Some (zero_conn\<lparr>c_data := (if j = i then nxt else nth_conn cb (Suc j)),
       c_read := nth_event rb j, c_write := nth_event wb j, c_fd := - 1\<rparr>))"
  using assms
proof (induction i arbitrary: nxt st)
  case 0
  let ?M = "(conns st)(cb \<mapsto> zero_conn\<lparr>c_data := nxt, c_read := rb, c_write := wb, c_fd := - 1\<rparr>)"
  show ?case by (rule exI [of _ ?M]) (use 0 in \<open>simp add: upd_conn_def fun_upd_def\<close>)
next
  case (Suc i)
  let ?c = "nth_conn cb (Suc i)"
  let ?x = "zero_conn\<lparr>c_data := nxt, c_read := nth_event rb (Suc i), c_write := nth_event wb (Suc i), c_fd := - 1\<rparr>"
  let ?st = "st\<lparr>conns := (conns st)(?c \<mapsto> ?x)\<rparr>"
  have u: "init_loop cb rb wb (Suc (Suc i)) nxt st = init_loop cb rb wb (Suc i) ?c ?st"
    using Suc.prems by (subst init_loop.simps) (simp add: upd_conn_def del: init_loop.simps mult_Suc)
  have "\<forall>j\<le>i. conns ?st (nth_conn cb j) = Some zero_conn"
    using Suc.prems by (simp del: mult_Suc)
  from Suc.IH [OF this, of ?c] obtain M where M: "init_loop cb rb wb (Suc i) ?c ?st = Some (cb, ?st\<lparr>conns := M\<rparr>)"
    "\<forall>x. (\<forall>j\<le>i. x \<noteq> nth_conn cb j) \<longrightarrow> M x = conns ?st x"
    "\<forall>j\<le>i. M (nth_conn cb j) = Some (zero_conn\<lparr>c_data := (if j = i then ?c else nth_conn cb (Suc j)),
       c_read := nth_event rb j, c_write := nth_event wb j, c_fd := - 1\<rparr>)"
    by blast
  have top: "M ?c = Some ?x" using M(2) by (simp del: mult_Suc)
  show ?case
  proof (intro exI [of _ M] conjI allI impI)
    show "init_loop cb rb wb (Suc (Suc i)) nxt st = Some (cb, st\<lparr>conns := M\<rparr>)" using u M(1) by simp
    show "M x = conns st x" if "\<forall>j\<le>Suc i. x \<noteq> nth_conn cb j" for x
    proof -
      have "x \<noteq> ?c" "\<forall>j\<le>i. x \<noteq> nth_conn cb j" using that by (simp_all del: mult_Suc)
      then show ?thesis using M(2) by (simp del: mult_Suc)
    qed
    show "M (nth_conn cb j) = Some (zero_conn\<lparr>c_data := (if j = Suc i then nxt else nth_conn cb (Suc j)),
       c_read := nth_event rb j, c_write := nth_event wb j, c_fd := - 1\<rparr>)" if "j \<le> Suc i" for j
    proof (cases "j = Suc i")
      case True
      then show ?thesis using top by simp
    next
      case False
      then have "j \<le> i" using that by simp
      then show ?thesis using M(3) False by (cases "j = i") auto
    qed
  qed
qed

lemma init_chain:
  assumes "\<forall>j\<le>i. M (nth_conn cb j) = Some (zero_conn\<lparr>c_data := (if j = i then 0 else nth_conn cb (Suc j)),
       c_read := nth_event rb j, c_write := nth_event wb j, c_fd := - 1\<rparr>)" "cb \<noteq> 0" "k \<le> i"
  shows "free_chain M (nth_conn cb k) (map (nth_conn cb) [k..<Suc i])"
  using assms(3)
proof (induction k rule: inc_induct)
  case base
  then show ?case using assms(1,2) by simp
next
  case (step k)
  have "[k..<Suc i] = k # [Suc k..<Suc i]" using step by (simp add: upt_rec)
  then show ?case using step assms(1,2) by (simp del: upt_Suc)
qed

lemma timers_ok_calloc:
  assumes ok: "timers_ok b st []" and s: "\<forall>i<n. timer_node (nth_event eb i) \<noteq> rbt_sentinel (ttree st)"
  shows "timers_ok b (calloc_events eb n st) []"
proof -
  have "tt_rep b (alloc_array (timer_node eb) sizeof_event n zero_node (theap st), ttree st) []"
    using s
  proof (induction n)
    case 0
    then show ?case using ok by (simp add: alloc_array_def timers_ok_def)
  next
    case (Suc n)
    then have "tt_rep b (alloc_array (timer_node eb) sizeof_event n zero_node (theap st), ttree st) []" by simp
    then show ?case unfolding alloc_array_Suc
      by (rule tt_rep_upd) (use Suc.prems in \<open>auto simp: timer_node_def add.commute add.left_commute\<close>)
  qed
  moreover have "timer_node (nth_event eb i) = timer_node eb + i * sizeof_event" for i by (simp add: timer_node_def)
  ultimately show ?thesis using ok s
    by (auto simp: timers_ok_def calloc_events_def alloc_array_at tt_live_def zero_event_def split: if_splits)
qed

lemma timers_ok_init:
  assumes "theap st s = Some nd" "events st = Map.empty"
  shows "\<exists>st'. event_timer_init s st = Some st' \<and> timers_ok b st' [] \<and> rbt_sentinel (ttree st') = s \<and>
    st' = st\<lparr>theap := theap st', ttree := ttree st'\<rparr>"
proof -
  let ?H = "(theap st)(s \<mapsto> nd\<lparr>rb_color := 0\<rparr>)"
  let ?t = "\<lparr>rbt_root = s, rbt_sentinel = s, rbt_insert = rbtree_insert_timer_value\<rparr>"
  have "rbtree_init (theap st) s rbtree_insert_timer_value = Some (?H, ?t)"
    using assms by (simp add: rbtree_init_def rbtree_sentinel_init_def rbt_black_def put_def)
  then have "event_timer_init s st = Some (st\<lparr>theap := ?H, ttree := ?t\<rparr>)" by (simp add: event_timer_init_def)
  moreover have "rep ?H s s [] 0 Leaf" by (simp add: rep_def wf_pos_def black_at_def)
  then have "is_rbtree ?H ?t []"
    unfolding is_rbtree_def by (intro exI [of _ 0] exI [of _ Leaf]) (simp add: rbt_ok_def)
  then have "timers_ok b (st\<lparr>theap := ?H, ttree := ?t\<rparr>) []" using assms(2) by (simp add: timers_ok_def tt_rep_def)
  ultimately show ?thesis by simp
qed

definition disjoint_arrays :: "addr \<Rightarrow> addr \<Rightarrow> nat \<Rightarrow> bool" where
  "disjoint_arrays a b len \<longleftrightarrow> a + len \<le> b \<or> b + len \<le> a"

lemma disjoint_events:
  assumes "disjoint_arrays rb wb (n * sizeof_event)" "i < n" "j < n"
  shows "nth_event rb i \<noteq> nth_event wb j"
  using assms by (auto simp: disjoint_arrays_def sizeof_event_def)

lemma connection_init_ok:
  fixes st :: "'a conn_state_scheme" and k :: 'k
  assumes t: "timers_ok b st []" and e: "conns st = Map.empty" "events st = Map.empty"
    and n: "0 < n" "unat n < 2 ^ 31" and cb: "cb \<noteq> 0" and d: "disjoint_arrays rb wb (unat n * sizeof_event)"
    and s: "\<forall>i<unat n. timer_node (nth_event wb i) \<noteq> rbt_sentinel (ttree st) \<and>
      timer_node (nth_event rb i) \<noteq> rbt_sentinel (ttree st)"
  shows "\<exists>st'. connection_init n (Some cb) (Some wb) (Some rb) st = Some (0, st') \<and>
    pool_inv b (st', k) (map (nth_conn cb) [0..<unat n])"
proof -
  have "0 < unat n" using n(1) by (simp add: unat_gt_0)
  then obtain m where m: "unat n = Suc m" by (cases "unat n") simp_all
  let ?C = "alloc_array cb sizeof_connection (unat n) zero_conn (conns st)"
  let ?st = "calloc_events rb (unat n) (calloc_events wb (unat n) (st\<lparr>conns := ?C\<rparr>))"
  have "timers_ok b (st\<lparr>conns := ?C\<rparr>) []" using t by (simp add: timers_ok_def)
  then have "timers_ok b (calloc_events wb (unat n) (st\<lparr>conns := ?C\<rparr>)) []" by (rule timers_ok_calloc) (use s in simp)
  then have t': "timers_ok b ?st []" by (rule timers_ok_calloc) (use s in \<open>simp add: calloc_events_def\<close>)
  have C: "conns ?st = ?C" by (simp add: calloc_events_def)
  have "\<forall>j\<le>m. conns ?st (nth_conn cb j) = Some zero_conn" unfolding C alloc_array_at using m by auto
  from init_loop_eq [OF this, of rb wb 0] obtain M where
    M: "init_loop cb rb wb (Suc m) 0 ?st = Some (cb, ?st\<lparr>conns := M\<rparr>)"
      "\<forall>x. (\<forall>j\<le>m. x \<noteq> nth_conn cb j) \<longrightarrow> M x = conns ?st x"
      "\<forall>j\<le>m. M (nth_conn cb j) = Some (zero_conn\<lparr>c_data := (if j = m then 0 else nth_conn cb (Suc j)),
         c_read := nth_event rb j, c_write := nth_event wb j, c_fd := - 1\<rparr>)"
    by blast
  let ?f = "?st\<lparr>conns := M, free_connections := cb, free_connection_n := n\<rparr>"
  have none: "M x = None" if "\<forall>j\<le>m. x \<noteq> nth_conn cb j" for x
  proof -
    have "M x = ?C x" using that M(2) unfolding C by blast
    then show ?thesis using that m e(1) by (auto simp: alloc_array_at less_Suc_eq_le)
  qed
  have cases: "\<exists>j\<le>m. x = nth_conn cb j \<and> y = zero_conn\<lparr>c_data := (if j = m then 0 else nth_conn cb (Suc j)),
         c_read := nth_event rb j, c_write := nth_event wb j, c_fd := - 1\<rparr>" if "M x = Some y" for x y
    using that none [of x] M(3) by (metis option.inject option.distinct(1))
  have ev: "events ?f (nth_event rb j) = Some zero_event" "events ?f (nth_event wb j) = Some zero_event" if "j \<le> m" for j
    using that m by (auto simp: calloc_events_def alloc_array_at)
  have ne: "nth_event rb i \<noteq> nth_event wb j" if "i \<le> m" "j \<le> m" for i j
    by (rule disjoint_events [OF d]) (use that m in auto)
  have "wf_conns ?f"
    unfolding wf_conns_def
  proof (intro allI impI conjI)
    fix x y assume "conns ?f x = Some y"
    then obtain i where i: "i \<le> m" "x = nth_conn cb i" "c_read y = nth_event rb i" "c_write y = nth_event wb i"
      using cases [of x y] by auto
    show "x \<noteq> 0" "c_read y \<noteq> c_write y" using i cb ne by auto
    show "events ?f (c_read y) \<noteq> None" "events ?f (c_write y) \<noteq> None"
      using ev [OF i(1)] unfolding i(3,4) by simp_all
    fix x' y' assume x': "conns ?f x' = Some y'" "x' \<noteq> x"
    then obtain j where j: "j \<le> m" "x' = nth_conn cb j" "c_read y' = nth_event rb j" "c_write y' = nth_event wb j"
      using cases [of x' y'] by auto
    have "i \<noteq> j" using x'(2) i(2) j(2) by auto
    then show "{c_read y, c_write y} \<inter> {c_read y', c_write y'} = {}"
      using ne [OF i(1) j(1)] ne [OF j(1) i(1)] unfolding i(3,4) j(3,4) by auto
  qed
  moreover have "free_chain M cb (map (nth_conn cb) [0..<unat n])"
    using init_chain [OF M(3) cb, of 0] m by (simp del: upt_Suc)
  moreover have "distinct (map (nth_conn cb) [0..<unat n])" by (simp add: distinct_map inj_on_def)
  moreover have "\<forall>c\<in>set (map (nth_conn cb) [0..<unat n]). idle ?f c"
    using M(3) ev m by (auto simp: idle_def idle_event_def zero_event_def less_Suc_eq_le)
  ultimately have "pool_ok ?f (map (nth_conn cb) [0..<unat n])" by (simp add: pool_ok_def)
  moreover have dom: "dom M = nth_conn cb ` {0..<unat n}"
  proof
    show "dom M \<subseteq> nth_conn cb ` {0..<unat n}"
    proof
      fix x assume "x \<in> dom M"
      then obtain y where "M x = Some y" by blast
      from cases [OF this] obtain j where "j \<le> m" "x = nth_conn cb j" by blast
      then show "x \<in> nth_conn cb ` {0..<unat n}" using m by simp
    qed
    show "nth_conn cb ` {0..<unat n} \<subseteq> dom M" using M(3) m by auto
  qed
  have "card (dom M) = unat n" by (simp add: dom card_image inj_on_def)
  moreover have "timers_ok b ?f []" using t' by (simp add: timers_ok_def)
  ultimately have "pool_inv b (?f, k) (map (nth_conn cb) [0..<unat n])"
    using dom unsigned_less [of n] by (auto simp: pool_inv_def)
  moreover have "connection_init n (Some cb) (Some wb) (Some rb) st = Some (0, ?f)"
    using M(1) m n(2) by (simp add: connection_init_def del: init_loop.simps)
  ultimately show ?thesis by blast
qed

section \<open>Properties\<close>

definition ex_start :: conn_state where
  "ex_start = \<lparr>theap = [8 \<mapsto> zero_node], ttree = \<lparr>rbt_root = 0, rbt_sentinel = 0, rbt_insert = rbtree_insert_timer_value\<rparr>,
     events = Map.empty, clock = \<lambda>n. (1, 0), ticks = 0, conns = Map.empty, free_connections = 0, free_connection_n = 0\<rparr>"

abbreviation ex_epoll :: "int list epoll_ctl" where "ex_epoll \<equiv> \<lambda>op fd m c k. (0, k)"
abbreviation ex_close :: "int \<Rightarrow> int list \<Rightarrow> int list" where "ex_close \<equiv> \<lambda>fd k. fd # k"

lemma ex_array: "map (nth_conn 1000) [0..<unat (2::u32)] = [1000, 1128]"
  by (simp add: sizeof_connection_def upt_rec)

lemma ex_pool:
  "\<exists>st1 st2. event_timer_init 8 ex_start = Some st1 \<and>
     connection_init 2 (Some 1000) (Some 2000) (Some 3000) st1 = Some (0, st2) \<and> pool_inv b (st2, k) [1000, 1128]"
proof -
  have "theap ex_start 8 = Some zero_node" "events ex_start = Map.empty" by (simp_all add: ex_start_def)
  from timers_ok_init [OF this] obtain st1 where st1: "event_timer_init 8 ex_start = Some st1" "timers_ok b st1 []"
    "rbt_sentinel (ttree st1) = 8" "st1 = ex_start\<lparr>theap := theap st1, ttree := ttree st1\<rparr>" by blast
  have c: "conns st1 = Map.empty" "events st1 = Map.empty" by (subst st1(4), simp add: ex_start_def)+
  have "\<exists>st2. connection_init 2 (Some 1000) (Some 2000) (Some 3000) st1 = Some (0, st2) \<and>
      pool_inv b (st2, k) (map (nth_conn 1000) [0..<unat (2::u32)])"
    by (rule connection_init_ok [OF st1(2) c])
      (simp_all add: disjoint_arrays_def sizeof_event_def st1(3) timer_node_def)
  then show ?thesis using st1(1) unfolding ex_array by blast
qed

lemma ex_pool_inv: "\<exists>st :: conn_state. pool_inv b (st, k) [1000, 1128]"
  using ex_pool [of b k] by (elim exE conjE) (rule exI)

text \<open>
  After \<open>event_timer_init\<close>, \<open>connection_init\<close> with a positive number of connections below 2^31
  and disjoint arrays succeeds and the pool invariant holds with every connection of the array free, in
  the order of the array.
\<close>

theorem connection_init_pool:
  fixes st :: "'a conn_state_scheme"
  assumes "event_timer_init s st0 = Some st" "theap st0 s \<noteq> None"
    and "conns st0 = Map.empty" "events st0 = Map.empty" "0 < n" "unat n < 2 ^ 31" "cb \<noteq> 0"
    and "disjoint_arrays rb wb (unat n * sizeof_event)"
    and "\<forall>i<unat n. timer_node (nth_event wb i) \<noteq> s \<and> timer_node (nth_event rb i) \<noteq> s"
  shows "\<exists>st'. connection_init n (Some cb) (Some wb) (Some rb) st = Some (0, st') \<and>
    pool_inv b (st', k) (map (nth_conn cb) [0..<unat n])"
proof -
  obtain nd where "theap st0 s = Some nd" using assms(2) by blast
  from timers_ok_init [OF this assms(4)] obtain st1 where "event_timer_init s st0 = Some st1"
    "timers_ok b st1 []" "rbt_sentinel (ttree st1) = s" "st1 = st0\<lparr>theap := theap st1, ttree := ttree st1\<rparr>" by blast
  then have st: "timers_ok b st []" "rbt_sentinel (ttree st) = s" "st = st0\<lparr>theap := theap st, ttree := ttree st\<rparr>"
    using assms(1) by simp_all
  have "conns st = Map.empty" "events st = Map.empty" by (subst st(3), simp add: assms(3,4))+
  then show ?thesis by (rule connection_init_ok [OF st(1) _ _ assms(5-8)]) (use assms(9) st(2) in simp)
qed

theorem connection_init_pool_witness:
  "\<exists>st st'. event_timer_init 8 ex_start = Some st \<and> connection_init 2 (Some 1000) (Some 2000) (Some 3000) st = Some (0, st') \<and>
    pool_inv 0 (st', ()) [1000, 1128]"
proof -
  obtain st :: conn_state where st: "event_timer_init 8 ex_start = Some st"
    using ex_pool [of 0 "()"] by (elim exE conjE)
  have "\<exists>st'. connection_init 2 (Some 1000) (Some 2000) (Some 3000) st = Some (0, st') \<and>
      pool_inv 0 (st', ()) (map (nth_conn 1000) [0..<unat (2::u32)])"
    by (rule connection_init_pool [OF st])
      (simp_all add: disjoint_arrays_def sizeof_event_def ex_start_def timer_node_def)
  then show ?thesis using st unfolding ex_array by blast
qed

text \<open>
  C8: any sequence of calls of \<open>get_connection\<close> (with valid descriptors) and \<open>close_connection\<close> (of
  connections of the pool, in use or already closed) runs without an invalid access, hands out
  exactly the connections the abstract stack of free connections does, and maintains the invariant:
  the free list, its counter, the closed state of free connections and the timer tree.
\<close>

theorem connection_pool_refines:
  assumes "pool_inv b s free" "\<forall>op\<in>set ops. op_ok (dom (conns (fst s))) op"
  shows "\<exists>s'. pool_run pool_get (pool_close ctl close) ops s = Some (fst (pool_spec ops free), s') \<and>
    pool_inv b s' (snd (pool_spec ops free))"
  using cp.run_refines [OF assms(1), of ops] assms(2) unfolding pool_members_def by blast

theorem connection_pool_refines_witness:
  "\<exists>(s :: conn_state \<times> int list) s'. pool_inv 0 s [1000, 1128] \<and> pool_run pool_get (pool_close ex_epoll ex_close)
     [Get 3, Get 4, Close 1000, Close 1000, Get 5, Get 6] s = Some ([1000, 1128, 1000, 0], s') \<and> pool_inv 0 s' []"
proof -
  obtain st2 :: conn_state where st2: "pool_inv 0 (st2, [] :: int list) [1000, 1128]" using ex_pool_inv by (rule exE)
  let ?ops = "[Get 3, Get 4, Close 1000, Close 1000, Get 5, Get 6]"
  have "(1000::addr) \<in> dom (conns st2)" using pool_inv_free [OF st2] by (simp add: pool_members_def)
  then have ok: "\<forall>op\<in>set ?ops. op_ok (dom (conns (fst (st2, [] :: int list)))) op" by simp
  have "pool_spec ?ops [1000, 1128] = ([1000, 1128, 1000, 0], [])" by simp
  with connection_pool_refines [OF st2 ok, of ex_epoll ex_close] obtain s' where
    "pool_run pool_get (pool_close ex_epoll ex_close) ?ops (st2, []) = Some ([1000, 1128, 1000, 0], s')" "pool_inv 0 s' []"
    unfolding fst_conv snd_conv by (auto simp del: pool_run.simps pool_spec.simps)
  then show ?thesis using st2 by (intro exI conjI)
qed

text \<open>
  Over any sequence of operations the free connections and those in use add up to the whole
  pool: none is lost, none is free and in use at once.
\<close>

theorem connection_pool_conserves:
  assumes "pool_inv b s free" "\<forall>op\<in>set ops. op_ok (dom (conns (fst s))) op"
  shows "\<exists>rs s' free'. pool_run pool_get (pool_close ctl close) ops s = Some (rs, s') \<and> pool_inv b s' free' \<and>
    unat (get_free_connection_n (fst s')) + card (dom (conns (fst s)) - set free') = card (dom (conns (fst s)))"
proof -
  from cp.run_conserves [OF assms(1), of ops ctl close] assms(2) obtain rs s' free' where
    r: "pool_run pool_get (pool_close ctl close) ops s = Some (rs, s')" "pool_inv b s' free'"
    "length free' + card (dom (conns (fst s)) - set free') = card (dom (conns (fst s)))"
    unfolding pool_members_def by blast
  moreover have "unat (get_free_connection_n (fst s')) = length free'"
    using r(2) by (simp add: pool_inv_def pool_ok_def get_free_connection_n_def)
  ultimately show ?thesis by (intro exI [of _ rs] exI [of _ s'] exI [of _ free']) simp
qed

theorem connection_pool_conserves_witness:
  "\<exists>(s :: conn_state \<times> int list) rs s' free'. pool_run pool_get (pool_close ex_epoll ex_close) [Get 3] s = Some (rs, s') \<and>
     unat (get_free_connection_n (fst s')) + card (dom (conns (fst s)) - set free') = card (dom (conns (fst s)))"
proof -
  obtain st2 :: conn_state where st2: "pool_inv 0 (st2, [] :: int list) [1000, 1128]" using ex_pool_inv by (rule exE)
  have ok: "\<forall>op\<in>set [Get 3]. op_ok (dom (conns (fst (st2, [] :: int list)))) op" by simp
  from connection_pool_conserves [OF st2 ok, of ex_epoll ex_close] show ?thesis by blast
qed

text \<open>
  a connection taken from the pool and closed again is back at the head of the free list, and
  the invariant holds as before.
\<close>

theorem get_close_roundtrip:
  assumes "pool_inv b (st, k) (c # free)" "fd \<noteq> - 1"
  shows "\<exists>st' st'' k'. get_connection st fd = Some (c, st') \<and>
    close_connection ctl close st' k c = Some (st'', k') \<and> pool_inv b (st'', k') (c # free)"
proof -
  from cp.take_close [OF assms, of ctl close] obtain s' s'' where s: "pool_get (st, k) fd = Some (c, s')"
    "pool_close ctl close s' c = Some s''" "pool_inv b s'' (c # free)" by blast
  obtain st' where st': "get_connection st fd = Some (c, st')" "s' = (st', k)"
    using s(1) by (auto simp: pool_get_def bind_eq_Some_conv)
  then show ?thesis using s(2,3) by (cases s'') (auto simp: pool_close_def)
qed

theorem get_close_roundtrip_witness:
  "\<exists>(st :: conn_state) st' st'' k'. get_connection st 7 = Some (1000, st') \<and>
    close_connection ex_epoll ex_close st' [] 1000 = Some (st'', k') \<and> pool_inv 0 (st'', k') [1000, 1128]"
proof -
  obtain st2 :: conn_state where st2: "pool_inv 0 (st2, [] :: int list) [1000, 1128]" using ex_pool_inv by (rule exE)
  have "(7::int) \<noteq> - 1" by simp
  from get_close_roundtrip [OF st2 this, of ex_epoll ex_close] show ?thesis by blast
qed

text \<open>
  a failing allocation makes \<open>connection_init\<close> return -1 without touching the free list.
\<close>

theorem connection_init_no_memory:
  "\<exists>st'. connection_init n cmem wmem rmem st = Some (- 1, st') \<and> free_connections st' = free_connections st \<and>
     free_connection_n st' = free_connection_n st" if "cmem = None \<or> wmem = None \<or> rmem = None"
  using that by (auto simp: connection_init_def calloc_events_def Let_def split: option.splits)

theorem connection_init_no_memory_witness:
  "\<exists>st'. connection_init 4 (Some 1000) None (Some 3000) ex_start = Some (- 1, st') \<and> free_connection_n st' = 0"
  using connection_init_no_memory [of "Some 1000" None "Some 3000" 4 ex_start] by (auto simp: ex_start_def)

end
