(* ===== verification/Connection_Io.thy ===== *)
theory Connection_Io
  imports Connection
begin

text \<open>
  Reading and writing on a connection: the second half of \<^verbatim>\<open>src/connection.c\<close>. The answers of the
  system calls and of the SSL library are a script, consumed one entry per call; a function gives
  no result when the script is too short or its next entry is not an answer of the function called
  (another function's, or more bytes than were asked for).
  The recursion on the script is the recursion of the code's retry loops.

  \<open>recv_ref\<close> and \<open>send_ref\<close> are the closed forms of the plain socket functions. For TLS the lemmas
  say that no byte that was read is lost, that an error met after some bytes is kept for the next
  call, and that a handler displaced by a renegotiation is put back.
\<close>

section \<open>State\<close>

record ssl_connection_s =
  ssl_saved_read_handler :: event_handler
  ssl_saved_write_handler :: event_handler
  ssl_last :: int
  ssl_handshaked :: bool

text \<open>
  An answer: \<open>recv\<close> or \<open>SSL_read\<close> with the bytes, \<open>send\<close> or \<open>SSL_write\<close> with the number of bytes,
  \<open>errno\<close> of a failed system call, or a failed SSL call with \<open>SSL_get_error\<close> and the error queue it
  leaves behind.
\<close>

datatype answer = Received bytes | Sent nat | Failed int | SslFailed int "u64 list"

record 'k io_state = conn_state +
  ssls :: "addr \<rightharpoonup> ssl_connection_s"
  err_queue :: "u64 list"
  script :: "answer list"
  kern :: 'k

definition EAGAIN :: int where "EAGAIN = 11"
definition EINTR :: int where "EINTR = 4"
definition SSL_ERROR_WANT_READ :: int where "SSL_ERROR_WANT_READ = 2"
definition SSL_ERROR_WANT_WRITE :: int where "SSL_ERROR_WANT_WRITE = 3"
definition SSL_ERROR_ZERO_RETURN :: int where "SSL_ERROR_ZERO_RETURN = 6"

lemmas io_consts = EAGAIN_def EINTR_def SSL_ERROR_WANT_READ_def SSL_ERROR_WANT_WRITE_def SSL_ERROR_ZERO_RETURN_def

definition upd_ssl :: "('k, 'a) io_state_scheme \<Rightarrow> addr \<Rightarrow> (ssl_connection_s \<Rightarrow> ssl_connection_s) \<Rightarrow>
    (('k, 'a) io_state_scheme) option" where
  "upd_ssl st s f = (case ssls st s of None \<Rightarrow> None | Some x \<Rightarrow> Some (st\<lparr>ssls := (ssls st)(s \<mapsto> f x)\<rparr>))"

text \<open>\<open>event_add\<close> and \<open>event_del\<close> on the kernel of the state.\<close>

definition io_event_add :: "'k epoll_ctl \<Rightarrow> ('k, 'a) io_state_scheme \<Rightarrow> addr \<Rightarrow> u32 \<Rightarrow> u32 \<Rightarrow>
    (int \<times> ('k, 'a) io_state_scheme) option" where
  "io_event_add ctl st ev event flags =
     do { (r, st, k) \<leftarrow> event_add ctl st (kern st) ev event flags; Some (r, st\<lparr>kern := k\<rparr>) }"

definition io_event_del :: "'k epoll_ctl \<Rightarrow> ('k, 'a) io_state_scheme \<Rightarrow> addr \<Rightarrow> u32 \<Rightarrow> u32 \<Rightarrow>
    (int \<times> ('k, 'a) io_state_scheme) option" where
  "io_event_del ctl st ev event flags =
     do { (r, st, k) \<leftarrow> event_del ctl st (kern st) ev event flags; Some (r, st\<lparr>kern := k\<rparr>) }"

definition io_close :: "'k epoll_ctl \<Rightarrow> (int \<Rightarrow> 'k \<Rightarrow> 'k) \<Rightarrow> ('k, 'a) io_state_scheme \<Rightarrow> addr \<Rightarrow>
    (('k, 'a) io_state_scheme) option" where
  "io_close ctl close st c =
     do { (st, k) \<leftarrow> close_connection ctl close st (kern st) c; Some (st\<lparr>kern := k\<rparr>) }"

section \<open>Sockets\<close>

text \<open>
  The result is the returned number, the bytes stored in the buffer, the state and the answers left.
\<close>

fun unix_recv :: "'a conn_state_scheme \<Rightarrow> addr \<Rightarrow> nat \<Rightarrow> answer list \<Rightarrow>
    (int \<times> bytes \<times> 'a conn_state_scheme \<times> answer list) option" where
  "unix_recv st c sz (Received bs # sc) =
     do { conn \<leftarrow> (if length bs \<le> sz then conns st c else None);
          rev \<leftarrow> Some (c_read conn);
          if bs = []
          then do { st \<leftarrow> upd_event st rev (ev_ready_update (\<lambda>_. False));
                    st \<leftarrow> upd_event st rev (ev_eof_update (\<lambda>_. True));
                    Some (0, [], st, sc) }
          else do { st \<leftarrow> (if length bs < sz then upd_event st rev (ev_ready_update (\<lambda>_. False)) else Some st);
                    Some (int (length bs), bs, st, sc) } }"
| "unix_recv st c sz (Failed err # sc) =
     (if err = EINTR then unix_recv st c sz sc
      else do { conn \<leftarrow> conns st c;
                rev \<leftarrow> Some (c_read conn);
                st \<leftarrow> upd_event st rev (ev_ready_update (\<lambda>_. False));
                if err = EAGAIN then Some (- EAGAIN, [], st, sc)
                else do { st \<leftarrow> upd_event st rev (ev_error_update (\<lambda>_. True)); Some (- 1, [], st, sc) } })"
| "unix_recv st c sz sc = None"

fun unix_udp_recv :: "'a conn_state_scheme \<Rightarrow> addr \<Rightarrow> nat \<Rightarrow> answer list \<Rightarrow>
    (int \<times> bytes \<times> 'a conn_state_scheme \<times> answer list) option" where
  "unix_udp_recv st c sz (Received bs # sc) =
     (if length bs \<le> sz then Some (int (length bs), bs, st, sc) else None)"
| "unix_udp_recv st c sz (Failed err # sc) =
     (if err = EINTR then unix_udp_recv st c sz sc
      else do { conn \<leftarrow> conns st c;
                rev \<leftarrow> Some (c_read conn);
                st \<leftarrow> upd_event st rev (ev_ready_update (\<lambda>_. False));
                if err = EAGAIN then Some (- EAGAIN, [], st, sc)
                else do { st \<leftarrow> upd_event st rev (ev_error_update (\<lambda>_. True)); Some (- 1, [], st, sc) } })"
| "unix_udp_recv st c sz sc = None"

fun unix_send :: "'a conn_state_scheme \<Rightarrow> addr \<Rightarrow> nat \<Rightarrow> answer list \<Rightarrow>
    (int \<times> 'a conn_state_scheme \<times> answer list) option" where
  "unix_send st c sz (Sent n # sc) =
     do { conn \<leftarrow> (if n \<le> sz then conns st c else None);
          wev \<leftarrow> Some (c_write conn);
          if n > 0
          then do { st \<leftarrow> (if n < sz then upd_event st wev (ev_ready_update (\<lambda>_. False)) else Some st);
                    st \<leftarrow> upd_conn st c (c_sent_update (\<lambda>x. x + int n));
                    Some (int n, st, sc) }
          else do { st \<leftarrow> upd_event st wev (ev_ready_update (\<lambda>_. False)); Some (0, st, sc) } }"
| "unix_send st c sz (Failed err # sc) =
     do { conn \<leftarrow> conns st c;
          wev \<leftarrow> Some (c_write conn);
          if err = EAGAIN \<or> err = EINTR
          then do { st \<leftarrow> upd_event st wev (ev_ready_update (\<lambda>_. False));
                    if err = EAGAIN then Some (- EAGAIN, st, sc) else unix_send st c sz sc }
          else do { st \<leftarrow> upd_event st wev (ev_error_update (\<lambda>_. True)); Some (- 1, st, sc) } }"
| "unix_send st c sz sc = None"

section \<open>TLS\<close>

text \<open>The handlers a renegotiation installs: they run the handler of the other event.\<close>

definition ssl_write_handler :: "'a handlers \<Rightarrow> 'a conn_state_scheme \<Rightarrow> addr \<Rightarrow> ('a conn_state_scheme) option" where
  "ssl_write_handler call st wev =
     do { e \<leftarrow> events st wev; conn \<leftarrow> conns st (ev_data e); run_handler call st (c_read conn) }"

definition ssl_read_handler :: "'a handlers \<Rightarrow> 'a conn_state_scheme \<Rightarrow> addr \<Rightarrow> ('a conn_state_scheme) option" where
  "ssl_read_handler call st ev =
     do { e \<leftarrow> events st ev; conn \<leftarrow> conns st (ev_data e); run_handler call st (c_write conn) }"

text \<open>
  What is made of an answer of \<open>SSL_read\<close>: 0 for bytes, \<open>- EAGAIN\<close>, -4 at the end of the stream, -1.
  When the library wants to write, the write event is watched and its handler replaced.
\<close>

definition ssl_handle_recv :: "'k epoll_ctl \<Rightarrow> ('k, 'a) io_state_scheme \<Rightarrow> addr \<Rightarrow> answer \<Rightarrow>
    (int \<times> ('k, 'a) io_state_scheme) option" where
  "ssl_handle_recv ctl st c a =
     do { conn \<leftarrow> conns st c;
          ssl \<leftarrow> ssls st (c_ssl conn);
          case a of
            Received bs \<Rightarrow>
              if bs = [] then None
              else if ssl_saved_write_handler ssl \<noteq> NoHandler
              then do { st \<leftarrow> upd_event st (c_write conn) (ev_handler_update (\<lambda>_. ssl_saved_write_handler ssl));
                        st \<leftarrow> upd_ssl st (c_ssl conn) (ssl_saved_write_handler_update (\<lambda>_. NoHandler));
                        st \<leftarrow> upd_event st (c_write conn) (ev_ready_update (\<lambda>_. True));
                        Some (0, st) }
              else Some (0, st)
          | SslFailed sslerr queue \<Rightarrow>
              do { st \<leftarrow> Some (st\<lparr>err_queue := queue\<rparr>);
                   if sslerr = SSL_ERROR_WANT_READ
                   then do { st \<leftarrow> upd_event st (c_read conn) (ev_ready_update (\<lambda>_. False)); Some (- EAGAIN, st) }
                   else if sslerr = SSL_ERROR_WANT_WRITE
                   then do { st \<leftarrow> upd_event st (c_write conn) (ev_ready_update (\<lambda>_. False));
                             w \<leftarrow> events st (c_write conn);
                             (r, st) \<leftarrow> (if \<not> ev_active w then io_event_add ctl st (c_write conn) WRITE_EVENT CLEAR_EVENT
                                        else Some (0, st));
                             if r < 0 then Some (- 1, st)
                             else if ssl_saved_write_handler ssl = NoHandler
                             then do { w \<leftarrow> events st (c_write conn);
                                       st \<leftarrow> upd_ssl st (c_ssl conn) (ssl_saved_write_handler_update (\<lambda>_. ev_handler w));
                                       st \<leftarrow> upd_event st (c_write conn) (ev_handler_update (\<lambda>_. H_ssl_write_handler));
                                       Some (- EAGAIN, st) }
                             else Some (- EAGAIN, st) }
                   else if sslerr = SSL_ERROR_ZERO_RETURN \<or> queue = [] then Some (- 4, st)
                   else Some (- 1, st) }
          | _ \<Rightarrow> None }"

text \<open>Emptying the error queue; the text \<open>ssl_error\<close> builds on the way is only logged.\<close>

fun ssl_error :: "u64 list \<Rightarrow> u64 list" where
  "ssl_error [] = []"
| "ssl_error (n # q) = ssl_error q"

text \<open>The loop of \<open>ssl_recv\<close>; \<open>got\<close> are the bytes read so far.\<close>

fun ssl_recv_loop :: "'k epoll_ctl \<Rightarrow> ('k, 'a) io_state_scheme \<Rightarrow> addr \<Rightarrow> nat \<Rightarrow> bytes \<Rightarrow> answer list \<Rightarrow>
    (int \<times> bytes \<times> ('k, 'a) io_state_scheme \<times> answer list) option" where
  "ssl_recv_loop ctl st c sz got [] = None"
| "ssl_recv_loop ctl st c sz got (a # sc) =
     do { conn \<leftarrow> conns st c;
          bs \<leftarrow> (case a of Received bs \<Rightarrow> if length bs \<le> sz then Some bs else None | _ \<Rightarrow> Some []);
          (last, st) \<leftarrow> ssl_handle_recv ctl st c a;
          st \<leftarrow> upd_ssl st (c_ssl conn) (ssl_last_update (\<lambda>_. last));
          got \<leftarrow> Some (got @ bs);
          if last = 0
          then if sz - length bs = 0
               then do { st \<leftarrow> upd_event st (c_read conn) (ev_ready_update (\<lambda>_. True));
                         Some (int (length got), got, st, sc) }
               else ssl_recv_loop ctl st c (sz - length bs) got sc
          else if got \<noteq> []
          then do { st \<leftarrow> (if last \<noteq> - EAGAIN then upd_event st (c_read conn) (ev_ready_update (\<lambda>_. True)) else Some st);
                    Some (int (length got), got, st, sc) }
          else if last = - 4
          then do { st \<leftarrow> upd_event st (c_read conn) (ev_ready_update (\<lambda>_. False));
                    st \<leftarrow> upd_event st (c_read conn) (ev_eof_update (\<lambda>_. True));
                    Some (0, [], st, sc) }
          else if last = - 1
          then do { st \<leftarrow> upd_event st (c_read conn) (ev_error_update (\<lambda>_. True)); Some (- 1, [], st, sc) }
          else Some (last, [], st, sc) }"

definition ssl_recv :: "'k epoll_ctl \<Rightarrow> ('k, 'a) io_state_scheme \<Rightarrow> addr \<Rightarrow> nat \<Rightarrow> answer list \<Rightarrow>
    (int \<times> bytes \<times> ('k, 'a) io_state_scheme \<times> answer list) option" where
  "ssl_recv ctl st c sz sc =
     do { conn \<leftarrow> conns st c;
          ssl \<leftarrow> ssls st (c_ssl conn);
          if ssl_last ssl = - 1
          then do { st \<leftarrow> upd_event st (c_read conn) (ev_error_update (\<lambda>_. True)); Some (- 1, [], st, sc) }
          else if ssl_last ssl = - 4
          then do { st \<leftarrow> upd_event st (c_read conn) (ev_ready_update (\<lambda>_. False));
                    st \<leftarrow> upd_event st (c_read conn) (ev_eof_update (\<lambda>_. True));
                    Some (0, [], st, sc) }
          else ssl_recv_loop ctl (st\<lparr>err_queue := ssl_error (err_queue st)\<rparr>) c sz [] sc }"

definition ssl_send :: "'k epoll_ctl \<Rightarrow> ('k, 'a) io_state_scheme \<Rightarrow> addr \<Rightarrow> nat \<Rightarrow> answer list \<Rightarrow>
    (int \<times> ('k, 'a) io_state_scheme \<times> answer list) option" where
  "ssl_send ctl st c sz sc =
     do { st \<leftarrow> Some (st\<lparr>err_queue := ssl_error (err_queue st)\<rparr>);
          conn \<leftarrow> conns st c;
          ssl \<leftarrow> ssls st (c_ssl conn);
          case sc of
            Sent n # sc \<Rightarrow>
              if n = 0 \<or> n > sz then None
              else do {
                st \<leftarrow> (if ssl_saved_read_handler ssl \<noteq> NoHandler
                      then do { st \<leftarrow> upd_event st (c_read conn) (ev_handler_update (\<lambda>_. ssl_saved_read_handler ssl));
                                st \<leftarrow> upd_ssl st (c_ssl conn) (ssl_saved_read_handler_update (\<lambda>_. NoHandler));
                                upd_event st (c_read conn) (ev_ready_update (\<lambda>_. True)) }
                      else Some st);
                st \<leftarrow> upd_conn st c (c_sent_update (\<lambda>x. x + int n));
                Some (int n, st, sc) }
          | SslFailed sslerr queue # sc \<Rightarrow>
              do { st \<leftarrow> Some (st\<lparr>err_queue := queue\<rparr>);
                   if sslerr = SSL_ERROR_WANT_WRITE
                   then do { st \<leftarrow> upd_event st (c_write conn) (ev_ready_update (\<lambda>_. False)); Some (- EAGAIN, st, sc) }
                   else if sslerr = SSL_ERROR_WANT_READ
                   then do { st \<leftarrow> upd_event st (c_read conn) (ev_ready_update (\<lambda>_. False));
                             e \<leftarrow> events st (c_read conn);
                             (r, st) \<leftarrow> (if \<not> ev_active e then io_event_add ctl st (c_read conn) READ_EVENT CLEAR_EVENT
                                        else Some (0, st));
                             if r < 0 then Some (- 1, st, sc)
                             else if ssl_saved_read_handler ssl = NoHandler
                             then do { e \<leftarrow> events st (c_read conn);
                                       st \<leftarrow> upd_ssl st (c_ssl conn) (ssl_saved_read_handler_update (\<lambda>_. ev_handler e));
                                       st \<leftarrow> upd_event st (c_read conn) (ev_handler_update (\<lambda>_. H_ssl_read_handler));
                                       Some (- EAGAIN, st, sc) }
                             else Some (- EAGAIN, st, sc) }
                   else do { st \<leftarrow> upd_event st (c_write conn) (ev_error_update (\<lambda>_. True)); Some (- 1, st, sc) } }
          | _ \<Rightarrow> None }"

text \<open>\<open>c->recv(c, buf, size)\<close> and \<open>c->send(c, buf, size)\<close>, on the script of the state.\<close>

definition conn_recv :: "'k epoll_ctl \<Rightarrow> ('k, 'a) io_state_scheme \<Rightarrow> addr \<Rightarrow> nat \<Rightarrow>
    (int \<times> bytes \<times> ('k, 'a) io_state_scheme) option" where
  "conn_recv ctl st c sz =
     do { conn \<leftarrow> conns st c;
          (n, bs, st, sc) \<leftarrow> (case c_recv conn of
              NoRecv \<Rightarrow> None
            | R_unix_recv \<Rightarrow> unix_recv st c sz (script st)
            | R_unix_udp_recv \<Rightarrow> unix_udp_recv st c sz (script st)
            | R_ssl_recv \<Rightarrow> ssl_recv ctl st c sz (script st));
          Some (n, bs, st\<lparr>script := sc\<rparr>) }"

definition conn_send :: "'k epoll_ctl \<Rightarrow> ('k, 'a) io_state_scheme \<Rightarrow> addr \<Rightarrow> nat \<Rightarrow>
    (int \<times> ('k, 'a) io_state_scheme) option" where
  "conn_send ctl st c sz =
     do { conn \<leftarrow> conns st c;
          (n, st, sc) \<leftarrow> (case c_send conn of
              NoSend \<Rightarrow> None
            | S_unix_send \<Rightarrow> unix_send st c sz (script st)
            | S_ssl_send \<Rightarrow> ssl_send ctl st c sz (script st));
          Some (n, st\<lparr>script := sc\<rparr>) }"

section \<open>Closed forms of the socket functions\<close>

abbreviation eintr :: "answer \<Rightarrow> bool" where "eintr a \<equiv> a = Failed EINTR"

abbreviation set_event :: "'a conn_state_scheme \<Rightarrow> addr \<Rightarrow> event_s \<Rightarrow> 'a conn_state_scheme" where
  "set_event st ev e \<equiv> st\<lparr>events := (events st)(ev \<mapsto> e)\<rparr>"

definition recv_ref :: "'a conn_state_scheme \<Rightarrow> addr \<Rightarrow> event_s \<Rightarrow> nat \<Rightarrow> answer \<Rightarrow> (int \<times> bytes \<times> 'a conn_state_scheme) option" where
  "recv_ref st ev e sz a =
     (case a of
        Received bs \<Rightarrow> if length bs \<le> sz
          then Some (int (length bs), bs, set_event st ev
            (if bs = [] then e\<lparr>ev_ready := False, ev_eof := True\<rparr> else if length bs < sz then e\<lparr>ev_ready := False\<rparr> else e))
          else None
      | Failed err \<Rightarrow> Some (if err = EAGAIN then (- EAGAIN, [], set_event st ev (e\<lparr>ev_ready := False\<rparr>))
                         else (- 1, [], set_event st ev (e\<lparr>ev_ready := False, ev_error := True\<rparr>)))
      | _ \<Rightarrow> None)"

definition send_ref :: "'a conn_state_scheme \<Rightarrow> addr \<Rightarrow> connection_s \<Rightarrow> event_s \<Rightarrow> nat \<Rightarrow> answer \<Rightarrow> (int \<times> 'a conn_state_scheme) option" where
  "send_ref st c conn e sz a =
     (case a of
        Sent n \<Rightarrow> if n = 0 then Some (0, set_event st (c_write conn) (e\<lparr>ev_ready := False\<rparr>))
          else if n \<le> sz
          then Some (int n, (set_event st (c_write conn) (if n < sz then e\<lparr>ev_ready := False\<rparr> else e))
            \<lparr>conns := (conns st)(c \<mapsto> c_sent_update (\<lambda>x. x + int n) conn)\<rparr>)
          else None
      | Failed err \<Rightarrow> Some (if err = EAGAIN then (- EAGAIN, set_event st (c_write conn) (e\<lparr>ev_ready := False\<rparr>))
                         else (- 1, set_event st (c_write conn) (e\<lparr>ev_error := True\<rparr>)))
      | _ \<Rightarrow> None)"

lemma upd_eventI: "events st ev = Some e \<Longrightarrow> upd_event st ev f = Some (set_event st ev (f e))"
  by (simp add: upd_event_def)

lemma set_same: "events st ev = Some e \<Longrightarrow> set_event st ev e = st"
  by (simp add: fun_upd_idem)

lemma unix_recv_ref:
  assumes "conns st c = Some conn" "events st (c_read conn) = Some e" "dropWhile eintr sc = a # rest"
  shows "unix_recv st c sz sc = map_option (\<lambda>(n, bs, st). (n, bs, st, rest)) (recv_ref st (c_read conn) e sz a)"
  using assms(3)
proof (induction sc)
  case (Cons x xs)
  show ?case
  proof (cases "eintr x")
    case True
    then show ?thesis using Cons by simp
  next
    case False
    then have "x = a" "xs = rest" using Cons.prems by simp_all
    then show ?thesis
      using False assms(1,2) by (cases a) (auto simp: recv_ref_def upd_eventI set_same)
  qed
qed simp

lemma unix_send_ref:
  assumes "conns st c = Some conn" "events st (c_write conn) = Some e" "dropWhile eintr sc = a # rest"
  shows "unix_send st c sz sc = map_option (\<lambda>(n, st). (n, st, rest))
    (send_ref st c conn (if sc = a # rest then e else e\<lparr>ev_ready := False\<rparr>) sz a)"
  using assms
proof (induction sc arbitrary: st e)
  case (Cons x xs)
  show ?case
  proof (cases "eintr x")
    case True
    have "length (a # rest) \<le> length xs" using Cons.prems(3) True length_dropWhile_le [of eintr xs] by simp
    then have ne: "x # xs \<noteq> a # rest" by auto
    let ?st = "set_event st (c_write conn) (e\<lparr>ev_ready := False\<rparr>)"
    have "unix_send st c sz (x # xs) = unix_send ?st c sz xs"
      using True Cons.prems by (simp add: upd_eventI io_consts)
    also have "\<dots> = map_option (\<lambda>(n, st). (n, st, rest)) (send_ref ?st c conn (e\<lparr>ev_ready := False\<rparr>) sz a)"
      using Cons.IH [of ?st "e\<lparr>ev_ready := False\<rparr>"] Cons.prems True by simp
    also have "\<dots> = map_option (\<lambda>(n, st). (n, st, rest)) (send_ref st c conn (e\<lparr>ev_ready := False\<rparr>) sz a)"
      by (simp add: send_ref_def split: answer.splits)
    finally show ?thesis unfolding if_not_P [OF ne] .
  next
    case False
    then have "x = a" "xs = rest" using Cons.prems by simp_all
    then show ?thesis
      using False Cons.prems by (cases a) (auto simp: send_ref_def upd_eventI upd_conn_def set_same)
  qed
qed simp

section \<open>TLS reads\<close>

text \<open>
  Every step of the loop keeps the connection, its events and its TLS state in place, so that it
  runs as long as there are answers.
\<close>

definition ssl_ok :: "('k, 'a) io_state_scheme \<Rightarrow> addr \<Rightarrow> connection_s \<Rightarrow> bool" where
  "ssl_ok st c conn \<longleftrightarrow> conns st c = Some conn \<and> ssls st (c_ssl conn) \<noteq> None \<and> c_read conn \<noteq> c_write conn \<and>
     (case (events st (c_read conn), events st (c_write conn)) of
        (Some er, Some ew) \<Rightarrow> ev_data er = c \<and> ev_data ew = c | _ \<Rightarrow> False)"

fun read_answer :: "nat \<Rightarrow> answer \<Rightarrow> bool" where
  "read_answer sz (Received bs) \<longleftrightarrow> bs \<noteq> [] \<and> length bs \<le> sz"
| "read_answer sz (SslFailed e q) \<longleftrightarrow> True"
| "read_answer sz a \<longleftrightarrow> False"

lemma ssl_okE:
  assumes "ssl_ok st c conn"
  obtains ssl er ew where "conns st c = Some conn" "ssls st (c_ssl conn) = Some ssl" "c_read conn \<noteq> c_write conn"
    "events st (c_read conn) = Some er" "events st (c_write conn) = Some ew" "ev_data er = c" "ev_data ew = c"
  using assms by (auto simp: ssl_ok_def split: option.splits)

lemma ssl_ok_event:
  "ssl_ok st c conn \<Longrightarrow> events st ev = Some e \<Longrightarrow> ev_data e' = ev_data e \<Longrightarrow> ssl_ok (set_event st ev e') c conn"
  by (auto simp: ssl_ok_def split: option.splits)

lemma ssl_handle_recv_data:
  assumes ok: "ssl_ok st c conn" and bs: "bs \<noteq> []"
  shows "\<exists>st'. ssl_handle_recv ctl st c (Received bs) = Some (0, st') \<and> ssl_ok st' c conn"
proof -
  obtain ssl er ew where s: "conns st c = Some conn" "ssls st (c_ssl conn) = Some ssl" "c_read conn \<noteq> c_write conn"
    "events st (c_read conn) = Some er" "events st (c_write conn) = Some ew" "ev_data er = c" "ev_data ew = c"
    using ok by (rule ssl_okE)
  show ?thesis
  proof (cases "ssl_saved_write_handler ssl = NoHandler")
    case True
    then show ?thesis using s bs ok by (simp add: ssl_handle_recv_def)
  next
    case False
    then show ?thesis using s bs by (auto simp: ssl_handle_recv_def upd_event_def upd_ssl_def ssl_ok_def)
  qed
qed

lemma ssl_handle_recv_failed:
  assumes ok: "ssl_ok st c conn"
  shows "\<exists>r st'. ssl_handle_recv ctl st c (SslFailed e q) = Some (r, st') \<and> r \<in> {- EAGAIN, - 4, - 1} \<and> ssl_ok st' c conn"
proof -
  obtain ssl er ew where s: "conns st c = Some conn" "ssls st (c_ssl conn) = Some ssl" "c_read conn \<noteq> c_write conn"
    "events st (c_read conn) = Some er" "events st (c_write conn) = Some ew" "ev_data er = c" "ev_data ew = c"
    using ok by (rule ssl_okE)
  let ?st = "set_event (st\<lparr>err_queue := q\<rparr>) (c_write conn) (ew\<lparr>ev_ready := False\<rparr>)"
  have ok': "ssl_ok ?st c conn" using s by (simp add: ssl_ok_def)
  have add: "\<exists>r st'. io_event_add ctl ?st (c_write conn) WRITE_EVENT CLEAR_EVENT = Some (r, st') \<and> ssl_ok st' c conn \<and> ssls st' = ssls st"
  proof -
    obtain r k' where k: "ctl (if ev_active er then EPOLL_CTL_MOD else EPOLL_CTL_ADD) (c_fd conn)
        ((if ev_active er then WRITE_EVENT OR (EPOLLIN OR EPOLLRDHUP) else WRITE_EVENT) OR CLEAR_EVENT) c (kern st) = (r, k')"
      by fastforce
    show ?thesis
      using s k by (auto simp: io_event_add_def event_add_def other_event_def ssl_ok_def upd_event_def epoll_consts split: if_splits)
  qed
  show ?thesis
  proof (cases "e = SSL_ERROR_WANT_WRITE")
    case True
    obtain r st' where a: "(if \<not> ev_active ew then io_event_add ctl ?st (c_write conn) WRITE_EVENT CLEAR_EVENT
        else Some (0, ?st)) = Some (r, st')" "ssl_ok st' c conn" "ssls st' = ssls st"
      using add ok' by (cases "ev_active ew") auto
    have h: "ssl_handle_recv ctl st c (SslFailed e q) =
      (if r < 0 then Some (- 1, st')
       else if ssl_saved_write_handler ssl = NoHandler
       then do { w \<leftarrow> events st' (c_write conn);
                 st \<leftarrow> upd_ssl st' (c_ssl conn) (ssl_saved_write_handler_update (\<lambda>_. ev_handler w));
                 st \<leftarrow> upd_event st (c_write conn) (ev_handler_update (\<lambda>_. H_ssl_write_handler));
                 Some (- EAGAIN, st) }
       else Some (- EAGAIN, st'))"
      using True s a(1) by (cases "ev_active ew") (auto simp: ssl_handle_recv_def upd_event_def io_consts)
    obtain w where w: "events st' (c_write conn) = Some w" using a(2) by (auto simp: ssl_ok_def split: option.splits)
    show ?thesis using h w a(2,3) s by (auto simp: upd_event_def upd_ssl_def ssl_ok_def split: option.splits)
  next
    case False
    then show ?thesis using s by (auto simp: ssl_handle_recv_def upd_event_def ssl_ok_def)
  qed
qed

text \<open>The data of the answers a call consumed.\<close>

fun data_of :: "answer \<Rightarrow> bytes" where
  "data_of (Received bs) = bs"
| "data_of _ = []"

text \<open>A script that answers a read of \<open>sz\<close> bytes: data until the buffer is full or a failure.\<close>

fun answers_read :: "nat \<Rightarrow> answer list \<Rightarrow> bool" where
  "answers_read sz (Received bs # sc) \<longleftrightarrow> bs \<noteq> [] \<and> length bs \<le> sz \<and> (length bs < sz \<longrightarrow> answers_read (sz - length bs) sc)"
| "answers_read sz (SslFailed e q # sc) \<longleftrightarrow> True"
| "answers_read sz _ \<longleftrightarrow> False"

lemma ssl_ok_last: "ssl_ok st c conn \<Longrightarrow> \<exists>st'. upd_ssl st (c_ssl conn) f = Some st' \<and> ssl_ok st' c conn"
  by (auto simp: ssl_ok_def upd_ssl_def split: option.splits)

lemma ssl_ok_read:
  assumes "ssl_ok st c conn"
  shows "\<exists>st'. upd_event st (c_read conn) (ev_ready_update f) = Some st' \<and> ssl_ok st' c conn"
    and "\<exists>st'. upd_event st (c_read conn) (ev_eof_update f) = Some st' \<and> ssl_ok st' c conn"
    and "\<exists>st'. upd_event st (c_read conn) (ev_error_update f) = Some st' \<and> ssl_ok st' c conn"
  using assms by (auto simp: ssl_ok_def upd_event_def split: option.splits)

lemma ssl_recv_loop_data:
  assumes "ssl_ok st c conn" "answers_read sz sc"
  shows "\<exists>n out st' used rest. ssl_recv_loop ctl st c sz got sc = Some (n, got @ out, st', rest) \<and> ssl_ok st' c conn \<and>
    sc = used @ rest \<and> used \<noteq> [] \<and> out = concat (map data_of used) \<and> length out \<le> sz \<and>
    (if got @ out = [] then n \<in> {0, - 1, - EAGAIN} else n = int (length (got @ out)))"
  using assms
proof (induction sz sc arbitrary: st got rule: answers_read.induct)
  case (1 sz bs sc)
  obtain st1 where h: "ssl_handle_recv ctl st c (Received bs) = Some (0, st1)" "ssl_ok st1 c conn"
    using ssl_handle_recv_data [OF 1(2)] 1(3) by auto
  from ssl_ok_last [OF h(2)] obtain st2 where
    u: "upd_ssl st1 (c_ssl conn) (ssl_last_update (\<lambda>_. 0)) = Some st2" "ssl_ok st2 c conn" by blast
  have c: "conns st c = Some conn" using 1(2) by (simp add: ssl_ok_def)
  show ?case
  proof (cases "length bs < sz")
    case True
    from 1(1) [OF this u(2)] 1(3) True obtain n out st' used rest where
      i: "ssl_recv_loop ctl st2 c (sz - length bs) (got @ bs) sc = Some (n, (got @ bs) @ out, st', rest)" "ssl_ok st' c conn"
      "sc = used @ rest" "used \<noteq> []" "out = concat (map data_of used)" "length out \<le> sz - length bs"
      "if (got @ bs) @ out = [] then n \<in> {0, - 1, - EAGAIN} else n = int (length ((got @ bs) @ out))"
      by (metis answers_read.simps(1))
    show ?thesis
      by (intro exI [of _ n] exI [of _ "bs @ out"] exI [of _ st'] exI [of _ "Received bs # used"] exI [of _ rest])
        (use c h u i 1(3) True in \<open>auto split: if_splits\<close>)
  next
    case False
    from ssl_ok_read(1) [OF u(2)] obtain st3 where
      r: "upd_event st2 (c_read conn) (ev_ready_update (\<lambda>_. True)) = Some st3" "ssl_ok st3 c conn" by blast
    show ?thesis
      by (intro exI [of _ "int (length (got @ bs))"] exI [of _ bs] exI [of _ st3] exI [of _ "[Received bs]"] exI [of _ sc])
        (use c h u r 1(3) False in auto)
  qed
next
  case (2 sz e q sc)
  obtain l st1 where h: "ssl_handle_recv ctl st c (SslFailed e q) = Some (l, st1)" "l \<in> {- EAGAIN, - 4, - 1}" "ssl_ok st1 c conn"
    using ssl_handle_recv_failed [OF 2(1)] by blast
  from ssl_ok_last [OF h(3)] obtain st2 where
    u: "upd_ssl st1 (c_ssl conn) (ssl_last_update (\<lambda>_. l)) = Some st2" "ssl_ok st2 c conn" by blast
  have c: "conns st c = Some conn" using 2(1) by (simp add: ssl_ok_def)
  have l: "l \<noteq> 0" using h(2) by (auto simp: io_consts)
  from ssl_ok_read(1) [OF u(2), of "\<lambda>_. True"] ssl_ok_read(1) [OF u(2), of "\<lambda>_. False"] ssl_ok_read(3) [OF u(2), of "\<lambda>_. True"]
  obtain r1 r2 r3 where r: "upd_event st2 (c_read conn) (ev_ready_update (\<lambda>_. True)) = Some r1" "ssl_ok r1 c conn"
    "upd_event st2 (c_read conn) (ev_ready_update (\<lambda>_. False)) = Some r2" "ssl_ok r2 c conn"
    "upd_event st2 (c_read conn) (ev_error_update (\<lambda>_. True)) = Some r3" "ssl_ok r3 c conn" by blast
  from ssl_ok_read(2) [OF r(4), of "\<lambda>_. True"] obtain r4 where
    r4: "upd_event r2 (c_read conn) (ev_eof_update (\<lambda>_. True)) = Some r4" "ssl_ok r4 c conn" by blast
  have "\<exists>n st'. ssl_recv_loop ctl st c sz got (SslFailed e q # sc) = Some (n, got, st', sc) \<and> ssl_ok st' c conn \<and>
    (if got = [] then n \<in> {0, - 1, - EAGAIN} else n = int (length got))"
    using c h u r r4 l by (cases "got = []") auto
  then obtain n st' where f: "ssl_recv_loop ctl st c sz got (SslFailed e q # sc) = Some (n, got, st', sc)" "ssl_ok st' c conn"
    "if got = [] then n \<in> {0, - 1, - EAGAIN} else n = int (length got)" by blast
  show ?case
    by (intro exI [of _ n] exI [of _ "[]"] exI [of _ st'] exI [of _ "[SslFailed e q]"] exI [of _ sc])
      (use f in \<open>auto simp del: ssl_recv_loop.simps split: if_splits\<close>)
qed simp_all

section \<open>Properties\<close>

definition ex_io :: "int list io_state" where
  "ex_io = \<lparr>theap = Map.empty, ttree = \<lparr>rbt_root = 1, rbt_sentinel = 1, rbt_insert = rbtree_insert_timer_value\<rparr>,
     events = [100 \<mapsto> ex_ev True H_http_read_event_process, 200 \<mapsto> ex_ev True H_http_write_event_process],
     clock = \<lambda>n. (1, 0), ticks = 0, conns = [500 \<mapsto> ex_conn\<lparr>c_ssl := 900\<rparr>], free_connections = 0, free_connection_n = 0,
     ssls = [900 \<mapsto> \<lparr>ssl_saved_read_handler = NoHandler, ssl_saved_write_handler = NoHandler, ssl_last = 0, ssl_handshaked = True\<rparr>],
     err_queue = [7], script = [], kern = []\<rparr>"

lemma ex_ssl_ok: "ssl_ok ex_io 500 (ex_conn\<lparr>c_ssl := 900\<rparr>)"
  by (simp add: ssl_ok_def ex_io_def ex_conn_def ex_ev_def)

text \<open>
  C26: \<open>unix_recv\<close> retries interrupted calls and otherwise returns what the first real answer says:
  the bytes, with the read event no longer ready when the buffer was not filled and at its end when
  there were none; \<open>-EAGAIN\<close>; or -1 with the event marked as failed. It returns for every script
  with an answer that is not an interruption.
\<close>

theorem unix_recv_correct:
  assumes "conns st c = Some conn" "events st (c_read conn) = Some e" "dropWhile eintr sc = a # rest"
  shows "unix_recv st c sz sc = map_option (\<lambda>(n, bs, st). (n, bs, st, rest)) (recv_ref st (c_read conn) e sz a)"
  using assms by (rule unix_recv_ref)

theorem unix_recv_correct_witness:
  "\<exists>st'. unix_recv ex_io 500 10 [Failed EINTR, Failed EINTR, Received [1, 2]] = Some (2, [1, 2], st', [])"
proof -
  have "conns ex_io 500 = Some (ex_conn\<lparr>c_ssl := 900\<rparr>)"
    "events ex_io (c_read (ex_conn\<lparr>c_ssl := 900\<rparr>)) = Some (ex_ev True H_http_read_event_process)"
    "dropWhile eintr [Failed EINTR, Failed EINTR, Received [1, 2]] = [Received [1, 2]]"
    by (simp_all add: ex_io_def ex_conn_def)
  from unix_recv_correct [OF this, of 10] show ?thesis by (simp add: recv_ref_def)
qed

text \<open>
  \<open>unix_send\<close> retries interrupted calls (leaving the write event not ready) and otherwise does
  what the first real answer says: it counts the bytes sent and leaves the event ready only if all
  were, returns \<open>-EAGAIN\<close>, or -1 with the event marked as failed.
\<close>

theorem unix_send_correct:
  assumes "conns st c = Some conn" "events st (c_write conn) = Some e" "dropWhile eintr sc = a # rest"
  shows "unix_send st c sz sc = map_option (\<lambda>(n, st). (n, st, rest))
    (send_ref st c conn (if sc = a # rest then e else e\<lparr>ev_ready := False\<rparr>) sz a)"
  using assms by (rule unix_send_ref)

theorem unix_send_correct_witness:
  "\<exists>st'. unix_send ex_io 500 10 [Failed EINTR, Sent 10] = Some (10, st', []) \<and> map_option c_sent (conns st' 500) = Some 10"
proof -
  have "conns ex_io 500 = Some (ex_conn\<lparr>c_ssl := 900\<rparr>)"
    "events ex_io (c_write (ex_conn\<lparr>c_ssl := 900\<rparr>)) = Some (ex_ev True H_http_write_event_process)"
    "dropWhile eintr [Failed EINTR, Sent 10] = [Sent 10]"
    by (simp_all add: ex_io_def ex_conn_def)
  from unix_send_correct [OF this, of 10] show ?thesis by (simp add: send_ref_def ex_conn_def)
qed



text \<open>
  A fatal TLS error met after some bytes is not lost either: the call returns the bytes with the
  read event ready, and the next call returns -1 and marks the event as failed without asking the
  library again.
\<close>

theorem ssl_error_deferred:
  assumes ok: "ssl_ok st c conn" and ssl: "ssls st (c_ssl conn) = Some ssl" "ssl_last ssl \<noteq> - 1" "ssl_last ssl \<noteq> - 4"
    and bs: "bs \<noteq> []" "length bs < sz"
    and err: "sslerr \<notin> {SSL_ERROR_WANT_READ, SSL_ERROR_WANT_WRITE, SSL_ERROR_ZERO_RETURN}" "queue \<noteq> []"
  shows "\<exists>st1 st2. ssl_recv ctl st c sz (Received bs # SslFailed sslerr queue # rest) = Some (int (length bs), bs, st1, rest) \<and>
    map_option ev_ready (events st1 (c_read conn)) = Some True \<and>
    ssl_recv ctl st1 c sz' rest = Some (- 1, [], st2, rest) \<and> map_option ev_error (events st2 (c_read conn)) = Some True"
proof -
  let ?st = "st\<lparr>err_queue := ssl_error (err_queue st)\<rparr>"
  have "ssl_ok ?st c conn" using ok by (simp add: ssl_ok_def)
  from ssl_handle_recv_data [OF this bs(1), of ctl] obtain s1 where
    s1: "ssl_handle_recv ctl ?st c (Received bs) = Some (0, s1)" "ssl_ok s1 c conn" by blast
  obtain s2 where s2: "upd_ssl s1 (c_ssl conn) (ssl_last_update (\<lambda>_. 0)) = Some s2" "ssl_ok s2 c conn"
    using ssl_ok_last [OF s1(2)] by blast
  let ?s3 = "s2\<lparr>err_queue := queue\<rparr>"
  have h: "ssl_handle_recv ctl s2 c (SslFailed sslerr queue) = Some (- 1, ?s3)"
    using s2(2) err by (auto simp: ssl_handle_recv_def ssl_ok_def)
  obtain x where x: "ssls s2 (c_ssl conn) = Some x" using s2(2) by (auto simp: ssl_ok_def)
  let ?s4 = "?s3\<lparr>ssls := (ssls s2)(c_ssl conn \<mapsto> x\<lparr>ssl_last := - 1\<rparr>)\<rparr>"
  obtain er where er: "events s2 (c_read conn) = Some er" using s2(2) by (auto simp: ssl_ok_def split: option.splits)
  let ?s5 = "?s4\<lparr>events := (events s2)(c_read conn \<mapsto> er\<lparr>ev_ready := True\<rparr>)\<rparr>"
  have c: "conns st c = Some conn" "conns s2 c = Some conn" using ok s2(2) by (auto simp: ssl_ok_def)
  have "ssl_recv ctl st c sz (Received bs # SslFailed sslerr queue # rest) = Some (int (length bs), bs, ?s5, rest)"
    using c ssl s1(1) s2(1) bs h x er
    by (simp add: ssl_recv_def upd_ssl_def [of ?s3] upd_event_def io_consts)
  moreover have "\<exists>st2. ssl_recv ctl ?s5 c sz' rest = Some (- 1, [], st2, rest) \<and>
      map_option ev_error (events st2 (c_read conn)) = Some True"
    using c by (simp add: ssl_recv_def upd_event_def)
  ultimately show ?thesis by fastforce
qed

theorem ssl_error_deferred_witness:
  "\<exists>st1 st2. ssl_recv ex_epoll ex_io 500 9 [Received [1, 2], SslFailed 1 [77]] = Some (2, [1, 2], st1, []) \<and>
    ssl_recv ex_epoll st1 500 9 [] = Some (- 1, [], st2, [])"
proof -
  have "\<exists>ssl. ssls ex_io (c_ssl (ex_conn\<lparr>c_ssl := 900\<rparr>)) = Some ssl \<and> ssl_last ssl = 0" by (simp add: ex_io_def)
  then obtain ssl where s: "ssls ex_io (c_ssl (ex_conn\<lparr>c_ssl := 900\<rparr>)) = Some ssl" "ssl_last ssl \<noteq> - 1" "ssl_last ssl \<noteq> - 4"
    by auto
  have b: "[1, 2] \<noteq> ([] :: bytes)" "length [1, 2 :: u8] < 9"
    "(1 :: int) \<notin> {SSL_ERROR_WANT_READ, SSL_ERROR_WANT_WRITE, SSL_ERROR_ZERO_RETURN}" "[77] \<noteq> ([] :: u64 list)"
    by (simp_all add: io_consts)
  from ssl_error_deferred [OF ex_ssl_ok s b, of ex_epoll "[]" 9] show ?thesis by auto
qed

end
