(* ===== verification/Http_Buf.thy ===== *)
theory Http_Buf
  imports Connection_Io
begin

text \<open>
  The growable buffers of \<^verbatim>\<open>src/http_client.c\<close> and the decompression loop over them. A buffer is
  its bytes from \<open>start\<close> to \<open>end\<close> with \<open>last\<close> and \<open>pos\<close> as offsets. Whether an allocation succeeds
  is read from a list, one entry per call (calls beyond its end succeed); \<open>junk\<close> gives the
  indeterminate bytes \<open>realloc\<close> adds, by offset. zlib is a parameter.
\<close>

section \<open>Buffers\<close>

definition BASE_RANGE :: nat where "BASE_RANGE = 4096"

record http_buf_s =
  b_data :: bytes
  b_last :: nat
  b_pos :: nat

type_synonym mem = "bool list"

definition calloc_ok :: "mem \<Rightarrow> bool \<times> mem" where
  "calloc_ok m = (case m of [] \<Rightarrow> (True, []) | ok # m \<Rightarrow> (ok, m))"

definition create_temp_buf :: "nat \<Rightarrow> mem \<Rightarrow> http_buf_s option \<times> mem" where
  "create_temp_buf sz m =
     (let (ok, m) = calloc_ok m
      in if \<not> ok then (None, m)
         else let (ok, m) = calloc_ok m
              in if \<not> ok then (None, m)
                 else (Some \<lparr>b_data = replicate sz 0, b_last = 0, b_pos = 0\<rparr>, m))"

definition new_range :: "nat \<Rightarrow> nat" where
  "new_range old_range = (if old_range \<le> 32 * BASE_RANGE then old_range * 2 else old_range + BASE_RANGE)"

definition resize_temp_buf :: "(nat \<Rightarrow> u8) \<Rightarrow> http_buf_s \<Rightarrow> mem \<Rightarrow> int \<times> http_buf_s \<times> mem" where
  "resize_temp_buf junk b m =
     (let old_range = length (b_data b);
          (ok, m) = calloc_ok m
      in if \<not> ok then (- 1, b, m)
         else (0, b\<lparr>b_data := b_data b @ map junk [old_range..<new_range old_range]\<rparr>, m))"

text \<open>A store of \<open>bs\<close> at offset \<open>i\<close>: no result outside the array.\<close>

definition store :: "bytes \<Rightarrow> nat \<Rightarrow> bytes \<Rightarrow> bytes option" where
  "store xs i bs = (if i + length bs \<le> length xs then Some (take i xs @ bs @ drop (i + length bs) xs) else None)"

text \<open>What has been filled in, and the buffer's invariant: there is never more of it than room.\<close>

definition filled :: "http_buf_s \<Rightarrow> bytes" where
  "filled b = take (b_last b) (b_data b)"

definition buf_ok :: "http_buf_s \<Rightarrow> bool" where
  "buf_ok b \<longleftrightarrow> b_last b \<le> length (b_data b) \<and> 0 < length (b_data b)"

lemma new_range_greater: "0 < n \<Longrightarrow> n < new_range n"
  by (simp add: new_range_def BASE_RANGE_def)

lemma create_temp_buf_ok:
  assumes "create_temp_buf sz m = (Some b, m')"
  shows "length (b_data b) = sz" "b_last b = 0" "b_pos b = 0" "filled b = []" "0 < sz \<Longrightarrow> buf_ok b"
  using assms by (auto simp: create_temp_buf_def filled_def buf_ok_def Let_def split: prod.splits if_splits)

lemma resize_temp_buf_ok:
  assumes "resize_temp_buf junk b m = (r, b', m')" "buf_ok b"
  shows "buf_ok b'" "filled b' = filled b" "b_last b' = b_last b" "b_pos b' = b_pos b" "r = 0 \<or> r = - 1"
    and "r = 0 \<Longrightarrow> length (b_data b) < length (b_data b')" "r = - 1 \<Longrightarrow> b' = b"
  using assms new_range_greater [of "length (b_data b)"]
  by (auto simp: resize_temp_buf_def buf_ok_def filled_def Let_def split: prod.splits if_splits)

lemma resize_temp_buf_nil: "resize_temp_buf junk b [] =
    (0, b\<lparr>b_data := b_data b @ map junk [length (b_data b)..<new_range (length (b_data b))]\<rparr>, [])"
  by (simp add: resize_temp_buf_def calloc_ok_def Let_def)

text \<open>Appending at \<open>last\<close>, as receiving does.\<close>

definition append_buf :: "http_buf_s \<Rightarrow> bytes \<Rightarrow> http_buf_s option" where
  "append_buf b bs = do { d \<leftarrow> store (b_data b) (b_last b) bs;
     Some (b\<lparr>b_data := d, b_last := b_last b + length bs\<rparr>) }"

lemma append_buf_ok:
  assumes "buf_ok b" "b_last b + length bs \<le> length (b_data b)"
  shows "\<exists>b'. append_buf b bs = Some b' \<and> buf_ok b' \<and> filled b' = filled b @ bs \<and>
    b_last b' = b_last b + length bs \<and> b_pos b' = b_pos b \<and> length (b_data b') = length (b_data b)"
proof -
  have le: "b_last b \<le> length (b_data b)" using assms(1) by (simp add: buf_ok_def)
  have "take (b_last b + length bs) (take (b_last b) (b_data b) @ bs @ drop (b_last b + length bs) (b_data b)) =
      take (b_last b) (b_data b) @ bs"
    using le by simp
  then show ?thesis using assms le by (auto simp: append_buf_def store_def buf_ok_def filled_def)
qed

section \<open>Decompression\<close>

datatype zret = Z_OK | Z_STREAM_END | Z_NEED_DICT | Z_DATA_ERROR | Z_MEM_ERROR | Z_BUF_ERROR

definition zfatal :: "zret \<Rightarrow> bool" where
  "zfatal r \<longleftrightarrow> r \<in> {Z_NEED_DICT, Z_DATA_ERROR, Z_MEM_ERROR}"

text \<open>
  One round of the loop asks \<open>inflate\<close> for as many bytes as there is room; the round is repeated
  after growing the buffer when the room was used up.
\<close>

partial_function (option) inflate_loop ::
  "(nat \<Rightarrow> u8) \<Rightarrow> ('z \<Rightarrow> nat \<Rightarrow> zret \<times> bytes \<times> 'z) \<Rightarrow> 'z \<Rightarrow> http_buf_s \<Rightarrow> mem \<Rightarrow> (int \<times> http_buf_s \<times> mem) option" where
  "inflate_loop junk inflate z dest m =
     (let avail_out = length (b_data dest) - b_last dest;
          (ret, out, z) = inflate z avail_out
      in if zfatal ret then Some (- 1, dest, m)
         else do {
           dest \<leftarrow> append_buf dest out;
           if avail_out - length out = 0
           then let (r, dest, m) = resize_temp_buf junk dest m
                in if r = - 1 then Some (- 1, dest, m) else inflate_loop junk inflate z dest m
           else Some (0, dest, m) })"

definition inflate_gzip ::
  "(nat \<Rightarrow> u8) \<Rightarrow> (bytes \<Rightarrow> 'z option) \<Rightarrow> ('z \<Rightarrow> nat \<Rightarrow> zret \<times> bytes \<times> 'z) \<Rightarrow> bytes \<Rightarrow> http_buf_s \<Rightarrow> mem \<Rightarrow>
    (int \<times> http_buf_s \<times> mem) option" where
  "inflate_gzip junk inflateInit2 inflate input dest m =
     (case inflateInit2 input of
        None \<Rightarrow> Some (- 1, dest, m)
      | Some z \<Rightarrow>
          do { (r, dest, m) \<leftarrow> inflate_loop junk inflate z dest m;
               if r = - 1 then Some (- 1, dest, m)
               else do {
                 (dest, m) \<leftarrow> Some (if b_last dest \<ge> length (b_data dest)
                                   then (case resize_temp_buf junk dest m of (r, dest, m) \<Rightarrow> (dest, m)) else (dest, m));
                 dest \<leftarrow> append_buf dest [0];
                 Some (0, dest, m) } })"

text \<open>
  What zlib documents: \<open>pending z\<close> are the bytes the stream still decompresses to; a call delivers
  as many of them as there is room for.
\<close>

definition zlib_spec :: "('z \<Rightarrow> nat \<Rightarrow> zret \<times> bytes \<times> 'z) \<Rightarrow> ('z \<Rightarrow> bytes) \<Rightarrow> bool" where
  "zlib_spec inflate pending \<longleftrightarrow> (\<forall>z n. case inflate z n of (ret, out, z') \<Rightarrow>
     \<not> zfatal ret \<and> out = take n (pending z) \<and> pending z' = drop n (pending z))"

lemma zlib_specD:
  assumes "zlib_spec inflate pending" "inflate z n = (ret, out, z')"
  shows "\<not> zfatal ret" "out = take n (pending z)" "pending z' = drop n (pending z)"
proof -
  have "case inflate z n of (ret, out, z') \<Rightarrow> \<not> zfatal ret \<and> out = take n (pending z) \<and> pending z' = drop n (pending z)"
    using assms(1) unfolding zlib_spec_def by (elim allE)
  then show "\<not> zfatal ret" "out = take n (pending z)" "pending z' = drop n (pending z)" using assms(2) by simp_all
qed

text \<open>The loop ends because every repeated round has delivered bytes.\<close>

lemma inflate_loop_ok:
  assumes spec: "zlib_spec inflate pending" and "buf_ok dest" "b_last dest < length (b_data dest)"
  shows "\<exists>dest'. inflate_loop junk inflate z dest [] = Some (0, dest', []) \<and> buf_ok dest' \<and>
    b_last dest' < length (b_data dest') \<and> filled dest' = filled dest @ pending z"
  using assms(2,3)
proof (induction "length (pending z)" arbitrary: z dest rule: less_induct)
  case less
  let ?n = "length (b_data dest) - b_last dest"
  obtain ret out z' where i: "inflate z ?n = (ret, out, z')" by (metis prod_cases3)
  note o = zlib_specD [OF spec i]
  have len: "length out = min (length (pending z)) ?n" using o(2) by simp
  have room: "b_last dest + length out \<le> length (b_data dest)" using len less(3) by simp
  from append_buf_ok [OF less(2) room] obtain d where
    d: "append_buf dest out = Some d" "buf_ok d" "filled d = filled dest @ out" "b_last d = b_last dest + length out"
    "length (b_data d) = length (b_data dest)" by blast
  show ?case
  proof (cases "?n - length out = 0")
    case False
    then have "out = pending z" using o(2) len by (simp add: min_def split: if_splits)
    then show ?thesis
      using False i o(1) d by (subst inflate_loop.simps) (auto simp: Let_def)
  next
    case True
    let ?d = "d\<lparr>b_data := b_data d @ map junk [length (b_data d)..<new_range (length (b_data d))]\<rparr>"
    have full: "b_last d = length (b_data d)" using True d(2,4,5) len less(3) by (auto simp: buf_ok_def)
    have r: "resize_temp_buf junk d [] = (0, ?d, [])" by (rule resize_temp_buf_nil)
    have g: "length (b_data d) < new_range (length (b_data d))"
      using d(2) by (intro new_range_greater) (simp add: buf_ok_def)
    have "0 < length (pending z)" using True len less(3) by (cases "pending z") simp_all
    moreover have "length (pending z') = length (pending z) - ?n" using o(3) by (simp only: length_drop)
    ultimately have "length (pending z') < length (pending z)" using less(3) by linarith
    moreover have "buf_ok ?d" "b_last ?d < length (b_data ?d)" "filled ?d = filled d"
      using d(2) g full by (auto simp: buf_ok_def filled_def)
    ultimately obtain dest' where "inflate_loop junk inflate z' ?d [] = Some (0, dest', [])" "buf_ok dest'"
      "b_last dest' < length (b_data dest')" "filled dest' = filled d @ pending z'"
      using less(1) [of z' ?d] by auto
    moreover have "out @ pending z' = pending z" using o by simp
    ultimately show ?thesis
      using True i o(1) d r by (subst inflate_loop.simps) (auto simp: Let_def)
  qed
qed

text \<open>
  C20: with a conforming zlib and enough memory \<open>inflate_gzip\<close> terminates and leaves the complete
  decompressed text, terminated by a zero byte, in the destination; the room for that byte is always
  there.
\<close>

theorem inflate_gzip_correct:
  assumes "zlib_spec inflate pending" "inflateInit2 input = Some z"
    and "buf_ok dest" "b_last dest < length (b_data dest)"
  shows "\<exists>dest'. inflate_gzip junk inflateInit2 inflate input dest [] = Some (0, dest', []) \<and>
    buf_ok dest' \<and> filled dest' = filled dest @ pending z @ [0]"
proof -
  obtain d where d: "inflate_loop junk inflate z dest [] = Some (0, d, [])" "buf_ok d"
    "b_last d < length (b_data d)" "filled d = filled dest @ pending z"
    using inflate_loop_ok [OF assms(1,3,4)] by blast
  from append_buf_ok [OF d(2), of "[0]"] d(3) obtain d' where
    "append_buf d [0] = Some d'" "buf_ok d'" "filled d' = filled d @ [0]" by auto
  then show ?thesis using d assms(2) by (auto simp: inflate_gzip_def)
qed

definition ex_inflate :: "bytes \<Rightarrow> nat \<Rightarrow> zret \<times> bytes \<times> bytes" where
  "ex_inflate z n = (if length z \<le> n then Z_STREAM_END else Z_OK, take n z, drop n z)"

theorem inflate_gzip_correct_witness:
  "\<exists>dest'. inflate_gzip (\<lambda>i. 0) Some ex_inflate [1, 2, 3, 4, 5] \<lparr>b_data = [0, 0], b_last = 0, b_pos = 0\<rparr> [] = Some (0, dest', []) \<and>
    filled dest' = [1, 2, 3, 4, 5, 0]"
proof -
  have s: "zlib_spec ex_inflate (\<lambda>z. z)" by (simp add: zlib_spec_def ex_inflate_def zfatal_def)
  have b: "Some [1, 2, 3, 4, 5] = Some [1, 2, 3, 4, 5 :: u8]" "buf_ok \<lparr>b_data = [0, 0], b_last = 0, b_pos = 0\<rparr>"
    "b_last \<lparr>b_data = [0, 0], b_last = 0, b_pos = 0\<rparr> < length (b_data \<lparr>b_data = [0, 0], b_last = 0, b_pos = 0\<rparr>)"
    by (simp_all add: buf_ok_def)
  from inflate_gzip_correct [where junk = "\<lambda>i. 0" and ?inflateInit2.0 = Some, OF s b] show ?thesis by (auto simp: filled_def)
qed

end
