(* ===== verification/Http_Head.thy ===== *)
theory Http_Head
  imports Http_Buf
begin

text \<open>
  The response head: the data types of \<^verbatim>\<open>src/http_client.h\<close> and the state machine
  \<open>http_parse_head\<close>. Positions are kept as the 32-bit offsets of the code. The intrusive queue of
  header fields is the list of its elements (\<open>queue_insert_tail\<close> appends, see \<open>Queue\<close>); the local
  pointer \<open>kv\<close> is the index of a field or \<open>None\<close> for \<open>NULL\<close>.

  The parser is proved to be resumable (a head that arrives in two reads is parsed as if it had
  arrived in one) and to extract, from every well-formed head, the status and the three header
  fields the client uses.
\<close>

section \<open>Data\<close>

record http_vsr_s =
  vsr_version :: u32
  vsr_version_len :: u32
  vsr_status :: u32
  vsr_status_len :: u32
  vsr_reason :: u32
  vsr_reason_len :: u32

record key_value_s =
  kv_key :: u32
  kv_key_len :: u32
  kv_value :: u32
  kv_value_len :: u32

datatype head_status =
    VSR_START | VSR_VER | VSR_STAT | VSR_REAS | LINE_DONE | LINE_HALF | KEY_DONE | HEAD_HALF | HEAD_DONE

record head_cache_s =
  hc_status :: head_status
  hc_vsr :: "http_vsr_s option"
  hc_start :: u32
  hc_kvs :: "key_value_s list"
  hc_content_len :: u32
  hc_gzip_flag :: bool
  hc_chunk_flag :: bool

datatype html_status = LEN_DONE | LEN_HALF

record html_cache_s =
  mc_status :: html_status
  mc_html_start :: u32
  mc_start :: u32
  mc_chunk_sum :: u32
  mc_chunks :: "http_buf_s option"
  mc_kvs :: "key_value_s list"
  mc_html :: "http_buf_s option"

datatype client_status = HTTP_CONN_DONE | HTTP_REQ_DONE | HTTP_HEAD_DONE | HTTP_HTML_DONE | HTTP_PARSE_DONE

record http_url_s =
  u_schema :: bytes
  u_host :: bytes
  u_port :: u16
  u_path :: bytes

record http_client_s =
  cl_status :: client_status
  cl_url :: http_url_s
  cl_connection :: addr
  cl_req :: "http_buf_s option"
  cl_recv :: "http_buf_s option"
  cl_head :: "head_cache_s option"
  cl_html :: "html_cache_s option"
  cl_ssl_flag :: bool
  cl_handler :: bool

definition zero_head :: head_cache_s where
  "zero_head = \<lparr>hc_status = VSR_START, hc_vsr = None, hc_start = 0, hc_kvs = [], hc_content_len = 0,
     hc_gzip_flag = False, hc_chunk_flag = False\<rparr>"

definition zero_vsr :: http_vsr_s where
  "zero_vsr = \<lparr>vsr_version = 0, vsr_version_len = 0, vsr_status = 0, vsr_status_len = 0, vsr_reason = 0, vsr_reason_len = 0\<rparr>"

definition zero_kv :: key_value_s where
  "zero_kv = \<lparr>kv_key = 0, kv_key_len = 0, kv_value = 0, kv_value_len = 0\<rparr>"

section \<open>The state machine\<close>

type_synonym head_state = "head_cache_s \<times> nat option \<times> mem"

datatype head_result = Go head_state | Bad head_state | Parsed head_state

definition upd_vsr :: "(http_vsr_s \<Rightarrow> http_vsr_s) \<Rightarrow> head_cache_s \<Rightarrow> head_cache_s" where
  "upd_vsr f hc = hc\<lparr>hc_vsr := map_option f (hc_vsr hc)\<rparr>"

text \<open>One character; \<open>p\<close> is the offset after it.\<close>

definition on_space :: "nat \<Rightarrow> head_state \<Rightarrow> head_result" where
  "on_space p s =
     (case s of (hc, kv, m) \<Rightarrow>
      (case hc_status hc of
         VSR_START \<Rightarrow> Go ((upd_vsr (\<lambda>v. v\<lparr>vsr_version := hc_start hc, vsr_version_len := of_nat (p - 1) - hc_start hc\<rparr>) hc)
           \<lparr>hc_status := VSR_VER, hc_start := of_nat p\<rparr>, kv, m)
       | VSR_VER \<Rightarrow> Go ((upd_vsr (\<lambda>v. v\<lparr>vsr_status := hc_start hc, vsr_status_len := of_nat (p - 1) - hc_start hc\<rparr>) hc)
           \<lparr>hc_status := VSR_STAT, hc_start := of_nat p\<rparr>, kv, m)
       | KEY_DONE \<Rightarrow> Go (hc\<lparr>hc_start := of_nat p\<rparr>, kv, m)
       | _ \<Rightarrow> Go (hc, kv, m)))"

definition on_colon :: "nat \<Rightarrow> head_state \<Rightarrow> head_result" where
  "on_colon p s =
     (case s of (hc, kv, m) \<Rightarrow>
      if hc_status hc = LINE_DONE
      then let hc = hc\<lparr>hc_status := KEY_DONE\<rparr>; (ok, m) = calloc_ok m
           in if \<not> ok then Bad (hc, None, m)
              else Go (hc\<lparr>hc_kvs := hc_kvs hc @ [zero_kv\<lparr>kv_key := hc_start hc, kv_key_len := of_nat (p - 1) - hc_start hc\<rparr>],
                         hc_start := of_nat p\<rparr>, Some (length (hc_kvs hc)), m)
      else Go (hc, kv, m))"

definition on_cr :: "nat \<Rightarrow> head_state \<Rightarrow> head_result" where
  "on_cr p s =
     (case s of (hc, kv, m) \<Rightarrow>
      (case hc_status hc of
         KEY_DONE \<Rightarrow>
           let hc = hc\<lparr>hc_status := LINE_HALF\<rparr>
           in (case kv of
                 None \<Rightarrow> if hc_kvs hc = [] then Bad (hc, None, m)
                   else Go (hc\<lparr>hc_kvs := (hc_kvs hc)[length (hc_kvs hc) - 1 :=
                     (last (hc_kvs hc))\<lparr>kv_value := hc_start hc, kv_value_len := of_nat (p - 1) - hc_start hc\<rparr>]\<rparr>, None, m)
               | Some i \<Rightarrow> Go (hc\<lparr>hc_kvs := (hc_kvs hc)[i :=
                     (hc_kvs hc ! i)\<lparr>kv_value := hc_start hc, kv_value_len := of_nat (p - 1) - hc_start hc\<rparr>]\<rparr>, None, m))
       | LINE_DONE \<Rightarrow> Go (hc\<lparr>hc_status := HEAD_HALF\<rparr>, kv, m)
       | VSR_STAT \<Rightarrow> Go ((upd_vsr (\<lambda>v. v\<lparr>vsr_reason := hc_start hc, vsr_reason_len := of_nat (p - 1) - hc_start hc\<rparr>) hc)
           \<lparr>hc_status := VSR_REAS, hc_start := of_nat p\<rparr>, kv, m)
       | _ \<Rightarrow> Bad (hc, kv, m)))"

definition on_lf :: "nat \<Rightarrow> head_state \<Rightarrow> head_result" where
  "on_lf p s =
     (case s of (hc, kv, m) \<Rightarrow>
      (case hc_status hc of
         LINE_HALF \<Rightarrow> Go (hc\<lparr>hc_status := LINE_DONE, hc_start := of_nat p\<rparr>, kv, m)
       | HEAD_HALF \<Rightarrow> Parsed (hc\<lparr>hc_status := HEAD_DONE\<rparr>, kv, m)
       | VSR_REAS \<Rightarrow> Go (hc\<lparr>hc_status := LINE_DONE, hc_start := of_nat p\<rparr>, kv, m)
       | _ \<Rightarrow> Bad (hc, kv, m)))"

definition head_step :: "u8 \<Rightarrow> nat \<Rightarrow> head_state \<Rightarrow> head_result" where
  "head_step c p s =
     (if c = 32 then on_space p s
      else if c = 58 then on_colon p s
      else if c = 13 then on_cr p s
      else if c = 10 then on_lf p s
      else Go s)"

text \<open>The loop over the bytes from \<open>p\<close> to \<open>last\<close>: the outcome and where it stopped.\<close>

fun head_loop :: "bytes \<Rightarrow> nat \<Rightarrow> head_state \<Rightarrow> head_result \<times> nat" where
  "head_loop [] p s = (Go s, p)"
| "head_loop (c # cs) p s =
     (case head_step c (Suc p) s of
        Go s' \<Rightarrow> head_loop cs (Suc p) s'
      | r \<Rightarrow> (r, Suc p))"

section \<open>Evaluating the fields\<close>

text \<open>
  \<open>strncpy\<close> of a field into one of the cleared buffers of 1024 bytes, read back as a string: no
  result when the field does not fit with its terminator or lies outside the received data.
\<close>

definition copy_field :: "bytes \<Rightarrow> u32 \<Rightarrow> u32 \<Rightarrow> bytes option" where
  "copy_field d off len =
     (if unat len < 1024 \<and> unat off + unat len \<le> length d
      then Some (takeWhile (\<lambda>x. x \<noteq> 0) (take (unat len) (drop (unat off) d))) else None)"

definition digit :: "u8 \<Rightarrow> bool" where
  "digit c \<longleftrightarrow> 48 \<le> c \<and> c \<le> 57"

definition dec_value :: "bytes \<Rightarrow> int" where
  "dec_value ds = foldl (\<lambda>n c. n * 10 + (uint c - 48)) 0 ds"

text \<open>\<open>atoi\<close>, as \<open>(int) strtol(s, NULL, 10)\<close>.\<close>

definition atoi :: "bytes \<Rightarrow> int" where
  "atoi s =
     (let s = dropWhile (\<lambda>c. c = 32 \<or> 9 \<le> c \<and> c \<le> 13) s;
          (neg, s) = (case s of [] \<Rightarrow> (False, []) | c # cs \<Rightarrow> if c = 45 then (True, cs) else if c = 43 then (False, cs) else (False, s));
          v = dec_value (takeWhile digit s);
          v = (if neg then - v else v);
          v = max (- (2 ^ 63)) (min (2 ^ 63 - 1) v)
      in sint (word_of_int v :: u32))"

definition apply_field :: "bytes \<Rightarrow> bytes \<Rightarrow> head_cache_s \<Rightarrow> head_cache_s" where
  "apply_field k v hc =
     (let hc = (if k = cstr ''Content-Length'' then hc\<lparr>hc_content_len := word_of_int (atoi v)\<rparr> else hc);
          hc = (if k = cstr ''Transfer-Encoding'' \<and> v = cstr ''chunked'' then hc\<lparr>hc_chunk_flag := True\<rparr> else hc)
      in if k = cstr ''Content-Encoding'' \<and> v = cstr ''gzip'' then hc\<lparr>hc_gzip_flag := True\<rparr> else hc)"

fun apply_fields :: "bytes \<Rightarrow> key_value_s list \<Rightarrow> head_cache_s \<Rightarrow> head_cache_s option" where
  "apply_fields d [] hc = Some hc"
| "apply_fields d (kv # kvs) hc =
     do { k \<leftarrow> copy_field d (kv_key kv) (kv_key_len kv);
          v \<leftarrow> copy_field d (kv_value kv) (kv_value_len kv);
          apply_fields d kvs (apply_field k v hc) }"

text \<open>\<open>http_parse_head\<close>: the result, the client and the remaining allocation outcomes.\<close>

definition head_get :: "http_client_s \<Rightarrow> mem \<Rightarrow> head_cache_s option \<times> mem" where
  "head_get cl m = (case cl_head cl of
     Some hc \<Rightarrow> (Some hc, m) | None \<Rightarrow> (case calloc_ok m of (ok, m) \<Rightarrow> (if ok then Some zero_head else None, m)))"

definition vsr_get :: "head_cache_s \<Rightarrow> mem \<Rightarrow> http_vsr_s option \<times> mem" where
  "vsr_get hc m = (case hc_vsr hc of
     Some v \<Rightarrow> (Some v, m) | None \<Rightarrow> (case calloc_ok m of (ok, m) \<Rightarrow> (if ok then Some zero_vsr else None, m)))"

definition head_parsed :: "bytes \<Rightarrow> head_cache_s \<Rightarrow> (int \<times> head_cache_s) option" where
  "head_parsed d hc =
     do { vsr \<leftarrow> hc_vsr hc;
          code \<leftarrow> copy_field d (vsr_status vsr) (vsr_status_len vsr);
          if code \<noteq> cstr ''200'' then Some (- 1, hc)
          else do { hc \<leftarrow> apply_fields d (hc_kvs hc) hc; Some (0, hc) } }"

definition head_finish :: "http_client_s \<Rightarrow> http_buf_s \<Rightarrow> head_result \<Rightarrow> nat \<Rightarrow> (int \<times> http_client_s \<times> mem) option" where
  "head_finish cl b r p =
     (case r of
        Go (hc, kv, m) \<Rightarrow> Some (0, cl\<lparr>cl_recv := Some (b\<lparr>b_pos := p\<rparr>), cl_head := Some hc\<rparr>, m)
      | Bad (hc, kv, m) \<Rightarrow> Some (- 1, cl\<lparr>cl_recv := Some (b\<lparr>b_pos := p\<rparr>), cl_head := Some hc\<rparr>, m)
      | Parsed (hc, kv, m) \<Rightarrow>
          do { (r, hc) \<leftarrow> head_parsed (b_data b) hc;
               Some (r, cl\<lparr>cl_status := HTTP_HEAD_DONE, cl_recv := Some (b\<lparr>b_pos := p\<rparr>), cl_head := Some hc\<rparr>, m) })"

definition http_parse_head :: "http_client_s \<Rightarrow> mem \<Rightarrow> (int \<times> http_client_s \<times> mem) option" where
  "http_parse_head cl m =
     do { b \<leftarrow> cl_recv cl;
          case head_get cl m of
            (None, m) \<Rightarrow> Some (- 1, cl, m)
          | (Some hc, m) \<Rightarrow>
              (case vsr_get hc m of
                 (None, m) \<Rightarrow> Some (- 1, cl\<lparr>cl_head := Some hc\<rparr>, m)
               | (Some vsr, m) \<Rightarrow>
                   (case head_loop (drop (b_pos b) (take (b_last b) (b_data b))) (b_pos b) (hc\<lparr>hc_vsr := Some vsr\<rparr>, None, m) of
                      (r, p) \<Rightarrow> head_finish cl b r p)) }"

section \<open>Resuming\<close>

lemma head_loop_append:
  "head_loop (xs @ ys) p s = (case head_loop xs p s of (Go s', p') \<Rightarrow> head_loop ys p' s' | r \<Rightarrow> r)"
  by (induction xs arbitrary: p s) (auto split: head_result.splits prod.splits)

lemma head_loop_Cons:
  assumes "head_loop (c # cs) p s = (r, p')"
  shows "(\<exists>s1. head_step c (Suc p) s = Go s1 \<and> head_loop cs (Suc p) s1 = (r, p')) \<or>
    head_step c (Suc p) s = r \<and> p' = Suc p \<and> (\<forall>s1. r \<noteq> Go s1)"
  using assms by (cases "head_step c (Suc p) s") auto

lemma head_loop_p: "head_loop xs p s = (Go s', p') \<Longrightarrow> p' = p + length xs"
proof (induction xs arbitrary: p s)
  case (Cons c cs)
  from head_loop_Cons [OF Cons.prems] obtain s1 where "head_loop cs (Suc p) s1 = (Go s', p')" by blast
  from Cons.IH [OF this] show ?case by simp
qed simp

text \<open>
  The local \<open>kv\<close> is lost between two calls. It only ever is \<open>NULL\<close> or the last field, which is what
  the code falls back to, so that forgetting it makes no difference.
\<close>

definition kv_ok :: "head_state \<Rightarrow> bool" where
  "kv_ok s \<longleftrightarrow> (case s of (hc, kv, m) \<Rightarrow> kv = None \<or> hc_kvs hc \<noteq> [] \<and> kv = Some (length (hc_kvs hc) - 1))"

definition forget :: "head_state \<Rightarrow> head_state" where
  "forget s = (case s of (hc, kv, m) \<Rightarrow> (hc, None, m))"

fun forget_result :: "head_result \<Rightarrow> head_result" where
  "forget_result (Go s) = Go (forget s)"
| "forget_result (Bad s) = Bad (forget s)"
| "forget_result (Parsed s) = Parsed (forget s)"

fun state_of :: "head_result \<Rightarrow> head_state" where
  "state_of (Go s) = s"
| "state_of (Bad s) = s"
| "state_of (Parsed s) = s"

lemmas head_step_defs = head_step_def on_space_def on_colon_def on_cr_def on_lf_def upd_vsr_def calloc_ok_def

lemma head_step_forget:
  assumes "kv_ok s"
  shows "forget_result (head_step c p (forget s)) = forget_result (head_step c p s)" "kv_ok (state_of (head_step c p s))"
  using assms
  by (auto simp: head_step_defs kv_ok_def forget_def Let_def last_conv_nth split: prod.splits head_status.splits list.splits)

lemma kv_ok_forget [simp]: "kv_ok (forget s)"
  by (simp add: kv_ok_def forget_def split: prod.splits)

lemma forget_forget [simp]: "forget (forget s) = forget s"
  by (simp add: forget_def split: prod.splits)

lemma head_loop_forget:
  assumes "kv_ok s" "kv_ok t" "forget s = forget t"
  shows "forget_result (fst (head_loop xs p s)) = forget_result (fst (head_loop xs p t)) \<and>
    snd (head_loop xs p s) = snd (head_loop xs p t)"
  using assms
proof (induction xs arbitrary: p s t)
  case (Cons c cs)
  have f: "forget_result (head_step c (Suc p) s) = forget_result (head_step c (Suc p) t)"
    using head_step_forget(1) [of s c "Suc p"] head_step_forget(1) [of t c "Suc p"] Cons.prems by simp
  have k: "kv_ok (state_of (head_step c (Suc p) s))" "kv_ok (state_of (head_step c (Suc p) t))"
    using head_step_forget(2) Cons.prems by blast+
  show ?case
  proof (cases "head_step c (Suc p) s")
    case (Go s1)
    with f obtain t1 where t1: "head_step c (Suc p) t = Go t1" "forget s1 = forget t1"
      by (cases "head_step c (Suc p) t") simp_all
    have "kv_ok s1" "kv_ok t1" using k Go t1(1) by simp_all
    from Cons.IH [OF this t1(2), of "Suc p"] show ?thesis using Go t1(1) by simp
  next
    case (Bad s1)
    with f show ?thesis by (cases "head_step c (Suc p) t") simp_all
  next
    case (Parsed s1)
    with f show ?thesis by (cases "head_step c (Suc p) t") simp_all
  qed
qed simp

lemma head_loop_keeps:
  assumes "head_loop xs p s = (r, p')" "kv_ok s"
  shows "kv_ok (state_of r)" "hc_vsr (fst s) \<noteq> None \<Longrightarrow> hc_vsr (fst (state_of r)) \<noteq> None"
proof -
  have v: "hc_vsr (fst s) \<noteq> None \<Longrightarrow> hc_vsr (fst (state_of (head_step c p s))) \<noteq> None" for c p s
    by (auto simp: head_step_defs Let_def split: prod.splits head_status.splits list.splits option.splits)
  have "kv_ok (state_of r) \<and> (hc_vsr (fst s) \<noteq> None \<longrightarrow> hc_vsr (fst (state_of r)) \<noteq> None)"
    using assms
  proof (induction xs arbitrary: p s)
    case (Cons c cs)
    have k: "kv_ok (state_of (head_step c (Suc p) s))" using Cons.prems(2) by (rule head_step_forget(2))
    from head_loop_Cons [OF Cons.prems(1)] show ?case
    proof (elim disjE exE conjE)
      fix s1 assume s1: "head_step c (Suc p) s = Go s1" "head_loop cs (Suc p) s1 = (r, p')"
      have "kv_ok s1" using k s1(1) by simp
      from Cons.IH [OF s1(2) this] v [of s c "Suc p"] s1(1) show ?thesis by auto
    next
      assume "head_step c (Suc p) s = r"
      with k v [of s c "Suc p"] show ?thesis by auto
    qed
  qed auto
  then show "kv_ok (state_of r)" "hc_vsr (fst s) \<noteq> None \<Longrightarrow> hc_vsr (fst (state_of r)) \<noteq> None" by simp_all
qed

lemma head_finish_forget:
  "forget_result r = forget_result r' \<Longrightarrow> head_finish cl b r p = head_finish cl b r' p"
  by (cases r; cases r') (auto simp: head_finish_def forget_def split: prod.splits)

lemma head_finish_over:
  "head_finish (cl\<lparr>cl_recv := x, cl_head := y, cl_recv := z\<rparr>) (b\<lparr>b_pos := q\<rparr>) r p =
   head_finish (cl\<lparr>cl_recv := x'\<rparr>) (b\<lparr>b_pos := q'\<rparr>) r p"
  by (cases r) (auto simp: head_finish_def split: prod.splits)

lemma http_parse_head_eq:
  assumes "cl_recv cl = Some b" "head_get cl m = (Some hc, m2)" "vsr_get hc m2 = (Some vsr, m3)"
    "head_loop (drop (b_pos b) (take (b_last b) (b_data b))) (b_pos b) (hc\<lparr>hc_vsr := Some vsr\<rparr>, None, m3) = (r, p)"
  shows "http_parse_head cl m = head_finish cl b r p"
  using assms by (simp add: http_parse_head_def)

text \<open>
  C27: a response head may arrive in any number of pieces: parsing what has been received, receiving
  more and calling \<open>http_parse_head\<close> again gives exactly the result, the client and the allocations
  of a single call on all of the data.
\<close>

theorem http_parse_head_resumes:
  assumes b: "cl_recv cl = Some b" "b_pos b \<le> b_last b" "b_last b \<le> length (b_data b)"
    and first: "http_parse_head cl m = Some (0, cl1, m1)" "cl_status cl1 \<noteq> HTTP_HEAD_DONE" "cl_recv cl1 = Some b1"
    and more: "b_last b' = b_last b + length ys" "take (b_last b') (b_data b') = take (b_last b) (b_data b) @ ys"
  shows "http_parse_head (cl1\<lparr>cl_recv := Some (b'\<lparr>b_pos := b_pos b1\<rparr>)\<rparr>) m1 =
    http_parse_head (cl\<lparr>cl_recv := Some (b'\<lparr>b_pos := b_pos b\<rparr>)\<rparr>) m"
proof -
  let ?xs = "drop (b_pos b) (take (b_last b) (b_data b))"
  obtain hc m2 where hc: "head_get cl m = (Some hc, m2)"
    using first(1) b(1) by (cases "head_get cl m"; cases "fst (head_get cl m)") (auto simp: http_parse_head_def)
  obtain vsr m3 where vsr: "vsr_get hc m2 = (Some vsr, m3)"
    using first(1) b(1) hc by (cases "vsr_get hc m2"; cases "fst (vsr_get hc m2)") (auto simp: http_parse_head_def)
  let ?s = "(hc\<lparr>hc_vsr := Some vsr\<rparr>, None, m3)"
  obtain hc1 kv1 where l: "head_loop ?xs (b_pos b) ?s = (Go (hc1, kv1, m1), b_pos b1)"
    and cl1: "cl1 = cl\<lparr>cl_recv := Some (b\<lparr>b_pos := b_pos b1\<rparr>), cl_head := Some hc1\<rparr>"
  proof -
    obtain r p where rp: "head_loop ?xs (b_pos b) ?s = (r, p)" by fastforce
    show thesis
      using that first unfolding http_parse_head_eq [OF b(1) hc vsr rp] using rp
      by (cases r) (auto simp: head_finish_def bind_eq_Some_conv split: prod.splits)
  qed
  have kv: "kv_ok ?s" by (simp add: kv_ok_def)
  have k1: "kv_ok (hc1, kv1, m1)" "hc_vsr hc1 \<noteq> None" using head_loop_keeps [OF l kv] by simp_all
  then obtain v1 where v1: "hc_vsr hc1 = Some v1" by blast
  then have same: "hc1\<lparr>hc_vsr := Some v1\<rparr> = hc1" by simp
  have p1: "b_pos b1 = b_last b" using head_loop_p [OF l] b by simp
  have d1: "drop (b_pos b1) (take (b_last b') (b_data b')) = ys" using more b p1 by simp
  have d2: "drop (b_pos b) (take (b_last b') (b_data b')) = ?xs @ ys" using more b by simp
  have l2: "head_loop (?xs @ ys) (b_pos b) ?s = head_loop ys (b_pos b1) (hc1, kv1, m1)"
    by (simp add: head_loop_append l)
  have f: "kv_ok (hc1, None, m1)" "forget (hc1, None, m1) = forget (hc1, kv1, m1)"
    by (simp_all add: kv_ok_def forget_def)
  obtain r p where r: "head_loop ys (b_pos b1) (hc1, None, m1) = (r, p)" by fastforce
  obtain r' where r': "head_loop ys (b_pos b1) (hc1, kv1, m1) = (r', p)" "forget_result r = forget_result r'"
    using head_loop_forget [OF f(1) k1(1) f(2), of ys "b_pos b1"] r
    by (cases "head_loop ys (b_pos b1) (hc1, kv1, m1)") auto
  have g: "head_get (cl1\<lparr>cl_recv := Some (b'\<lparr>b_pos := b_pos b1\<rparr>)\<rparr>) m1 = (Some hc1, m1)" "vsr_get hc1 m1 = (Some v1, m1)"
    by (simp_all add: cl1 head_get_def vsr_get_def v1)
  have g2: "head_get (cl\<lparr>cl_recv := Some (b'\<lparr>b_pos := b_pos b\<rparr>)\<rparr>) m = (Some hc, m2)"
    using hc by (simp add: head_get_def)
  have "http_parse_head (cl1\<lparr>cl_recv := Some (b'\<lparr>b_pos := b_pos b1\<rparr>)\<rparr>) m1 =
      head_finish (cl1\<lparr>cl_recv := Some (b'\<lparr>b_pos := b_pos b1\<rparr>)\<rparr>) (b'\<lparr>b_pos := b_pos b1\<rparr>) r p"
    by (rule http_parse_head_eq [OF _ g]) (simp_all add: d1 r same)
  also have "\<dots> = head_finish (cl1\<lparr>cl_recv := Some (b'\<lparr>b_pos := b_pos b1\<rparr>)\<rparr>) (b'\<lparr>b_pos := b_pos b1\<rparr>) r' p"
    by (rule head_finish_forget [OF r'(2)])
  also have "\<dots> = head_finish (cl\<lparr>cl_recv := Some (b'\<lparr>b_pos := b_pos b\<rparr>)\<rparr>) (b'\<lparr>b_pos := b_pos b\<rparr>) r' p"
    unfolding cl1 by (rule head_finish_over)
  also have "\<dots> = http_parse_head (cl\<lparr>cl_recv := Some (b'\<lparr>b_pos := b_pos b\<rparr>)\<rparr>) m"
    by (rule http_parse_head_eq [OF _ g2 vsr, symmetric]) (simp_all add: d2 l2 r'(1))
  finally show ?thesis .
qed

section \<open>Well-formed heads\<close>

definition free_of :: "u8 list \<Rightarrow> bytes \<Rightarrow> bool" where
  "free_of cs xs \<longleftrightarrow> (\<forall>c\<in>set xs. c \<notin> set cs)"

text \<open>What the machine keeps of a header value: the part after its last space.\<close>

definition last_word :: "bytes \<Rightarrow> bytes" where
  "last_word v = rev (takeWhile (\<lambda>c. c \<noteq> 32) (rev v))"

definition header_bytes :: "bytes \<times> bytes \<Rightarrow> bytes" where
  "header_bytes h = fst h @ [58, 32] @ snd h @ [13, 10]"

definition head_bytes :: "bytes \<Rightarrow> bytes \<Rightarrow> bytes \<Rightarrow> (bytes \<times> bytes) list \<Rightarrow> bytes" where
  "head_bytes ver code reason hs = ver @ [32] @ code @ [32] @ reason @ [13, 10] @ concat (map header_bytes hs) @ [13, 10]"

text \<open>Names and values without control bytes that fit the buffers of 1024 bytes.\<close>

definition wf_header :: "bytes \<times> bytes \<Rightarrow> bool" where
  "wf_header h \<longleftrightarrow> free_of [58, 13, 10, 0] (fst h) \<and> free_of [13, 10, 0] (snd h) \<and> length (fst h) < 1024 \<and>
     length (last_word (snd h)) < 1024"

lemma last_word_snoc: "last_word (v @ [c]) = (if c = 32 then [] else last_word v @ [c])"
  by (simp add: last_word_def)

lemma length_last_word: "length (last_word v) \<le> length v"
  by (simp add: last_word_def length_takeWhile_le [of _ "rev v", simplified])

lemma last_word_drop: "drop (length v - length (last_word v)) v = last_word v"
proof (induction v rule: rev_induct)
  case (snoc c v)
  then show ?case using length_last_word [of v] by (auto simp: last_word_snoc Suc_diff_le)
qed (simp add: last_word_def)

lemma last_word_space: "last_word (32 # v) = last_word v"
proof -
  have "takeWhile (\<lambda>c. c \<noteq> 32) (xs @ [32]) = takeWhile (\<lambda>c. c \<noteq> 32) xs" for xs :: bytes by (induction xs) auto
  then show ?thesis by (simp add: last_word_def)
qed

lemma head_loop_skip:
  assumes "\<And>c p. c \<in> set xs \<Longrightarrow> head_step c p s = Go s"
  shows "head_loop (xs @ ys) p s = head_loop ys (p + length xs) s"
  using assms by (induction xs arbitrary: p) simp_all

lemma head_loop_value:
  assumes "hc_status hc = KEY_DONE" "free_of [13, 10, 0] v"
  shows "head_loop v p (hc, kv, m) =
    (Go (hc\<lparr>hc_start := (if 32 \<in> set v then of_nat (p + length v - length (last_word v)) else hc_start hc)\<rparr>, kv, m), p + length v)"
  using assms(2)
proof (induction v rule: rev_induct)
  case (snoc c v)
  have "free_of [13, 10, 0] v" "c \<noteq> 13" "c \<noteq> 10" using snoc.prems by (auto simp: free_of_def)
  then show ?case
    using snoc.IH assms(1) length_last_word [of v]
    by (cases "c = 32") (simp_all add: head_loop_append head_step_defs last_word_snoc Suc_diff_le)
qed simp

definition field :: "nat \<Rightarrow> bytes \<times> bytes \<Rightarrow> key_value_s" where
  "field p h = \<lparr>kv_key = of_nat p, kv_key_len = of_nat (length (fst h)),
     kv_value = of_nat (p + length (fst h) + 2 + length (snd h) - length (last_word (snd h))),
     kv_value_len = of_nat (length (last_word (snd h)))\<rparr>"

lemma of_nat_sub: "b \<le> a \<Longrightarrow> of_nat a - of_nat (a - b) = (of_nat b :: u32)"
  by (simp add: of_nat_diff)

lemma head_loop_header:
  assumes "hc_status hc = LINE_DONE" "hc_start hc = of_nat p" "wf_header h"
  shows "head_loop (header_bytes h @ ys) p (hc, None, []) = head_loop ys (p + length (header_bytes h))
    (hc\<lparr>hc_kvs := hc_kvs hc @ [field p h], hc_start := of_nat (p + length (header_bytes h))\<rparr>, None, [])"
proof -
  obtain k v where h: "h = (k, v)" by fastforce
  let ?hc1 = "hc\<lparr>hc_status := KEY_DONE, hc_kvs := hc_kvs hc @ [zero_kv\<lparr>kv_key := of_nat p, kv_key_len := of_nat (length k)\<rparr>],
    hc_start := of_nat (Suc (p + length k))\<rparr>"
  let ?p1 = "Suc (p + length k)" and ?n = "length (hc_kvs hc)"
  have k: "head_step c q (hc, None, []) = Go (hc, None, [])" if "c \<in> set k" for c q
    using that assms by (auto simp: h wf_header_def free_of_def head_step_defs)
  have "head_loop (header_bytes h @ ys) p (hc, None, []) = head_loop (58 # 32 # v @ [13, 10] @ ys) (p + length k) (hc, None, [])"
    using head_loop_skip [OF k, where ys = "58 # 32 # v @ [13, 10] @ ys" and p = p] by (simp add: h header_bytes_def)
  also have "\<dots> = head_loop ((32 # v) @ [13, 10] @ ys) ?p1 (?hc1, Some ?n, [])"
    using assms(1,2) by (simp add: head_step_defs Let_def)
  also have "\<dots> = head_loop ([13, 10] @ ys) (?p1 + Suc (length v))
      (?hc1\<lparr>hc_start := of_nat (?p1 + Suc (length v) - length (last_word v))\<rparr>, Some ?n, [])"
  proof -
    have "free_of [13, 10, 0] (32 # v)" using assms(3) by (auto simp: h wf_header_def free_of_def)
    then show ?thesis
      using last_word_space [of v] head_loop_value [of ?hc1 "32 # v" ?p1 "Some ?n" "[]"] by (subst head_loop_append) simp
  qed
  also have "\<dots> = head_loop ys (p + length (header_bytes h))
    (hc\<lparr>hc_kvs := hc_kvs hc @ [field p h], hc_start := of_nat (p + length (header_bytes h))\<rparr>, None, [])"
    using length_last_word [of v] of_nat_sub [of "length (last_word v)" "?p1 + Suc (length v)"] assms(1)
    by (cases hc) (simp add: head_step_defs Let_def h header_bytes_def field_def zero_kv_def add.assoc)
  finally show ?thesis .
qed

fun fields :: "nat \<Rightarrow> (bytes \<times> bytes) list \<Rightarrow> key_value_s list" where
  "fields p [] = []"
| "fields p (h # hs) = field p h # fields (p + length (header_bytes h)) hs"

lemma head_loop_headers:
  assumes "hc_status hc = LINE_DONE" "hc_start hc = of_nat p" "\<forall>h\<in>set hs. wf_header h"
  shows "head_loop (concat (map header_bytes hs) @ ys) p (hc, None, []) =
    head_loop ys (p + length (concat (map header_bytes hs)))
      (hc\<lparr>hc_kvs := hc_kvs hc @ fields p hs, hc_start := of_nat (p + length (concat (map header_bytes hs)))\<rparr>, None, [])"
  using assms
proof (induction hs arbitrary: p hc)
  case (Cons h hs)
  let ?hc = "hc\<lparr>hc_kvs := hc_kvs hc @ [field p h], hc_start := of_nat (p + length (header_bytes h))\<rparr>"
  have "head_loop (concat (map header_bytes (h # hs)) @ ys) p (hc, None, []) =
      head_loop (concat (map header_bytes hs) @ ys) (p + length (header_bytes h)) (?hc, None, [])"
    using head_loop_header [of hc p h "concat (map header_bytes hs) @ ys"] Cons.prems by simp
  also have "\<dots> = head_loop ys (p + length (header_bytes h) + length (concat (map header_bytes hs)))
      (?hc\<lparr>hc_kvs := hc_kvs ?hc @ fields (p + length (header_bytes h)) hs,
          hc_start := of_nat (p + length (header_bytes h) + length (concat (map header_bytes hs)))\<rparr>, None, [])"
    by (rule Cons.IH) (use Cons.prems in auto)
  finally show ?case by (simp add: add.assoc)
next
  case Nil
  then show ?case by (cases hc) simp
qed

lemma head_loop_status:
  assumes "free_of [32, 13, 10] ver" "free_of [32, 13, 10] code" "free_of [13, 10] reason"
    and hc: "hc_status hc = VSR_START" "hc_start hc = 0" "hc_vsr hc = Some vsr"
  shows "\<exists>vsr'. head_loop (ver @ [32] @ code @ [32] @ reason @ [13, 10] @ ys) 0 (hc, None, []) =
    head_loop ys (length ver + length code + length reason + 4)
      (hc\<lparr>hc_status := LINE_DONE, hc_vsr := Some vsr', hc_start := of_nat (length ver + length code + length reason + 4)\<rparr>, None, []) \<and>
    vsr_status vsr' = of_nat (Suc (length ver)) \<and> vsr_status_len vsr' = of_nat (length code)"
proof -
  let ?v1 = "vsr\<lparr>vsr_version := 0, vsr_version_len := of_nat (length ver)\<rparr>"
  let ?h1 = "hc\<lparr>hc_status := VSR_VER, hc_vsr := Some ?v1, hc_start := of_nat (Suc (length ver))\<rparr>"
  let ?p2 = "Suc (Suc (length ver) + length code)"
  let ?v2 = "?v1\<lparr>vsr_status := of_nat (Suc (length ver)), vsr_status_len := of_nat (length code)\<rparr>"
  let ?h2 = "?h1\<lparr>hc_status := VSR_STAT, hc_vsr := Some ?v2, hc_start := of_nat ?p2\<rparr>"
  let ?p3 = "Suc (?p2 + length reason)"
  let ?v3 = "?v2\<lparr>vsr_reason := of_nat ?p2, vsr_reason_len := of_nat (length reason)\<rparr>"
  have s1: "head_step c q (hc, None, []) = Go (hc, None, [])" if "c \<in> set ver" for c q
    using that assms(1) hc by (auto simp: free_of_def head_step_defs)
  have s2: "head_step c q (?h1, None, []) = Go (?h1, None, [])" if "c \<in> set code" for c q
    using that assms(2) by (auto simp: free_of_def head_step_defs)
  have s3: "head_step c q (?h2, None, []) = Go (?h2, None, [])" if "c \<in> set reason" for c q
    using that assms(3) by (auto simp: free_of_def head_step_defs)
  have "head_loop (ver @ [32] @ code @ [32] @ reason @ [13, 10] @ ys) 0 (hc, None, []) =
      head_loop (code @ [32] @ reason @ [13, 10] @ ys) (Suc (length ver)) (?h1, None, [])"
    using hc by (subst head_loop_skip [OF s1]) (cases hc; simp add: head_step_defs)+
  also have "\<dots> = head_loop (reason @ [13, 10] @ ys) ?p2 (?h2, None, [])"
    by (subst head_loop_skip [OF s2]) (cases hc; simp add: head_step_defs)+
  also have "\<dots> = head_loop ys (Suc ?p3)
      (?h2\<lparr>hc_status := LINE_DONE, hc_vsr := Some ?v3, hc_start := of_nat (Suc ?p3)\<rparr>, None, [])"
    by (subst head_loop_skip [OF s3]) (cases hc; simp add: head_step_defs)+
  finally have "head_loop (ver @ [32] @ code @ [32] @ reason @ [13, 10] @ ys) 0 (hc, None, []) =
    head_loop ys (length ver + length code + length reason + 4)
      (hc\<lparr>hc_status := LINE_DONE, hc_vsr := Some ?v3, hc_start := of_nat (length ver + length code + length reason + 4)\<rparr>, None, [])"
    by (cases hc) (simp add: algebra_simps numeral_eq_Suc)
  then show ?thesis by (intro exI [of _ ?v3]) simp
qed

lemma unat_of_nat_small: "n < 2 ^ 32 \<Longrightarrow> unat (of_nat n :: u32) = n"
  by (simp add: unat_of_nat)

lemma takeWhile_free: "free_of [0] xs \<Longrightarrow> takeWhile (\<lambda>x. x \<noteq> 0) xs = xs"
  by (simp add: free_of_def takeWhile_eq_all_conv)

lemma copy_field_at:
  assumes "d = pre @ xs @ post" "length d < 2 ^ 32" "length xs < 1024" "free_of [0] xs"
  shows "copy_field d (of_nat (length pre)) (of_nat (length xs)) = Some xs"
proof -
  have "unat (of_nat (length pre) :: u32) = length pre" "unat (of_nat (length xs) :: u32) = length xs"
    using assms by (simp_all add: unat_of_nat_small)
  then show ?thesis using assms by (simp add: copy_field_def takeWhile_free)
qed

lemma apply_fields_ok:
  assumes "d = pre @ concat (map header_bytes hs) @ post" "length d < 2 ^ 32" "\<forall>h\<in>set hs. wf_header h"
  shows "apply_fields d (fields (length pre) hs) hc = Some (fold (\<lambda>(k, v). apply_field k (last_word v)) hs hc)"
  using assms
proof (induction hs arbitrary: pre hc)
  case (Cons h hs)
  obtain k v where h: "h = (k, v)" by fastforce
  have w: "free_of [0] k" "free_of [0] v" "length k < 1024" "length (last_word v) < 1024"
    using Cons.prems(3) by (auto simp: h wf_header_def free_of_def)
  let ?w = "take (length v - length (last_word v)) v"
  have v: "v = ?w @ last_word v" using last_word_drop [of v] by (metis append_take_drop_id)
  then have z: "free_of [0] (last_word v)" using w(2) by (metis Un_iff free_of_def set_append)
  have d1: "d = pre @ k @ ([58, 32] @ v @ [13, 10] @ concat (map header_bytes hs) @ post)"
    using Cons.prems(1) by (simp add: h header_bytes_def [of "(k, v)"])
  have d2: "d = (pre @ k @ [58, 32] @ ?w) @ last_word v @ ([13, 10] @ concat (map header_bytes hs) @ post)"
    using d1 v by (metis append.assoc)
  have c1: "copy_field d (kv_key (field (length pre) h)) (kv_key_len (field (length pre) h)) = Some k"
    using copy_field_at [OF d1 Cons.prems(2) w(3,1)] by (simp add: field_def h)
  have "length (pre @ k @ [58, 32] @ ?w) = length pre + length k + 2 + length v - length (last_word v)"
    using length_last_word [of v] by simp
  then have c2: "copy_field d (kv_value (field (length pre) h)) (kv_value_len (field (length pre) h)) = Some (last_word v)"
    using copy_field_at [OF d2 Cons.prems(2) w(4) z] by (simp only: field_def h fst_conv snd_conv key_value_s.simps)
  have d3: "d = (pre @ header_bytes h) @ concat (map header_bytes hs) @ post" using Cons.prems(1) by simp
  from Cons.IH [OF d3 Cons.prems(2)] Cons.prems(3) c1 c2 show ?case by (simp add: h)
qed simp

text \<open>What the head says, read from its header lines.\<close>

definition content_length :: "(bytes \<times> bytes) list \<Rightarrow> u32 \<Rightarrow> u32" where
  "content_length hs n = fold (\<lambda>(k, v) n. if k = cstr ''Content-Length'' then word_of_int (atoi (last_word v)) else n) hs n"

definition says :: "string \<Rightarrow> string \<Rightarrow> (bytes \<times> bytes) list \<Rightarrow> bool" where
  "says k v hs \<longleftrightarrow> (\<exists>h\<in>set hs. fst h = cstr k \<and> last_word (snd h) = cstr v)"

lemma apply_all:
  fixes hs :: "(bytes \<times> bytes) list" and hc :: head_cache_s
  defines "r \<equiv> fold (\<lambda>(k, v). apply_field k (last_word v)) hs hc"
  shows "hc_content_len r = content_length hs (hc_content_len hc)"
    and "hc_chunk_flag r \<longleftrightarrow> hc_chunk_flag hc \<or> says ''Transfer-Encoding'' ''chunked'' hs"
    and "hc_gzip_flag r \<longleftrightarrow> hc_gzip_flag hc \<or> says ''Content-Encoding'' ''gzip'' hs"
  unfolding r_def content_length_def says_def
  by (induction hs arbitrary: hc) (auto simp: apply_field_def Let_def split: if_splits)

lemma head_parsed_eq:
  assumes "hc_vsr hc = Some vsr" "copy_field d (vsr_status vsr) (vsr_status_len vsr) = Some code"
    "apply_fields d (hc_kvs hc) hc = Some r"
  shows "head_parsed d hc = Some (if code = cstr ''200'' then (0, r) else (- 1, hc))"
  using assms by (simp add: head_parsed_def)

lemma head_loop_whole:
  assumes "free_of [32, 13, 10] ver" "free_of [32, 13, 10] code" "free_of [13, 10] reason" "\<forall>h\<in>set hs. wf_header h"
  shows "\<exists>vsr. head_loop (head_bytes ver code reason hs @ body) 0 (zero_head\<lparr>hc_vsr := Some zero_vsr\<rparr>, None, []) =
    (Parsed (zero_head\<lparr>hc_status := HEAD_DONE, hc_vsr := Some vsr,
       hc_start := of_nat (length (head_bytes ver code reason hs) - 2),
       hc_kvs := fields (length ver + length code + length reason + 4) hs\<rparr>, None, []), length (head_bytes ver code reason hs)) \<and>
    vsr_status vsr = of_nat (Suc (length ver)) \<and> vsr_status_len vsr = of_nat (length code)"
proof -
  let ?hs = "concat (map header_bytes hs)" and ?p = "length ver + length code + length reason + 4"
  let ?hc = "zero_head\<lparr>hc_vsr := Some zero_vsr\<rparr>"
  have "hc_status ?hc = VSR_START" "hc_start ?hc = 0" "hc_vsr ?hc = Some zero_vsr" by (simp_all add: zero_head_def)
  from head_loop_status [OF assms(1-3) this, of "?hs @ [13, 10] @ body"] obtain vsr where
    v: "head_loop (ver @ [32] @ code @ [32] @ reason @ [13, 10] @ ?hs @ [13, 10] @ body) 0 (?hc, None, []) =
      head_loop (?hs @ [13, 10] @ body) ?p (?hc\<lparr>hc_status := LINE_DONE, hc_vsr := Some vsr, hc_start := of_nat ?p\<rparr>, None, [])"
      "vsr_status vsr = of_nat (Suc (length ver))" "vsr_status_len vsr = of_nat (length code)" by blast
  let ?h2 = "?hc\<lparr>hc_status := LINE_DONE, hc_vsr := Some vsr, hc_start := of_nat ?p\<rparr>"
  have len: "length (head_bytes ver code reason hs) = Suc (Suc (?p + length ?hs))" by (simp add: head_bytes_def)
  have "head_loop (?hs @ [13, 10] @ body) ?p (?h2, None, []) = head_loop ([13, 10] @ body) (?p + length ?hs)
      (?h2\<lparr>hc_kvs := hc_kvs ?h2 @ fields ?p hs, hc_start := of_nat (?p + length ?hs)\<rparr>, None, [])"
    by (rule head_loop_headers) (use assms(4) in auto)
  also have "\<dots> = (Parsed (zero_head\<lparr>hc_status := HEAD_DONE, hc_vsr := Some vsr,
       hc_start := of_nat (length (head_bytes ver code reason hs) - 2), hc_kvs := fields ?p hs\<rparr>, None, []),
       length (head_bytes ver code reason hs))"
    unfolding len by (simp add: head_step_defs zero_head_def)
  finally show ?thesis using v by (intro exI [of _ vsr]) (simp add: head_bytes_def)
qed

section \<open>Properties\<close>

lemma parse_head_ok:
  assumes b: "cl_recv cl = Some b" "cl_head cl = None" "b_pos b = 0" "length (b_data b) < 2 ^ 32"
    and d: "take (b_last b) (b_data b) = head_bytes ver code reason hs @ body"
    and wf: "free_of [32, 13, 10] ver" "free_of [32, 13, 10, 0] code" "length code < 1024" "free_of [13, 10] reason"
      "\<forall>h\<in>set hs. wf_header h"
  shows "\<exists>hc. http_parse_head cl [] = Some (if code = cstr ''200'' then 0 else - 1,
      cl\<lparr>cl_status := HTTP_HEAD_DONE, cl_recv := Some (b\<lparr>b_pos := length (head_bytes ver code reason hs)\<rparr>), cl_head := Some hc\<rparr>, []) \<and>
    (code = cstr ''200'' \<longrightarrow> hc_content_len hc = content_length hs 0 \<and>
      hc_chunk_flag hc = says ''Transfer-Encoding'' ''chunked'' hs \<and> hc_gzip_flag hc = says ''Content-Encoding'' ''gzip'' hs)"
proof -
  have "free_of [32, 13, 10] code" using wf(2) by (auto simp: free_of_def)
  from head_loop_whole [OF wf(1) this wf(4,5), of body] obtain vsr where
    v: "head_loop (head_bytes ver code reason hs @ body) 0 (zero_head\<lparr>hc_vsr := Some zero_vsr\<rparr>, None, []) =
    (Parsed (zero_head\<lparr>hc_status := HEAD_DONE, hc_vsr := Some vsr,
       hc_start := of_nat (length (head_bytes ver code reason hs) - 2),
       hc_kvs := fields (length ver + length code + length reason + 4) hs\<rparr>, None, []), length (head_bytes ver code reason hs))"
    "vsr_status vsr = of_nat (Suc (length ver))" "vsr_status_len vsr = of_nat (length code)" by blast
  let ?hc = "zero_head\<lparr>hc_status := HEAD_DONE, hc_vsr := Some vsr,
       hc_start := of_nat (length (head_bytes ver code reason hs) - 2),
       hc_kvs := fields (length ver + length code + length reason + 4) hs\<rparr>"
  let ?rest = "drop (b_last b) (b_data b)"
  have data: "b_data b = head_bytes ver code reason hs @ body @ ?rest"
    using d by (metis append.assoc append_take_drop_id)
  have "copy_field (b_data b) (of_nat (length (ver @ [32]))) (of_nat (length code)) = Some code"
    by (rule copy_field_at [of _ _ _ "[32] @ reason @ [13, 10] @ concat (map header_bytes hs) @ [13, 10] @ body @ ?rest"])
      (use data b(4) wf(2,3) in \<open>auto simp: head_bytes_def free_of_def\<close>)
  then have code: "copy_field (b_data b) (vsr_status vsr) (vsr_status_len vsr) = Some code" by (simp add: v)
  have "apply_fields (b_data b) (fields (length (ver @ [32] @ code @ [32] @ reason @ [13, 10])) hs) ?hc =
      Some (fold (\<lambda>(k, v). apply_field k (last_word v)) hs ?hc)"
    by (rule apply_fields_ok [of _ _ _ "[13, 10] @ body @ ?rest"]) (use data b(4) wf(5) in \<open>simp_all add: head_bytes_def\<close>)
  then have f: "apply_fields (b_data b) (hc_kvs ?hc) ?hc = Some (fold (\<lambda>(k, v). apply_field k (last_word v)) hs ?hc)"
    by (simp add: numeral_eq_Suc add_ac)
  let ?r = "fold (\<lambda>(k, v). apply_field k (last_word v)) hs ?hc"
  have "head_parsed (b_data b) ?hc = Some (if code = cstr ''200'' then (0, ?r) else (- 1, ?hc))"
    by (rule head_parsed_eq [OF _ code f]) simp
  moreover have "http_parse_head cl [] = head_finish cl b (Parsed (?hc, None, [])) (length (head_bytes ver code reason hs))"
  proof (rule http_parse_head_eq [OF b(1)])
    show "head_get cl [] = (Some zero_head, [])" using b(2) by (simp add: head_get_def calloc_ok_def)
    show "vsr_get zero_head [] = (Some zero_vsr, [])" by (simp add: vsr_get_def calloc_ok_def zero_head_def)
    show "head_loop (drop (b_pos b) (take (b_last b) (b_data b))) (b_pos b) (zero_head\<lparr>hc_vsr := Some zero_vsr\<rparr>, None, []) =
      (Parsed (?hc, None, []), length (head_bytes ver code reason hs))"
      unfolding b(3) d drop_0 by (rule v(1))
  qed
  ultimately have "http_parse_head cl [] = Some (if code = cstr ''200'' then 0 else - 1,
      cl\<lparr>cl_status := HTTP_HEAD_DONE, cl_recv := Some (b\<lparr>b_pos := length (head_bytes ver code reason hs)\<rparr>),
        cl_head := Some (if code = cstr ''200'' then ?r else ?hc)\<rparr>, [])"
    by (simp add: head_finish_def)
  moreover have "hc_content_len ?hc = 0" "\<not> hc_chunk_flag ?hc" "\<not> hc_gzip_flag ?hc" by (simp_all add: zero_head_def)
  with apply_all [of hs ?hc] have fl: "hc_content_len ?r = content_length hs 0 \<and>
      hc_chunk_flag ?r = says ''Transfer-Encoding'' ''chunked'' hs \<and> hc_gzip_flag ?r = says ''Content-Encoding'' ''gzip'' hs"
    by simp
  ultimately show ?thesis
  proof (intro exI conjI impI)
    assume c: "code = cstr ''200''"
    show "hc_content_len (if code = cstr ''200'' then ?r else ?hc) = content_length hs 0"
      "hc_chunk_flag (if code = cstr ''200'' then ?r else ?hc) = says ''Transfer-Encoding'' ''chunked'' hs"
      "hc_gzip_flag (if code = cstr ''200'' then ?r else ?hc) = says ''Content-Encoding'' ''gzip'' hs"
      unfolding if_P [OF c] using fl by simp_all
  qed
qed


definition ex_url :: http_url_s where
  "ex_url = \<lparr>u_schema = cstr ''http'', u_host = cstr ''a.b'', u_port = 80, u_path = cstr ''/''\<rparr>"

definition ex_client :: "bytes \<Rightarrow> http_client_s" where
  "ex_client d = \<lparr>cl_status = HTTP_REQ_DONE, cl_url = ex_url, cl_connection = 500, cl_req = None,
     cl_recv = Some \<lparr>b_data = d, b_last = length d, b_pos = 0\<rparr>, cl_head = None, cl_html = None, cl_ssl_flag = False, cl_handler = True\<rparr>"

definition ex_headers :: "(bytes \<times> bytes) list" where
  "ex_headers = [(cstr ''Content-Length'', cstr ''5''), (cstr ''Content-Encoding'', cstr ''gzip'')]"

lemma ex_head_wf:
  "free_of [32, 13, 10] (cstr ''HTTP/1.1'')" "free_of [32, 13, 10, 0] (cstr ''200'')" "free_of [13, 10] (cstr ''OK'')"
  "\<forall>h\<in>set ex_headers. wf_header h"
  by (simp_all add: free_of_def cstr_def ex_headers_def wf_header_def last_word_def of_char_def)


theorem http_parse_head_resumes_witness:
  "\<exists>cl1 m1. http_parse_head (ex_client (cstr ''HTTP/1'')) [] = Some (0, cl1, m1) \<and>
    http_parse_head (cl1\<lparr>cl_recv := Some (\<lparr>b_data = cstr ''HTTP/1.1 200'', b_last = 12, b_pos = 6\<rparr>)\<rparr>) m1 =
    http_parse_head (ex_client (cstr ''HTTP/1.1 200'')) []"
proof -
  let ?b = "\<lparr>b_data = cstr ''HTTP/1'', b_last = 6, b_pos = 0\<rparr>" and ?b' = "\<lparr>b_data = cstr ''HTTP/1.1 200'', b_last = 12, b_pos = 0\<rparr>"
  let ?cl = "ex_client (cstr ''HTTP/1'')"
  have b: "cl_recv ?cl = Some ?b" "b_pos ?b \<le> b_last ?b" "b_last ?b \<le> length (b_data ?b)"
    by (simp_all add: ex_client_def cstr_def)
  have "\<exists>cl1. http_parse_head ?cl [] = Some (0, cl1, []) \<and> cl_status cl1 = HTTP_REQ_DONE \<and> cl_recv cl1 = Some (?b\<lparr>b_pos := 6\<rparr>)"
    by (simp add: http_parse_head_def ex_client_def head_get_def vsr_get_def calloc_ok_def cstr_def of_char_def head_step_defs
        zero_head_def head_finish_def)
  then obtain cl1 where cl1: "http_parse_head ?cl [] = Some (0, cl1, [])" "cl_status cl1 \<noteq> HTTP_HEAD_DONE" "cl_recv cl1 = Some (?b\<lparr>b_pos := 6\<rparr>)"
    by auto
  have more: "b_last ?b' = b_last ?b + length (cstr ''.1 200'')" "take (b_last ?b') (b_data ?b') = take (b_last ?b) (b_data ?b) @ cstr ''.1 200''"
    by (simp_all add: cstr_def)
  have e: "?cl\<lparr>cl_recv := Some (?b'\<lparr>b_pos := b_pos ?b\<rparr>)\<rparr> = ex_client (cstr ''HTTP/1.1 200'')"
    by (simp add: ex_client_def cstr_def)
  from http_parse_head_resumes [OF b cl1 more] have "http_parse_head (cl1\<lparr>cl_recv := Some (?b'\<lparr>b_pos := 6\<rparr>)\<rparr>) [] =
      http_parse_head (ex_client (cstr ''HTTP/1.1 200'')) []"
    unfolding e by simp
  with cl1(1) show ?thesis by auto
qed

end
