(* ===== verification/Dns_Packet.thy ===== *)
theory Dns_Packet
  imports Http_Head
begin

text \<open>
  The wire format of the resolver and the URL splitter, the parts of \<^verbatim>\<open>src/async_dns.c\<close> that keep
  no state: \<open>pack_udp\<close> writes a query, \<open>parse_answer\<close> is what \<open>parse_udp\<close> reads of an answer, and
  \<open>create_http_url\<close> cuts a URL into its parts over the third-party \<open>http_parser_parse_url\<close>, a
  parameter. Packets are byte lists of the size of the array they stand in, offsets are integers.

  A packed query is proved to be the reference encoding of the host's labels, and the answer reader
  to stay inside its buffer and to find the address behind a chain of aliases.
\<close>

section \<open>Numbers in network order\<close>

definition DNS_UDP_SIZE :: nat where "DNS_UDP_SIZE = 4096"
definition DNS_TRY_LIMIT :: int where "DNS_TRY_LIMIT = 1"

text \<open>\<open>sizeof(dns_header_t)\<close>: six 16-bit fields and one byte of data, padded.\<close>

definition sizeof_dns_header :: nat where "sizeof_dns_header = 14"

definition be16 :: "u16 \<Rightarrow> bytes" where
  "be16 w = [ucast (drop_bit 8 w), ucast w]"

definition be32 :: "u32 \<Rightarrow> bytes" where
  "be32 w = [ucast (drop_bit 24 w), ucast (drop_bit 16 w), ucast (drop_bit 8 w), ucast w]"

text \<open>The number that has the bytes of the given one in memory, the most significant first.\<close>

definition htons :: "u16 \<Rightarrow> u16" where
  "htons w = le_word (be16 w)"

definition htonl :: "u32 \<Rightarrow> u32" where
  "htonl w = le_word (be32 w)"

text \<open>The bytes of a 16-bit number in memory.\<close>

definition le16 :: "u16 \<Rightarrow> bytes" where
  "le16 w = [ucast w, ucast (drop_bit 8 w)]"

lemma length_le16 [simp]: "length (le16 w) = 2"
  by (simp add: le16_def)

section \<open>Writing a query\<close>

definition tolower :: "u8 \<Rightarrow> u8" where
  "tolower c = (if 65 \<le> c \<and> c \<le> 90 then c + 32 else c)"

text \<open>
  The loop over the host name and its terminating zero: a label's length byte at \<open>chunk_len\<close> is
  written when the label ends.
\<close>

fun pack_loop :: "bytes \<Rightarrow> bytes \<Rightarrow> nat \<Rightarrow> nat \<Rightarrow> (bytes \<times> nat) option" where
  "pack_loop pkt [] chunk_len p = Some (pkt, p)"
| "pack_loop pkt (c # cs) chunk_len p =
     (if c = 46
      then do { pkt \<leftarrow> store pkt chunk_len [of_nat (p - chunk_len - 1)]; pack_loop pkt cs p (Suc p) }
      else do { pkt \<leftarrow> store pkt p [tolower c];
                pkt \<leftarrow> (if c = 0 then store pkt chunk_len [of_nat (p - chunk_len - 1)] else Some pkt);
                pack_loop pkt cs chunk_len (Suc p) })"

definition pack_udp :: "u16 \<Rightarrow> bytes \<Rightarrow> bytes \<Rightarrow> (bytes \<times> nat) option" where
  "pack_udp qid pkt host =
     do { pkt \<leftarrow> store pkt 0 (le16 qid);
          pkt \<leftarrow> store pkt 2 (le16 (htons 0x0100));
          pkt \<leftarrow> store pkt 4 (le16 (htons 1));
          pkt \<leftarrow> store pkt 6 (le16 0);
          pkt \<leftarrow> store pkt 8 (le16 0);
          pkt \<leftarrow> store pkt 10 (le16 0);
          (pkt, p) \<leftarrow> pack_loop pkt (host @ [0]) 12 13;
          pkt \<leftarrow> store pkt p [0];
          pkt \<leftarrow> store pkt (p + 1) [1];
          pkt \<leftarrow> store pkt (p + 2) [0];
          pkt \<leftarrow> store pkt (p + 3) [1];
          Some (pkt, p + 4) }"

section \<open>Reading an answer\<close>

text \<open>\<open>pkt\<close> is the receive buffer, \<open>len\<close> the number of bytes received into it.\<close>

function skip_qname :: "bytes \<Rightarrow> int \<Rightarrow> int \<Rightarrow> int option" where
  "skip_qname pkt len p =
     (if p < len then (case rd pkt p of None \<Rightarrow> None | Some b \<Rightarrow> if b \<noteq> 0 then skip_qname pkt len (p + 1) else Some p)
      else Some p)"
  by pat_completeness auto
termination by (relation "measure (\<lambda>(pkt, len, p). nat (len - p))") auto

function skip_owner :: "bytes \<Rightarrow> int \<Rightarrow> int \<Rightarrow> int option" where
  "skip_owner pkt len p =
     (case rd pkt p of None \<Rightarrow> None | Some b \<Rightarrow> if b \<noteq> 0 \<and> p + 12 < len then skip_owner pkt len (p + 1) else Some p)"
  by pat_completeness auto
termination by (relation "measure (\<lambda>(pkt, len, p). nat (len - p))") auto

declare skip_qname.simps [simp del] skip_owner.simps [simp del]

text \<open>\<open>htons(((uint16_t *)p)[i])\<close>\<close>

definition u16_at :: "bytes \<Rightarrow> int \<Rightarrow> int \<Rightarrow> u16 option" where
  "u16_at pkt p i = map_option htons (ld 2 pkt (p + 2 * i))"

text \<open>The start of a record's fixed part: two bytes before its type.\<close>

definition record_start :: "bytes \<Rightarrow> int \<Rightarrow> int \<Rightarrow> int option" where
  "record_start pkt len p =
     (case rd pkt p of
        None \<Rightarrow> None
      | Some b \<Rightarrow> if b \<noteq> 0xC0 then map_option (\<lambda>p. p - 1) (skip_owner pkt len p) else Some p)"

lemma skip_owner_ge: "skip_owner pkt len p = Some q \<Longrightarrow> p \<le> q"
  by (induction pkt len p rule: skip_owner.induct)
    (subst (asm) (2) skip_owner.simps, fastforce split: option.splits if_splits)

lemma record_start_ge: "record_start pkt len p = Some q \<Longrightarrow> p - 1 \<le> q"
  by (auto simp: record_start_def split: option.splits if_splits dest: skip_owner_ge)

function find_answer :: "bytes \<Rightarrow> int \<Rightarrow> int \<Rightarrow> (bool \<times> int) option" where
  "find_answer pkt len p =
     (if p + 12 < len
      then (case record_start pkt len p of
              None \<Rightarrow> None
            | Some p' \<Rightarrow>
                (case u16_at pkt p' 1 of
                   None \<Rightarrow> None
                 | Some type \<Rightarrow>
                     if type = 5
                     then (case u16_at pkt p' 5 of None \<Rightarrow> None | Some dlen \<Rightarrow> find_answer pkt len (p' + 12 + uint dlen))
                     else Some (type = 1, p')))
      else Some (False, p))"
  by pat_completeness auto
termination
proof (relation "measure (\<lambda>(pkt, len, p). nat (len - p))")
  fix pkt :: bytes and len p p' :: int and type dlen :: u16
  assume *: "p + 12 < len" "record_start pkt len p = Some p'"
  have "p - 1 \<le> p'" using record_start_ge [OF *(2)] .
  moreover have "0 \<le> uint dlen" by simp
  ultimately show "((pkt, len, p' + 12 + uint dlen), pkt, len, p) \<in> measure (\<lambda>(pkt, len, p). nat (len - p))"
    using *(1) unfolding in_measure prod.case zless_nat_conj by linarith
qed simp

declare find_answer.simps [simp del]

text \<open>
  What the packet asks for: another try (the jump to \<open>failed\<close>), dropping the query without an
  address, or an address (\<open>s_addr\<close>, in network order).
\<close>

datatype dns_answer = Retry | NoAddress | Address u32

definition question_ok :: "bytes \<Rightarrow> int \<Rightarrow> int \<Rightarrow> bool option" where
  "question_ok pkt len p =
     (if p + 5 > len then Some False
      else do { a \<leftarrow> rd pkt (p + 1); b \<leftarrow> rd pkt (p + 2); Some (push_bit 8 (uint a) OR uint b = 1) })"

definition read_address :: "bytes \<Rightarrow> int \<Rightarrow> dns_answer option" where
  "read_address pkt p =
     do { dlen \<leftarrow> u16_at pkt p 5;
          if dlen \<noteq> 4 then Some Retry
          else do { a \<leftarrow> rd pkt (p + 12); b \<leftarrow> rd pkt (p + 13); c \<leftarrow> rd pkt (p + 14); d \<leftarrow> rd pkt (p + 15);
                    Some (Address (htonl (push_bit 24 (ucast a) OR push_bit 16 (ucast b) OR push_bit 8 (ucast c) OR ucast d))) } }"

definition parse_answer :: "bytes \<Rightarrow> int \<Rightarrow> dns_answer option" where
  "parse_answer pkt len =
     do { ancount \<leftarrow> (ld 2 pkt 6 :: u16 option);
          if ancount = 0 then Some Retry
          else do {
            p \<leftarrow> skip_qname pkt len 12;
            ok \<leftarrow> question_ok pkt len p;
            if \<not> ok then Some Retry
            else do { (found, p) \<leftarrow> find_answer pkt len (p + 5);
                      if found \<and> p + 12 < len then read_address pkt p else Some NoAddress } } }"

section \<open>The query as a reference encoding\<close>

text \<open>The labels of a host name and their encoding: each behind its length, a zero byte at the end.\<close>

fun labels :: "bytes \<Rightarrow> bytes list" where
  "labels [] = [[]]"
| "labels (c # cs) = (if c = 46 then [] # labels cs else (c # hd (labels cs)) # tl (labels cs))"

definition encode_label :: "bytes \<Rightarrow> bytes" where
  "encode_label l = of_nat (length l) # map tolower l"

definition encode_name :: "bytes list \<Rightarrow> bytes" where
  "encode_name ls = concat (map encode_label ls) @ [0]"

definition query_bytes :: "u16 \<Rightarrow> bytes \<Rightarrow> bytes" where
  "query_bytes qid host = le16 qid @ [1, 0, 0, 1, 0, 0, 0, 0, 0, 0] @ encode_name (labels host) @ [0, 1, 0, 1]"

text \<open>A resolver's reading of a name without compression.\<close>

fun decode_name :: "nat \<Rightarrow> bytes \<Rightarrow> (bytes list \<times> bytes) option" where
  "decode_name 0 bs = None"
| "decode_name (Suc fuel) [] = None"
| "decode_name (Suc fuel) (n # bs) =
     (if n = 0 then Some ([], bs)
      else if 63 < n \<or> length bs < unat n then None
      else (case decode_name fuel (drop (unat n) bs) of None \<Rightarrow> None | Some (ls, r) \<Rightarrow> Some (take (unat n) bs # ls, r)))"

lemma labels_not_Nil [simp]: "labels cs \<noteq> []"
  by (cases cs) auto

lemma length_encode: "length (encode_name (labels cs)) = length cs + 2"
proof (induction cs)
  case (Cons c cs)
  then show ?case
    by (cases "labels cs") (auto simp: encode_name_def encode_label_def)
qed (simp add: encode_name_def encode_label_def)

lemma store_at: "length pre = i \<Longrightarrow> length old = length bs \<Longrightarrow> store (pre @ old @ suf) i bs = Some (pre @ bs @ suf)"
  by (simp add: store_def)

text \<open>
  The packer in the middle of a name: \<open>pre\<close> is finished, then the free length byte, then the
  label's characters so far.
\<close>

lemma pack_loop_ok:
  assumes "0 \<notin> set cs" "length cs < length suf"
  shows "\<exists>suf'. pack_loop (pre @ [x] @ cur @ suf) (cs @ [0]) (length pre) (Suc (length pre + length cur)) =
      Some (pre @ (of_nat (length cur + length (hd (labels cs))) # cur @ map tolower (hd (labels cs))) @
            concat (map encode_label (tl (labels cs))) @ [0] @ suf', Suc (length pre + length cur + length cs + 1)) \<and>
      length suf' + length cs + 1 = length suf"
  using assms
proof (induction cs arbitrary: pre x cur suf)
  case Nil
  then obtain y ys where suf: "suf = y # ys" by (cases suf) auto
  have 1: "store (pre @ [x] @ cur @ suf) (Suc (length pre + length cur)) [0] = Some (pre @ [x] @ cur @ [0] @ ys)"
    using store_at [of "pre @ [x] @ cur" "Suc (length pre + length cur)" "[y]" "[0]" ys] by (simp add: suf)
  have 2: "store (pre @ [x] @ cur @ [0] @ ys) (length pre) [n] = Some (pre @ [n] @ cur @ [0] @ ys)" for n
    by (rule store_at) simp_all
  show ?case using 1 2 by (simp add: suf tolower_def)
next
  case (Cons c cs)
  then obtain y ys where suf: "suf = y # ys" by (cases suf) auto
  have l: "length cs < length ys" "0 \<notin> set cs" "c \<noteq> 0" using Cons.prems suf by auto
  show ?case
  proof (cases "c = 46")
    case True
    have 2: "store (pre @ [x] @ cur @ y # ys) (length pre) [n] = Some (pre @ [n] @ cur @ y # ys)" for n
      by (rule store_at) simp_all
    let ?pre = "pre @ of_nat (length cur) # cur"
    have *: "pack_loop (?pre @ [y] @ [] @ ys) (cs @ [0]) (length ?pre) (Suc (length ?pre + length ([]::bytes))) = z \<Longrightarrow>
        pack_loop (pre @ [x] @ cur @ suf) ((c # cs) @ [0]) (length pre) (Suc (length pre + length cur)) = z" for z
      using 2 by (simp add: suf True)
    have "labels cs = hd (labels cs) # tl (labels cs)" by simp
    then have e: "concat (map encode_label (labels cs)) = encode_label (hd (labels cs)) @ concat (map encode_label (tl (labels cs)))"
      by (metis concat.simps(2) list.simps(9))
    from Cons.IH [OF l(2,1), of ?pre y "[]"] obtain suf' where s: "pack_loop (?pre @ [y] @ [] @ ys) (cs @ [0]) (length ?pre) (Suc (length ?pre + length ([]::bytes))) =
      Some (?pre @ (of_nat (length ([]::bytes) + length (hd (labels cs))) # [] @ map tolower (hd (labels cs))) @
            concat (map encode_label (tl (labels cs))) @ [0] @ suf', Suc (length ?pre + length ([]::bytes) + length cs + 1))"
      "length suf' + length cs + 1 = length ys" by blast
    have "pack_loop (pre @ [x] @ cur @ suf) ((c # cs) @ [0]) (length pre) (Suc (length pre + length cur)) =
      Some (pre @ (of_nat (length cur + length (hd (labels (c # cs)))) # cur @ map tolower (hd (labels (c # cs)))) @
            concat (map encode_label (tl (labels (c # cs)))) @ [0] @ suf', Suc (length pre + length cur + length (c # cs) + 1))"
      by (rule trans [OF * [OF s(1)]]) (simp add: True e encode_label_def)
    with s(2) show ?thesis by (auto simp: suf)
  next
    case False
    have 1: "store (pre @ [x] @ cur @ suf) (Suc (length pre + length cur)) [z] = Some (pre @ [x] @ (cur @ [z]) @ ys)" for z
      using store_at [of "pre @ [x] @ cur" "Suc (length pre + length cur)" "[y]" "[z]" ys] by (simp add: suf)
    let ?cur = "cur @ [tolower c]"
    have *: "pack_loop (pre @ [x] @ ?cur @ ys) (cs @ [0]) (length pre) (Suc (length pre + length ?cur)) = z \<Longrightarrow>
        pack_loop (pre @ [x] @ cur @ suf) ((c # cs) @ [0]) (length pre) (Suc (length pre + length cur)) = z" for z
      using 1 by (simp add: False l)
    from Cons.IH [OF l(2,1), of pre x ?cur] obtain suf' where s: "pack_loop (pre @ [x] @ ?cur @ ys) (cs @ [0]) (length pre) (Suc (length pre + length ?cur)) =
      Some (pre @ (of_nat (length ?cur + length (hd (labels cs))) # ?cur @ map tolower (hd (labels cs))) @
            concat (map encode_label (tl (labels cs))) @ [0] @ suf', Suc (length pre + length ?cur + length cs + 1))"
      "length suf' + length cs + 1 = length ys" by blast
    have "pack_loop (pre @ [x] @ cur @ suf) ((c # cs) @ [0]) (length pre) (Suc (length pre + length cur)) =
      Some (pre @ (of_nat (length cur + length (hd (labels (c # cs)))) # cur @ map tolower (hd (labels (c # cs)))) @
            concat (map encode_label (tl (labels (c # cs)))) @ [0] @ suf', Suc (length pre + length cur + length (c # cs) + 1))"
      by (rule trans [OF * [OF s(1)]]) (simp add: False)
    with s(2) show ?thesis by (auto simp: suf)
  qed
qed

lemma pack_udp_ok:
  assumes "0 \<notin> set host" "length host + 18 \<le> DNS_UDP_SIZE"
  shows "\<exists>rest. pack_udp qid (replicate DNS_UDP_SIZE 0) host = Some (query_bytes qid host @ rest, length host + 18) \<and>
    length (query_bytes qid host) = length host + 18 \<and> length rest + length host + 18 = DNS_UDP_SIZE"
proof -
  let ?h = "le16 qid @ [1, 0, 0, 1, 0, 0, 0, 0, 0, 0]"
  have h: "length ?h = 12" by simp
  define n where "n = DNS_UDP_SIZE - 13"
  have "replicate 12 (0::u8) = [0, 0, 0, 0, 0, 0, 0, 0, 0, 0, 0, 0]" by (simp add: numeral_eq_Suc)
  moreover have "replicate DNS_UDP_SIZE (0::u8) = replicate 12 0 @ replicate (Suc n) 0"
    unfolding replicate_add [symmetric] by (simp add: n_def DNS_UDP_SIZE_def)
  ultimately have z: "replicate DNS_UDP_SIZE (0::u8) = 0 # 0 # 0 # 0 # 0 # 0 # 0 # 0 # 0 # 0 # 0 # 0 # 0 # replicate n 0" by simp
  have l: "le16 (htons 0x0100) = [1, 0]" "le16 (htons 1) = [0, 1]" "le16 0 = [0, 0]" by code_simp+
  obtain i j where id: "le16 qid = [i, j]" by (simp add: le16_def)
  have start: "pack_udp qid (replicate DNS_UDP_SIZE 0) host =
      do { (pkt, p) \<leftarrow> pack_loop (?h @ [0] @ [] @ replicate n 0) (host @ [0]) (length ?h) (Suc (length ?h + length ([]::bytes)));
           pkt \<leftarrow> store pkt p [0]; pkt \<leftarrow> store pkt (p + 1) [1]; pkt \<leftarrow> store pkt (p + 2) [0];
           pkt \<leftarrow> store pkt (p + 3) [1]; Some (pkt, p + 4) }"
    unfolding pack_udp_def z l id by (simp add: store_def) (simp add: numeral_eq_Suc)
  have "length host < length (replicate n (0::u8))" using assms(2) by (simp add: n_def DNS_UDP_SIZE_def)
  from pack_loop_ok [OF assms(1) this, of ?h 0 "[]"] obtain suf where
    r: "pack_loop (?h @ [0] @ [] @ replicate n 0) (host @ [0]) (length ?h) (Suc (length ?h + length ([]::bytes))) =
      Some (?h @ (of_nat (length ([]::bytes) + length (hd (labels host))) # [] @ map tolower (hd (labels host))) @
            concat (map encode_label (tl (labels host))) @ [0] @ suf, Suc (length ?h + length ([]::bytes) + length host + 1))"
    and len: "length suf + length host + 1 = length (replicate n (0::u8))" by blast
  have e: "(of_nat (length ([]::bytes) + length (hd (labels host))) # [] @ map tolower (hd (labels host))) @
      concat (map encode_label (tl (labels host))) @ [0] @ suf = encode_name (labels host) @ suf"
    by (cases "labels host") (simp_all add: encode_name_def encode_label_def)
  have p: "Suc (length ?h + length ([]::bytes) + length host + 1) = length host + 14" by simp
  note s = r [unfolded e p] len [unfolded length_replicate]
  obtain a b c d rest where suf: "suf = a # b # c # d # rest"
    using s(2) assms(2) by (cases suf; cases "tl suf"; cases "tl (tl suf)"; cases "tl (tl (tl suf))") (auto simp: n_def DNS_UDP_SIZE_def)
  let ?q = "?h @ encode_name (labels host)"
  have q: "length ?q = length host + 14" by (simp add: length_encode)
  have st: "store (?h @ encode_name (labels host) @ a # b # c # d # rest) (length host + 14) [0] = Some (?q @ 0 # b # c # d # rest)"
    "store (?q @ 0 # b # c # d # rest) (length host + 14 + 1) [1] = Some (?q @ 0 # 1 # c # d # rest)"
    "store (?q @ 0 # 1 # c # d # rest) (length host + 14 + 2) [0] = Some (?q @ 0 # 1 # 0 # d # rest)"
    "store (?q @ 0 # 1 # 0 # d # rest) (length host + 14 + 3) [1] = Some (?q @ 0 # 1 # 0 # 1 # rest)"
    using store_at [of ?q _ "[a]" "[0]"] store_at [of "?q @ [0]" _ "[b]" "[1]"] store_at [of "?q @ [0, 1]" _ "[c]" "[0]"]
      store_at [of "?q @ [0, 1, 0]" _ "[d]" "[1]"] q by simp_all
  have "pack_udp qid (replicate DNS_UDP_SIZE 0) host = Some (query_bytes qid host @ rest, length host + 18)"
    unfolding start s(1) suf using st by (simp add: query_bytes_def)
  moreover have "length rest + length host + 18 = DNS_UDP_SIZE"
    using s(2) suf assms(2) by (simp add: n_def DNS_UDP_SIZE_def)
  ultimately show ?thesis using q by (auto simp: query_bytes_def)
qed

text \<open>Reading the name back gives the labels in lower case.\<close>

lemma decode_encode:
  "\<forall>l \<in> set ls. l \<noteq> [] \<and> length l \<le> 63 \<Longrightarrow> decode_name (Suc (length ls)) (encode_name ls @ r) = Some (map (map tolower) ls, r)"
proof (induction ls)
  case (Cons l ls)
  have u: "unat (of_nat (length l) :: u8) = length l" using Cons.prems by (simp add: unat_of_nat)
  then have "(of_nat (length l) :: u8) \<noteq> 0" "\<not> 63 < (of_nat (length l) :: u8)"
    using Cons.prems by (auto simp: word_less_nat_alt)
  with Cons u show ?case by (simp add: encode_name_def encode_label_def)
qed (simp add: encode_name_def)

lemma labels_join: "concat (map (\<lambda>l. 46 # l) (labels cs)) = 46 # cs"
proof (induction cs)
  case (Cons c cs)
  then show ?case by (cases "labels cs") auto
qed simp

section \<open>The answer reader stays inside its buffer\<close>

lemma rd_ok: "0 \<le> p \<Longrightarrow> p < int (length pkt) \<Longrightarrow> \<exists>b. rd pkt p = Some b"
  by (simp add: rd_def)

lemma u16_at_ok: "0 \<le> p + 2 * i \<Longrightarrow> p + 2 * i + 2 \<le> int (length pkt) \<Longrightarrow> \<exists>w. u16_at pkt p i = Some w"
  by (simp add: u16_at_def ld_def)

lemma skip_qname_ok:
  "0 \<le> p \<Longrightarrow> len \<le> int (length pkt) \<Longrightarrow> \<exists>q. skip_qname pkt len p = Some q \<and> p \<le> q"
proof (induction pkt len p rule: skip_qname.induct)
  case (1 pkt len p)
  show ?case
  proof (cases "p < len")
    case True
    then obtain b where b: "rd pkt p = Some b" using rd_ok [of p pkt] 1 by auto
    show ?thesis
    proof (cases "b = 0")
      case False
      have "\<exists>q. skip_qname pkt len (p + 1) = Some q \<and> p + 1 \<le> q"
        by (rule 1(1) [OF True b False]) (use 1 in simp_all)
      with True b False show ?thesis by (subst skip_qname.simps) auto
    qed (use True b in \<open>simp add: skip_qname.simps [of pkt len p]\<close>)
  qed (simp add: skip_qname.simps [of pkt len p])
qed

lemma skip_owner_ok:
  "0 \<le> p \<Longrightarrow> p + 12 \<le> len \<Longrightarrow> len \<le> int (length pkt) \<Longrightarrow>
    \<exists>q. skip_owner pkt len p = Some q \<and> p \<le> q \<and> q + 12 \<le> len"
proof (induction pkt len p rule: skip_owner.induct)
  case (1 pkt len p)
  obtain b where b: "rd pkt p = Some b" using rd_ok [of p pkt] 1 by auto
  show ?case
  proof (cases "b \<noteq> 0 \<and> p + 12 < len")
    case True
    have "\<exists>q. skip_owner pkt len (p + 1) = Some q \<and> p + 1 \<le> q \<and> q + 12 \<le> len"
      by (rule 1(1) [OF b True]) (use 1 True in simp_all)
    with True b show ?thesis by (subst skip_owner.simps) auto
  qed (use b 1 in \<open>auto simp: skip_owner.simps [of pkt len p]\<close>)
qed

lemma record_start_ok:
  assumes "0 \<le> p" "p + 12 \<le> len" "len \<le> int (length pkt)"
  shows "\<exists>q. record_start pkt len p = Some q \<and> p - 1 \<le> q \<and> q + 12 \<le> len"
proof -
  obtain b where b: "rd pkt p = Some b" using rd_ok [of p pkt] assms by auto
  obtain q where "skip_owner pkt len p = Some q" "p \<le> q" "q + 12 \<le> len" using skip_owner_ok [OF assms] by blast
  with b assms show ?thesis by (auto simp: record_start_def)
qed

lemma find_answer_ok:
  "1 \<le> p \<Longrightarrow> len \<le> int (length pkt) \<Longrightarrow> \<exists>found q. find_answer pkt len p = Some (found, q) \<and> 0 \<le> q"
proof (induction pkt len p rule: find_answer.induct)
  case (1 pkt len p)
  show ?case
  proof (cases "p + 12 < len")
    case True
    then obtain q where q: "record_start pkt len p = Some q" "p - 1 \<le> q" "q + 12 \<le> len"
      using record_start_ok [of p len pkt] 1 by auto
    obtain type where type: "u16_at pkt q 1 = Some type" using u16_at_ok [of q 1 pkt] 1 q by auto
    obtain dlen where dlen: "u16_at pkt q 5 = Some dlen" using u16_at_ok [of q 5 pkt] 1 q by auto
    show ?thesis
    proof (cases "type = 5")
      case t: True
      have "0 \<le> uint dlen" by (rule uint_ge_0)
      then have "1 \<le> q + 12 + uint dlen" using q(2) 1(2) by linarith
      from 1(1) [OF True q(1) type t dlen this 1(3)]
      show ?thesis using True q(1) type t dlen by (subst find_answer.simps) auto
    qed (use True q type 1 in \<open>auto simp: find_answer.simps [of pkt len p]\<close>)
  qed (intro exI [of _ False] exI [of _ p], use 1 in \<open>simp add: find_answer.simps [of pkt len p]\<close>)
qed

lemma read_address_ok:
  assumes "0 \<le> p" "p + 16 \<le> int (length pkt)"
  shows "\<exists>r. read_address pkt p = Some r"
proof -
  obtain dlen where "u16_at pkt p 5 = Some dlen" using u16_at_ok [of p 5 pkt] assms by auto
  moreover obtain a b c d where "rd pkt (p + 12) = Some a" "rd pkt (p + 13) = Some b" "rd pkt (p + 14) = Some c" "rd pkt (p + 15) = Some d"
    using rd_ok [of "p + 12" pkt] rd_ok [of "p + 13" pkt] rd_ok [of "p + 14" pkt] rd_ok [of "p + 15" pkt] assms by auto
  ultimately show ?thesis by (simp add: read_address_def)
qed

lemma question_ok_ok: "0 \<le> p \<Longrightarrow> len \<le> int (length pkt) \<Longrightarrow> \<exists>ok. question_ok pkt len p = Some ok"
  using rd_ok [of "p + 1" pkt] rd_ok [of "p + 2" pkt] by (auto simp: question_ok_def)

lemma parse_answer_ok:
  assumes "8 \<le> length pkt" "len + 3 \<le> int (length pkt)"
  shows "\<exists>r. parse_answer pkt len = Some r"
proof -
  obtain n :: u16 where n: "ld 2 pkt 6 = Some n" using assms(1) by (simp add: ld_def)
  have len: "len \<le> int (length pkt)" using assms(2) by simp
  obtain p where p: "skip_qname pkt len 12 = Some p" "12 \<le> p" using skip_qname_ok [OF _ len, of 12] by auto
  obtain ok where ok: "question_ok pkt len p = Some ok" using question_ok_ok [OF _ len, of p] p by auto
  obtain found q where q: "find_answer pkt len (p + 5) = Some (found, q)" "0 \<le> q"
    using find_answer_ok [OF _ len, of "p + 5"] p by auto
  show ?thesis
  proof (cases "found \<and> q + 12 < len")
    case True
    then obtain r where "read_address pkt q = Some r" using read_address_ok [of q pkt] q assms(2) by auto
    with n p ok q True show ?thesis by (simp add: parse_answer_def)
  next
    case False
    with n p ok q show ?thesis by (auto simp: parse_answer_def)
  qed
qed

section \<open>The answer reader finds the address\<close>

text \<open>
  A record whose owner is a pointer into the packet: the pointer's second byte, the class and time
  to live, and the data.
\<close>

type_synonym rr = "u8 \<times> bytes \<times> bytes"

fun record_bytes :: "u16 \<Rightarrow> rr \<Rightarrow> bytes" where
  "record_bytes type (off, fixed, rdata) = [0xC0, off] @ be16 type @ fixed @ be16 (of_nat (length rdata)) @ rdata"

fun wf_rr :: "rr \<Rightarrow> bool" where
  "wf_rr (off, fixed, rdata) \<longleftrightarrow> length fixed = 6 \<and> length rdata < 65536"

definition question_bytes :: "bytes \<Rightarrow> bytes" where
  "question_bytes name = name @ [0, 0, 1, 0, 1]"

lemma htons_le_word: "htons (le_word [a, b]) = le_word [b, a]"
proof -
  have "ucast (drop_bit 8 (le_word [a, b] :: u16)) = b" "ucast (le_word [a, b] :: u16) = a"
    by (rule bit_word_eqI; auto simp: le_word_def bit_simps dest: bit_imp_le_length)+
  then show ?thesis by (simp add: htons_def be16_def)
qed

lemma le_word_be16: "be16 w = [b, a] \<Longrightarrow> le_word [a, b] = w"
  by (rule bit_word_eqI) (auto simp: be16_def le_word_def bit_simps)

lemma htonl_bytes:
  "htonl (push_bit 24 (ucast a) OR push_bit 16 (ucast b) OR push_bit 8 (ucast c) OR ucast d) = le_word [a, b, c, d]"
  (is "htonl ?w = _")
proof -
  have "ucast (drop_bit 24 ?w) = a" "ucast (drop_bit 16 ?w) = b" "ucast (drop_bit 8 ?w) = c" "ucast ?w = d"
    by (rule bit_word_eqI; auto simp: bit_simps dest: bit_imp_le_length)+
  then show ?thesis by (simp add: htonl_def be32_def)
qed

lemma rd_at: "rd (pre @ x # r) (int (length pre)) = Some x"
  by (simp add: rd_def)

lemma u16_at_be: "2 * i = length mid \<Longrightarrow> u16_at (pre @ mid @ be16 w @ r) (int (length pre)) (int i) = Some w"
proof -
  assume i: "2 * i = length mid"
  obtain a b where w: "be16 w = [b, a]" by (simp add: be16_def)
  have "ld 2 (pre @ mid @ be16 w @ r) (int (length pre + 2 * i)) = Some (le_word (take 2 (drop (length pre + 2 * i) (pre @ mid @ be16 w @ r))) :: u16)"
    by (rule ld_Some) (use i w in simp)
  also have "take 2 (drop (length pre + 2 * i) (pre @ mid @ be16 w @ r)) = [b, a]" using i w by simp
  finally have l: "ld 2 (pre @ mid @ be16 w @ r) (int (length pre + 2 * i)) = Some (le_word [b, a] :: u16)" .
  have e: "int (length pre) + 2 * int i = int (length pre + 2 * i)" by simp
  show ?thesis unfolding u16_at_def e l by (simp add: htons_le_word le_word_be16 [OF w])
qed

lemma length_be16 [simp]: "length (be16 w) = 2"
  by (simp add: be16_def)

lemma skip_qname_run:
  "0 \<notin> set name \<Longrightarrow> int (length pre + length name) < len \<Longrightarrow>
    skip_qname (pre @ name @ 0 # r) len (int (length pre)) = Some (int (length pre + length name))"
proof (induction name arbitrary: pre)
  case Nil
  then show ?case using rd_at [of pre 0 r] by (simp add: skip_qname.simps)
next
  case (Cons c cs)
  have "rd (pre @ (c # cs) @ 0 # r) (int (length pre)) = Some c" using rd_at [of pre c] by simp
  moreover have "skip_qname ((pre @ [c]) @ cs @ 0 # r) len (int (length (pre @ [c]))) = Some (int (length (pre @ [c]) + length cs))"
    by (rule Cons.IH) (use Cons.prems in auto)
  ultimately show ?case using Cons.prems by (subst skip_qname.simps) (auto simp: add.commute)
qed

lemma record_fields:
  assumes "wf_rr (off, fixed, rdata)"
  shows "record_start (pre @ record_bytes type (off, fixed, rdata) @ r) len (int (length pre)) = Some (int (length pre))"
    and "u16_at (pre @ record_bytes type (off, fixed, rdata) @ r) (int (length pre)) 1 = Some type"
    and "u16_at (pre @ record_bytes type (off, fixed, rdata) @ r) (int (length pre)) 5 = Some (of_nat (length rdata))"
proof -
  show "record_start (pre @ record_bytes type (off, fixed, rdata) @ r) len (int (length pre)) = Some (int (length pre))"
    using rd_at [of pre "0xC0"] by (simp add: record_start_def)
  show "u16_at (pre @ record_bytes type (off, fixed, rdata) @ r) (int (length pre)) 1 = Some type"
    using u16_at_be [of 1 "[0xC0, off]" pre type "fixed @ be16 (of_nat (length rdata)) @ rdata @ r"] by simp
  have "2 * 5 = length ([0xC0, off] @ be16 type @ fixed)" using assms by simp
  from u16_at_be [OF this, of pre "of_nat (length rdata)" "rdata @ r"]
  show "u16_at (pre @ record_bytes type (off, fixed, rdata) @ r) (int (length pre)) 5 = Some (of_nat (length rdata))"
    by simp
qed

lemma find_answer_chain:
  assumes "\<forall>c \<in> set cnames. wf_rr c" "wf_rr a"
    and "int (length pre + length (concat (map (record_bytes 5) cnames)) + 12) < len"
  shows "find_answer (pre @ concat (map (record_bytes 5) cnames) @ record_bytes 1 a @ r) len (int (length pre)) =
    Some (True, int (length pre + length (concat (map (record_bytes 5) cnames))))"
  using assms
proof (induction cnames arbitrary: pre)
  case Nil
  obtain off fixed rdata where a: "a = (off, fixed, rdata)" by (cases a) auto
  show ?case using Nil.prems record_fields [OF Nil.prems(2) [unfolded a], where pre = pre and type = 1 and r = r]
    by (subst find_answer.simps) (simp add: a)
next
  case (Cons c cs)
  obtain off fixed rdata where c: "c = (off, fixed, rdata)" by (cases c) auto
  have wf: "wf_rr (off, fixed, rdata)" using Cons.prems(1) c by simp
  let ?rest = "concat (map (record_bytes 5) cs) @ record_bytes 1 a @ r"
  let ?pkt = "pre @ record_bytes 5 c @ ?rest"
  note f = record_fields [OF wf, where pre = pre and type = 5 and r = ?rest, folded c]
  have u: "uint (of_nat (length rdata) :: u16) = int (length rdata)"
    using wf by (simp add: uint_nat unat_of_nat)
  have l: "length (record_bytes 5 c) = 12 + length rdata" using wf by (simp add: c)
  have "find_answer ((pre @ record_bytes 5 c) @ ?rest) len (int (length (pre @ record_bytes 5 c))) =
      Some (True, int (length (pre @ record_bytes 5 c) + length (concat (map (record_bytes 5) cs))))"
    by (rule Cons.IH) (use Cons.prems in \<open>auto simp: l\<close>)
  then have "find_answer ?pkt len (int (length pre) + 12 + int (length rdata)) =
      Some (True, int (length pre + length (concat (map (record_bytes 5) (c # cs)))))"
    by (simp add: l ac_simps)
  moreover have "int (length pre) + 12 < len" using Cons.prems(3) by simp
  ultimately have "find_answer ?pkt len (int (length pre)) = Some (True, int (length pre + length (concat (map (record_bytes 5) (c # cs)))))"
    using f by (subst find_answer.simps) (simp add: u)
  then show ?case by simp
qed

text \<open>The header of an answer, and a whole answer up to the address record.\<close>

definition reply_header :: "u16 \<Rightarrow> u16 \<Rightarrow> u16 \<Rightarrow> u16 \<Rightarrow> u16 \<Rightarrow> bytes" where
  "reply_header qid flags ancount nscount arcount =
     le16 qid @ be16 flags @ [0, 1] @ be16 ancount @ be16 nscount @ be16 arcount"

definition reply_prefix :: "u16 \<Rightarrow> u16 \<Rightarrow> u16 \<Rightarrow> u16 \<Rightarrow> u16 \<Rightarrow> bytes \<Rightarrow> rr list \<Rightarrow> bytes" where
  "reply_prefix qid flags ancount nscount arcount name cnames =
     reply_header qid flags ancount nscount arcount @ question_bytes name @ concat (map (record_bytes 5) cnames)"

lemma length_reply_header: "length (reply_header qid flags an ns ar) = 12"
  by (simp add: reply_header_def)

lemma htons_htons: "htons (htons w) = w"
  unfolding htons_def [of w] be16_def htons_le_word by (rule le_word_be16) (simp add: be16_def)

lemma ld16_at: "length pre = i \<Longrightarrow> length bs = 2 \<Longrightarrow> ld 2 (pre @ bs @ r) (int i) = Some (le_word bs :: u16)"
  using ld_Some [of i 2 "pre @ bs @ r"] by simp

lemma reply_fields:
  "ld 2 (reply_header qid flags an ns ar @ r) 0 = Some qid"
  "ld 2 (reply_header qid flags an ns ar @ r) 4 = Some (htons 1)"
  "ld 2 (reply_header qid flags an ns ar @ r) 6 = Some (htons an)"
proof -
  have "le_word (le16 qid) = qid" unfolding le16_def by (rule le_word_be16) (simp add: be16_def)
  then show "ld 2 (reply_header qid flags an ns ar @ r) 0 = Some qid"
    using ld16_at [of "[]" 0 "le16 qid"] by (simp add: reply_header_def)
  have "(le_word [0, 1] :: u16) = htons 1" by code_simp
  then show "ld 2 (reply_header qid flags an ns ar @ r) 4 = Some (htons 1)"
    using ld16_at [of "le16 qid @ be16 flags" 4 "[0, 1]"] by (simp add: reply_header_def)
  show "ld 2 (reply_header qid flags an ns ar @ r) 6 = Some (htons an)"
    using ld16_at [of "le16 qid @ be16 flags @ [0, 1]" 6 "be16 an"] by (simp add: reply_header_def htons_def)
qed

lemma question_ok_at: "int (length pre) + 5 \<le> len \<Longrightarrow> question_ok (pre @ [0, 0, 1, 0, 1] @ r) len (int (length pre)) = Some True"
  using rd_at [of "pre @ [0]" 0 "[1, 0, 1] @ r"] rd_at [of "pre @ [0, 0]" 1 "[0, 1] @ r"]
  by (simp add: question_ok_def add.commute)

lemma read_address_at:
  assumes "length fixed = 6"
  shows "read_address (pre @ record_bytes 1 (off, fixed, [a, b, c, d]) @ r) (int (length pre)) = Some (Address (le_word [a, b, c, d]))"
proof -
  let ?pre = "pre @ [0xC0, off] @ be16 1 @ fixed @ be16 4"
  have l: "int (length ?pre) = int (length pre) + 12" using assms by simp
  have rd: "rd (?pre @ x @ [y] @ z) (int (length pre) + 12 + int (length x)) = Some y" for x y z
    using rd_at [of "?pre @ x" y z] assms by (simp add: ac_simps)
  have "u16_at (pre @ record_bytes 1 (off, fixed, [a, b, c, d]) @ r) (int (length pre)) 5 = Some 4"
    using record_fields(3) [of off fixed "[a, b, c, d]" pre 1 r] assms by simp
  then show ?thesis
    using rd [of "[]" a "b # c # d # r"] rd [of "[a]" b "c # d # r"] rd [of "[a, b]" c "d # r"] rd [of "[a, b, c]" d r] assms
    by (simp add: read_address_def htonl_bytes add.commute)
qed

lemma parse_answer_found:
  assumes "an \<noteq> 0" "0 \<notin> set name" "\<forall>c \<in> set cnames. wf_rr c" "length fixed = 6"
    and "int (length (reply_prefix qid flags an ns ar name cnames)) + 12 < len"
  shows "parse_answer (reply_prefix qid flags an ns ar name cnames @ record_bytes 1 (off, fixed, [a, b, c, d]) @ r) len =
    Some (Address (le_word [a, b, c, d]))"
proof -
  define z :: rr where "z = (off, fixed, [a, b, c, d])"
  have wf: "wf_rr z" using assms(4) by (simp add: z_def)
  let ?h = "reply_header qid flags an ns ar" and ?cs = "concat (map (record_bytes 5) cnames)"
  let ?r = "?cs @ record_bytes 1 z @ r"
  let ?pkt = "?h @ name @ [0, 0, 1, 0, 1] @ ?r"
  have pkt: "reply_prefix qid flags an ns ar name cnames @ record_bytes 1 z @ r = ?pkt"
    by (simp add: reply_prefix_def question_bytes_def)
  have len: "int (12 + length name + 5 + length ?cs) + 12 < len"
    using assms(5) by (simp add: reply_prefix_def question_bytes_def length_reply_header)
  have "htons an \<noteq> 0"
  proof
    assume "htons an = 0"
    then have "an = htons 0" using htons_htons [of an] by simp
    also have "htons 0 = 0" by code_simp
    finally show False using assms(1) by simp
  qed
  moreover have "skip_qname ?pkt len 12 = Some (int (12 + length name))"
    using skip_qname_run [OF assms(2), of ?h len "[0, 1, 0, 1] @ ?r"] len by (simp add: length_reply_header)
  moreover have "question_ok ?pkt len (int (12 + length name)) = Some True"
    using question_ok_at [of "?h @ name" len ?r] len by (simp add: length_reply_header)
  moreover have "find_answer ?pkt len (int (12 + length name) + 5) = Some (True, int (12 + length name + 5 + length ?cs))"
    using find_answer_chain [OF assms(3) wf, of "?h @ name @ [0, 0, 1, 0, 1]" len r] len
    by (simp add: length_reply_header ac_simps)
  moreover have "read_address ?pkt (int (12 + length name + 5 + length ?cs)) = Some (Address (le_word [a, b, c, d]))"
    using read_address_at [OF assms(4), of "?h @ name @ [0, 0, 1, 0, 1] @ ?cs" off a b c d r]
    by (simp add: length_reply_header z_def ac_simps)
  ultimately have "parse_answer ?pkt len = Some (Address (le_word [a, b, c, d]))"
    using len reply_fields(3) by (simp add: parse_answer_def)
  then show ?thesis using pkt by (simp add: z_def)
qed

section \<open>Splitting a URL\<close>

text \<open>
  What \<open>http_parser_parse_url\<close> answers: no result for an invalid URL, otherwise the offset and
  length of each of the fields schema, host and path that is set.
\<close>

type_synonym url_field = "(nat \<times> nat) option"
type_synonym url_parser = "bytes \<Rightarrow> (url_field \<times> url_field \<times> url_field) option"

text \<open>
  The three local buffers of 1024 zero bytes, read back as strings: \<open>strncpy\<close> of a field and
  \<open>strcpy\<close> of the rest of the string. A string that leaves no room for its terminator is undefined.
\<close>

definition field_copy :: "bytes \<Rightarrow> nat \<times> nat \<Rightarrow> bytes option" where
  "field_copy str f =
     (case f of (off, len) \<Rightarrow>
        if off \<le> length str \<and> len < 1024 then Some (take len (drop off str)) else None)"

definition rest_copy :: "bytes \<Rightarrow> nat \<times> nat \<Rightarrow> bytes option" where
  "rest_copy str f =
     (case f of (off, len) \<Rightarrow>
        if off \<le> length str \<and> length (drop off str) < 1024 then Some (drop off str) else None)"

text \<open>The three strings one behind the other in the 1024 bytes of \<open>url->buf\<close>.\<close>

definition url_buf :: "bytes \<Rightarrow> bytes \<Rightarrow> bytes \<Rightarrow> bytes option" where
  "url_buf schema host path =
     do { b \<leftarrow> store (replicate 1024 0) 0 (schema @ [0]);
          b \<leftarrow> store b (length schema + 1) (host @ [0]);
          store b (length schema + 1 + length host + 1) (path @ [0]) }"

text \<open>
  \<open>create_http_url\<close> with the outcomes of its allocations; the second is not checked by the code, so
  that its failure is undefined.
\<close>

definition create_http_url :: "url_parser \<Rightarrow> bytes \<Rightarrow> mem \<Rightarrow> (http_url_s option \<times> mem) option" where
  "create_http_url http_parser_parse_url str_url m =
     (case http_parser_parse_url str_url of
        None \<Rightarrow> Some (None, m)
      | Some (uf_schema, uf_host, uf_path) \<Rightarrow>
          (case uf_host of
             None \<Rightarrow> Some (None, m)
           | Some h \<Rightarrow>
               do { host \<leftarrow> field_copy str_url h;
                    schema \<leftarrow> (case uf_schema of Some s \<Rightarrow> field_copy str_url s | None \<Rightarrow> Some (cstr ''http''));
                    path \<leftarrow> (case uf_path of Some p \<Rightarrow> rest_copy str_url p | None \<Rightarrow> Some (cstr ''/''));
                    (ok, m) \<leftarrow> Some (calloc_ok m);
                    if \<not> ok then Some (None, m)
                    else do {
                      (ok, m) \<leftarrow> Some (calloc_ok m);
                      if \<not> ok then None
                      else do {
                        b \<leftarrow> url_buf schema host path;
                        Some (Some \<lparr>u_schema = schema, u_host = host, u_port = (if schema \<noteq> cstr ''https'' then 80 else 443),
                          u_path = path\<rparr>, m) } } }))"

lemma url_buf_ok:
  "length schema + length host + length path + 3 \<le> 1024 \<Longrightarrow>
    url_buf schema host path =
      Some (schema @ [0] @ host @ [0] @ path @ [0] @ replicate (1024 - (length schema + length host + length path + 3)) 0)"
proof -
  assume le: "length schema + length host + length path + 3 \<le> 1024"
  let ?n = "1024 - (length schema + length host + length path + 3)"
  define A where "A = replicate (length schema + 1) (0::u8)"
  define B where "B = replicate (length host + 1) (0::u8)"
  define C where "C = replicate (length path + 1) (0::u8)"
  have z: "replicate 1024 (0::u8) = A @ B @ C @ replicate ?n 0"
    unfolding A_def B_def C_def replicate_add [symmetric] using le by simp
  have len: "length A = length (schema @ [0::u8])" "length B = length (host @ [0::u8])" "length C = length (path @ [0::u8])"
    by (simp_all add: A_def B_def C_def)
  have 1: "store (A @ B @ C @ replicate ?n 0) 0 (schema @ [0]) = Some ((schema @ [0]) @ B @ C @ replicate ?n 0)"
    using store_at [of "[]" 0 A "schema @ [0]" "B @ C @ replicate ?n 0"] len by simp
  have 2: "store ((schema @ [0]) @ B @ C @ replicate ?n 0) (length schema + 1) (host @ [0]) =
      Some ((schema @ [0]) @ (host @ [0]) @ C @ replicate ?n 0)"
    by (rule store_at) (use len in simp_all)
  have 3: "store (((schema @ [0]) @ host @ [0]) @ C @ replicate ?n 0) (length schema + 1 + length host + 1) (path @ [0]) =
      Some (((schema @ [0]) @ host @ [0]) @ (path @ [0]) @ replicate ?n 0)"
    by (rule store_at) (use len in simp_all)
  show ?thesis using 1 2 3 by (simp add: url_buf_def z)
qed

lemma create_http_url_ok:
  assumes "str = schema @ cstr ''://'' @ host @ path" "length schema + length host + length path + 3 \<le> 1024"
    and "parse str = Some (Some (0, length schema), Some (length schema + 3, length host), Some (length schema + 3 + length host, n))"
  shows "create_http_url parse str [] = Some (Some \<lparr>u_schema = schema, u_host = host,
      u_port = (if schema = cstr ''https'' then 443 else 80), u_path = path\<rparr>, [])"
proof -
  have l: "length (cstr ''://'') = 3" by (simp add: cstr_def)
  have f: "field_copy str (length schema + 3, length host) = Some host" "field_copy str (0, length schema) = Some schema"
    "rest_copy str (length schema + 3 + length host, n) = Some path"
    using assms(2) by (simp_all add: field_copy_def rest_copy_def assms(1) l)
  show ?thesis using f url_buf_ok [OF assms(2)] by (simp add: create_http_url_def assms(3) calloc_ok_def)
qed

lemma create_http_url_default:
  assumes "str = schema @ cstr ''://'' @ host" "length schema + length host + 4 \<le> 1024"
    and "parse str = Some (Some (0, length schema), Some (length schema + 3, length host), None)"
  shows "create_http_url parse str [] = Some (Some \<lparr>u_schema = schema, u_host = host,
      u_port = (if schema = cstr ''https'' then 443 else 80), u_path = cstr ''/''\<rparr>, [])"
proof -
  have l: "length (cstr ''://'') = 3" by (simp add: cstr_def)
  have f: "field_copy str (length schema + 3, length host) = Some host" "field_copy str (0, length schema) = Some schema"
    using assms(2) by (simp_all add: field_copy_def assms(1) l)
  have "length schema + length host + length (cstr ''/'') + 3 \<le> 1024" using assms(2) by (simp add: cstr_def)
  from url_buf_ok [OF this] f show ?thesis by (simp add: create_http_url_def assms(3) calloc_ok_def)
qed

section \<open>Properties\<close>

text \<open>
  C29: the query packed for a host name that fits is the reference encoding of its labels behind the
  header with the query's number; read back as a resolver does, the question names the host's labels
  in lower case and asks for an address.
\<close>

theorem pack_udp_roundtrip:
  assumes "0 \<notin> set host" "length host + 18 \<le> DNS_UDP_SIZE"
  shows "\<exists>pkt. pack_udp qid (replicate DNS_UDP_SIZE 0) host = Some (pkt, length host + 18) \<and> length pkt = DNS_UDP_SIZE \<and>
    take (length host + 18) pkt = query_bytes qid host \<and> ld 2 pkt 0 = Some qid \<and>
    ((\<forall>l \<in> set (labels host). l \<noteq> [] \<and> length l \<le> 63) \<longrightarrow>
       decode_name (Suc (length (labels host))) (drop 12 (query_bytes qid host)) =
         Some (map (map tolower) (labels host), [0, 1, 0, 1]))"
proof -
  obtain rest where r: "pack_udp qid (replicate DNS_UDP_SIZE 0) host = Some (query_bytes qid host @ rest, length host + 18)"
    "length (query_bytes qid host) = length host + 18" "length rest + length host + 18 = DNS_UDP_SIZE"
    using pack_udp_ok [OF assms] by blast
  have d: "drop 12 (query_bytes qid host) = encode_name (labels host) @ [0, 1, 0, 1]"
    by (simp add: query_bytes_def)
  have q: "le_word (le16 qid) = qid" unfolding le16_def by (rule le_word_be16) (simp add: be16_def)
  have "ld 2 (query_bytes qid host @ rest) 0 = Some qid"
    using ld16_at [of "[]" 0 "le16 qid" "drop 2 (query_bytes qid host) @ rest"] by (simp add: query_bytes_def q)
  then show ?thesis using r d decode_encode [of "labels host" "[0, 1, 0, 1]"] by auto
qed

theorem pack_udp_roundtrip_witness:
  "\<exists>pkt. pack_udp 7 (replicate DNS_UDP_SIZE 0) (cstr ''Ab.c'') = Some (pkt, 22) \<and>
    take 22 pkt = [7, 0, 1, 0, 0, 1, 0, 0, 0, 0, 0, 0, 2, 97, 98, 1, 99, 0, 0, 1, 0, 1]"
proof -
  have h: "0 \<notin> set (cstr ''Ab.c'')" "length (cstr ''Ab.c'') + 18 \<le> DNS_UDP_SIZE"
    by (simp_all add: cstr_def of_char_def DNS_UDP_SIZE_def)
  have q: "query_bytes 7 (cstr ''Ab.c'') = [7, 0, 1, 0, 0, 1, 0, 0, 0, 0, 0, 0, 2, 97, 98, 1, 99, 0, 0, 1, 0, 1]"
    by code_simp
  have l: "length (cstr ''Ab.c'') + 18 = 22" by (simp add: cstr_def)
  from pack_udp_roundtrip [OF h, of 7] show ?thesis unfolding q l by blast
qed

text \<open>
  C18: whatever a packet holds, reading it stays inside the receive buffer and ends, if the buffer has
  three bytes more than were received.
\<close>

theorem parse_answer_in_bounds:
  assumes "int sizeof_dns_header \<le> len" "len + 3 \<le> int (length pkt)"
  shows "\<exists>r. parse_answer pkt len = Some r"
  by (rule parse_answer_ok) (use assms in \<open>simp_all add: sizeof_dns_header_def\<close>)

theorem parse_answer_in_bounds_witness:
  "\<exists>r. parse_answer (replicate 30 0xC0) 20 = Some r"
  by (rule parse_answer_in_bounds) (simp_all add: sizeof_dns_header_def)

text \<open>
  In an answer whose records have compressed owner names, the address behind any chain of aliases
  is found and returned in network order, whatever follows it.
\<close>

theorem parse_answer_finds_address:
  assumes "an \<noteq> 0" "0 \<notin> set name" "\<forall>c \<in> set cnames. wf_rr c" "length fixed = 6"
    and "pkt = reply_prefix qid flags an ns ar name cnames @ record_bytes 1 (off, fixed, [a, b, c, d])"
    and "int (length pkt) \<le> len"
  shows "parse_answer (pkt @ r) len = Some (Address (le_word [a, b, c, d]))"
proof -
  have "int (length (reply_prefix qid flags an ns ar name cnames)) + 12 < len" using assms(4-6) by simp
  from parse_answer_found [OF assms(1-4) this] show ?thesis by (simp add: assms(5))
qed

theorem parse_answer_finds_address_witness:
  "parse_answer (reply_prefix 7 0x8180 2 0 0 [1, 97] [(12, [0, 1, 0, 0, 0, 60], [1, 98, 0xC0, 12])] @
      record_bytes 1 (12, [0, 1, 0, 0, 0, 60], [10, 0, 0, 1])) 60 = Some (Address 0x0100000A)"
proof -
  have "(le_word [10, 0, 0, 1] :: u32) = 0x0100000A" by code_simp
  then show ?thesis
    using parse_answer_finds_address [where an = 2 and name = "[1, 97]" and cnames = "[(12, [0, 1, 0, 0, 0, 60], [1, 98, 0xC0, 12])]"
      and fixed = "[0, 1, 0, 0, 0, 60]" and qid = 7 and flags = "0x8180" and ns = 0 and ar = 0 and off = 12 and a = 10 and b = 0
      and c = 0 and d = 1 and len = 60 and r = "[]", OF _ _ _ _ refl]
    by (simp add: reply_prefix_def question_bytes_def length_reply_header)
qed

text \<open>
  A URL whose parts fit the 1024 bytes is cut into its schema, host and the whole rest of the
  string (the query included), which put together are the URL again; the port follows from the schema.
\<close>

theorem create_http_url_splits:
  assumes "str = schema @ cstr ''://'' @ host @ path" "length schema + length host + length path + 3 \<le> 1024"
    and "parse str = Some (Some (0, length schema), Some (length schema + 3, length host), Some (length schema + 3 + length host, n))"
  shows "\<exists>url. create_http_url parse str [] = Some (Some url, []) \<and> u_schema url @ cstr ''://'' @ u_host url @ u_path url = str \<and>
    u_host url = host \<and> u_port url = (if schema = cstr ''https'' then 443 else 80)"
  using create_http_url_ok [where parse = parse, OF assms] assms(1) by simp

definition ex_parse_url :: url_parser where
  "ex_parse_url s =
     (let schema = takeWhile (\<lambda>c. c \<noteq> 58) s; r = drop (length schema + 3) s; host = takeWhile (\<lambda>c. c \<noteq> 47) r;
          path = takeWhile (\<lambda>c. c \<noteq> 63) (drop (length host) r)
      in if take 3 (drop (length schema) s) \<noteq> cstr ''://'' \<or> host = [] then None
         else Some (Some (0, length schema), Some (length schema + 3, length host),
                    if path = [] then None else Some (length schema + 3 + length host, length path)))"

theorem create_http_url_splits_witness:
  "\<exists>url. create_http_url ex_parse_url (cstr ''https://a.b/c?d=1'') [] = Some (Some url, []) \<and> u_port url = 443"
proof -
  have e: "cstr ''https://a.b/c?d=1'' = cstr ''https'' @ cstr ''://'' @ cstr ''a.b'' @ cstr ''/c?d=1''"
    "length (cstr ''https'') + length (cstr ''a.b'') + length (cstr ''/c?d=1'') + 3 \<le> 1024"
    by (simp_all add: cstr_def)
  have "ex_parse_url (cstr ''https://a.b/c?d=1'') = Some (Some (0, length (cstr ''https'')), Some (length (cstr ''https'') + 3, length (cstr ''a.b'')),
      Some (length (cstr ''https'') + 3 + length (cstr ''a.b''), 2))"
    by code_simp
  from create_http_url_splits [where parse = ex_parse_url, OF e this] show ?thesis by auto
qed

section \<open>Limits of the code\<close>

text \<open>
  A host name of 4079 characters or more does not fit the query's packet, although \<open>dns_query\<close>
  accepts names of up to 4081.
\<close>

lemma store_length: "store xs i bs = Some ys \<Longrightarrow> length ys = length xs"
  by (auto simp: store_def split: if_splits)

lemma pack_loop_length: "pack_loop pkt cs chunk p = Some (pkt', p') \<Longrightarrow> length pkt' = length pkt \<and> p' = p + length cs"
proof (induction cs arbitrary: pkt chunk p)
  case (Cons c cs)
  obtain pkt1 chunk1 where "pack_loop pkt1 cs chunk1 (Suc p) = Some (pkt', p')" "length pkt1 = length pkt"
    using Cons.prems by (auto simp: bind_eq_Some_conv split: if_splits dest!: store_length)
  with Cons.IH [of pkt1 chunk1 "Suc p"] show ?case by simp
qed simp

theorem pack_udp_overflow:
  assumes "DNS_UDP_SIZE < length host + 18"
  shows "pack_udp qid (replicate DNS_UDP_SIZE 0) host = None"
proof (rule ccontr)
  assume "pack_udp qid (replicate DNS_UDP_SIZE 0) host \<noteq> None"
  then obtain pkt p pkt' where "pack_loop pkt (host @ [0]) 12 13 = Some (pkt', p)" "length pkt = DNS_UDP_SIZE"
    "p + 3 < length pkt'"
    by (auto simp: pack_udp_def bind_eq_Some_conv store_def split: if_splits)
  with pack_loop_length [OF this(1)] assms show False by simp
qed

text \<open>
  An address record cut off by the end of the packet is accepted: up to three of its bytes are what
  the buffer held before.
\<close>

theorem short_address_accepted:
  "parse_answer (reply_prefix 7 0x8180 1 0 0 [1, 97] [] @ record_bytes 1 (12, [0, 1, 0, 0, 0, 60], [10, x, y, z]))
     (int (length (reply_prefix 7 0x8180 1 0 0 [1, 97] [])) + 13) = Some (Address (le_word [10, x, y, z]))"
  using parse_answer_found [where r = "[]" and an = 1 and cnames = "[]" and name = "[1, 97]" and fixed = "[0, 1, 0, 0, 0, 60]" and off = 12
      and qid = 7 and flags = "0x8180" and ns = 0 and ar = 0 and a = 10 and b = x and c = y and d = z
      and len = "int (length (reply_prefix 7 0x8180 1 0 0 [1, 97] [])) + 13"] by simp

text \<open>An owner name of a label and a pointer is not skipped: the answer counts as having no address.\<close>

theorem label_pointer_owner_lost:
  "parse_answer (reply_header 7 0x8180 1 0 0 @ question_bytes [1, 97, 1, 98] @
     [1, 97, 0xC0, 14] @ be16 1 @ [0, 1, 0, 0, 0, 60] @ be16 4 @ [10, 0, 0, 1]) 43 = Some NoAddress"
  by code_simp

end
