(* ===== verification/Http_Html.thy ===== *)
theory Http_Html
  imports Http_Head
begin

text \<open>
  The response body: \<open>http_parse_html\<close> and \<open>http_process_response\<close> of \<^verbatim>\<open>src/http_client.c\<close>. The
  chunk length is a 32-bit accumulator local to one call; chunks are recorded as ranges of the
  receive buffer and copied together when the final chunk is met. zlib is the parameter pair
  \<open>inflateInit2\<close> and \<open>inflate\<close>.

  A body of chunks that has been received is proved to be decoded to the concatenation of its
  chunks, and a body with a content length to be taken exactly when it is complete. Two theorems
  show where the code goes wrong: a chunk length that arrives in two reads is misread, and a chunk
  length near 2^32 makes the copy run outside its buffers.
\<close>

section \<open>Chunks\<close>

definition hex_digit :: "u8 \<Rightarrow> u32" where
  "hex_digit c =
     (if 48 \<le> c \<and> c \<le> 57 then ucast c - 48
      else if 65 \<le> c \<and> c \<le> 70 then ucast c - 65 + 10
      else if 97 \<le> c \<and> c \<le> 102 then ucast c - 97 + 10
      else 0)"

datatype len_result = LenMore html_status nat | LenBad html_status nat | LenIs u32 html_status nat

text \<open>The inner loop, over the bytes from offset \<open>p\<close> on.\<close>

fun len_loop :: "bytes \<Rightarrow> nat \<Rightarrow> html_status \<Rightarrow> u32 \<Rightarrow> len_result" where
  "len_loop [] p st n = LenMore st p"
| "len_loop (c # cs) p st n =
     (if c = 32 \<or> c = 9 then len_loop cs (Suc p) st n
      else if c = 13
      then if st = LEN_DONE then len_loop cs (Suc p) LEN_HALF n else LenBad st (Suc p)
      else if c = 10
      then if st = LEN_HALF then LenIs n LEN_DONE (Suc p) else len_loop cs (Suc p) st n
      else len_loop cs (Suc p) st (push_bit 4 n + hex_digit c))"

lemma len_loop_progress: "len_loop cs p st n = LenIs k st' p' \<Longrightarrow> p < p'"
proof (induction cs arbitrary: p st n)
  case (Cons c cs)
  show ?case
  proof (cases "c = 10 \<and> st = LEN_HALF")
    case True
    then show ?thesis using Cons.prems by simp
  next
    case False
    then obtain st1 n1 where "len_loop cs (Suc p) st1 n1 = LenIs k st' p'"
      using Cons.prems by (auto split: if_splits)
    from Cons.IH [OF this] show ?thesis by simp
  qed
qed simp

text \<open>Copying the recorded ranges of \<open>d\<close> into \<open>out\<close> from \<open>q\<close> on.\<close>

fun copy_chunks :: "bytes \<Rightarrow> key_value_s list \<Rightarrow> bytes \<Rightarrow> nat \<Rightarrow> (bytes \<times> nat) option" where
  "copy_chunks d [] out q = Some (out, q)"
| "copy_chunks d (kv # kvs) out q =
     (if unat (kv_value kv) + unat (kv_value_len kv) \<le> length d
      then do { out \<leftarrow> store out q (take (unat (kv_value_len kv)) (drop (unat (kv_value kv)) d));
                copy_chunks d kvs out (q + unat (kv_value_len kv)) }
      else None)"

text \<open>
  The outer loop. The result is what \<open>http_parse_html\<close> returns at once, if it does, the cache, the
  position and the allocation outcomes.
\<close>

definition chunk_final :: "bytes \<Rightarrow> nat \<Rightarrow> html_cache_s \<Rightarrow> mem \<Rightarrow> (int option \<times> html_cache_s \<times> nat \<times> mem) option" where
  "chunk_final d p mc m =
     (case create_temp_buf (unat (mc_chunk_sum mc)) m of
        (None, m) \<Rightarrow> Some (Some (- 1), mc, p, m)
      | (Some b, m) \<Rightarrow>
          do { (out, q) \<leftarrow> copy_chunks d (mc_kvs mc) (b_data b) 0;
               Some (None, mc\<lparr>mc_chunks := Some (b\<lparr>b_data := out, b_last := q + 1\<rparr>)\<rparr>, p, m) })"

definition record_chunk :: "u32 \<Rightarrow> nat \<Rightarrow> html_cache_s \<Rightarrow> html_cache_s" where
  "record_chunk n p mc =
     mc\<lparr>mc_kvs := mc_kvs mc @ [zero_kv\<lparr>kv_value := of_nat p, kv_value_len := n\<rparr>],
        mc_start := of_nat (p + unat (n + 2)), mc_chunk_sum := mc_chunk_sum mc + n\<rparr>"

function chunk_loop :: "bytes \<Rightarrow> nat \<Rightarrow> nat \<Rightarrow> html_cache_s \<Rightarrow> mem \<Rightarrow> (int option \<times> html_cache_s \<times> nat \<times> mem) option" where
  "chunk_loop d lst p mc m =
     (if p < lst
      then (case len_loop (drop p (take lst d)) p (mc_status mc) 0 of
              LenMore st p' \<Rightarrow> Some (Some 0, mc\<lparr>mc_status := st\<rparr>, p', m)
            | LenBad st p' \<Rightarrow> Some (Some (- 1), mc\<lparr>mc_status := st\<rparr>, p', m)
            | LenIs n st p' \<Rightarrow>
                if n = 0 then chunk_final d p' (mc\<lparr>mc_status := st\<rparr>) m
                else (case calloc_ok m of
                        (False, m) \<Rightarrow> Some (Some (- 1), mc\<lparr>mc_status := st\<rparr>, p', m)
                      | (True, m) \<Rightarrow> chunk_loop d lst (p' + unat (n + 2)) (record_chunk n p' (mc\<lparr>mc_status := st\<rparr>)) m))
      else Some (None, mc, p, m))"
  by pat_completeness auto
termination
  by (relation "measure (\<lambda>(d, lst, p, mc, m). lst - p)") (auto dest: len_loop_progress)

declare chunk_loop.simps [simp del]

section \<open>The body\<close>

definition zero_html :: html_cache_s where
  "zero_html = \<lparr>mc_status = LEN_DONE, mc_html_start = 0, mc_start = 0, mc_chunk_sum = 0, mc_chunks = None, mc_kvs = [], mc_html = None\<rparr>"

definition take_length :: "http_buf_s \<Rightarrow> u32 \<Rightarrow> html_cache_s \<Rightarrow> mem \<Rightarrow> (int option \<times> html_cache_s \<times> nat \<times> mem) option" where
  "take_length b len mc m =
     (if len \<noteq> 0 \<and> int (b_last b) - int (b_pos b) \<ge> uint len
      then (case create_temp_buf (unat len) m of
              (None, m) \<Rightarrow> Some (Some (- 1), mc, b_pos b, m)
            | (Some c, m) \<Rightarrow>
                do { out \<leftarrow> (if b_pos b + unat len \<le> length (b_data b)
                            then store (b_data c) 0 (take (unat len) (drop (b_pos b) (b_data b))) else None);
                     Some (None, mc\<lparr>mc_chunks := Some (c\<lparr>b_data := out, b_last := unat len\<rparr>), mc_chunk_sum := len\<rparr>, b_pos b, m) })
      else Some (None, mc, b_pos b, m))"

text \<open>
  The end of the function: the collected body, decompressed or copied. \<open>inflate\<close> is given the bytes
  from \<open>start\<close> to \<open>last\<close>, those beyond the end of the buffer being indeterminate.
\<close>

definition finish_html :: "(nat \<Rightarrow> u8) \<Rightarrow> (bytes \<Rightarrow> 'z option) \<Rightarrow> ('z \<Rightarrow> nat \<Rightarrow> zret \<times> bytes \<times> 'z) \<Rightarrow> bool \<Rightarrow> http_client_s \<Rightarrow>
    html_cache_s \<Rightarrow> mem \<Rightarrow> (int \<times> http_client_s \<times> mem) option" where
  "finish_html junk inflateInit2 inflate gzip cl mc m =
     (case mc_chunks mc of
        None \<Rightarrow> Some (0, cl\<lparr>cl_html := Some mc\<rparr>, m)
      | Some c \<Rightarrow>
          (case create_temp_buf (if gzip then BASE_RANGE else unat (mc_chunk_sum mc)) m of
             (None, m) \<Rightarrow> Some (- 1, cl\<lparr>cl_html := Some mc\<rparr>, m)
           | (Some dest, m) \<Rightarrow>
               if gzip
               then do { (r, dest, m) \<leftarrow> inflate_gzip junk inflateInit2 inflate
                           (take (b_last c) (b_data c @ map junk [length (b_data c)..<b_last c])) dest m;
                         cl \<leftarrow> Some (cl\<lparr>cl_html := Some (mc\<lparr>mc_html := Some dest\<rparr>)\<rparr>);
                         Some (if r \<noteq> 0 then (- 1, cl, m) else (0, cl\<lparr>cl_status := HTTP_HTML_DONE\<rparr>, m)) }
               else do { out \<leftarrow> (if unat (mc_chunk_sum mc) \<le> length (b_data c)
                                then store (b_data dest) 0 (take (unat (mc_chunk_sum mc)) (b_data c)) else None);
                         Some (0, cl\<lparr>cl_html := Some (mc\<lparr>mc_html := Some (dest\<lparr>b_data := out, b_last := unat (mc_chunk_sum mc)\<rparr>)\<rparr>),
                                    cl_status := HTTP_HTML_DONE\<rparr>, m) }))"

definition http_parse_html :: "(nat \<Rightarrow> u8) \<Rightarrow> (bytes \<Rightarrow> 'z option) \<Rightarrow> ('z \<Rightarrow> nat \<Rightarrow> zret \<times> bytes \<times> 'z) \<Rightarrow> http_client_s \<Rightarrow>
    mem \<Rightarrow> (int \<times> http_client_s \<times> mem) option" where
  "http_parse_html junk inflateInit2 inflate cl m =
     do { hc \<leftarrow> cl_head cl;
          b \<leftarrow> cl_recv cl;
          case (case cl_html cl of
                  Some mc \<Rightarrow> (Some mc, m)
                | None \<Rightarrow> (case calloc_ok m of
                     (ok, m) \<Rightarrow> (if ok then Some (zero_html\<lparr>mc_html_start := of_nat (b_pos b)\<rparr>) else None, m))) of
            (None, m) \<Rightarrow> Some (- 1, cl, m)
          | (Some mc, m) \<Rightarrow>
              do { (ret, mc, p, m) \<leftarrow> (if hc_chunk_flag hc then chunk_loop (b_data b) (b_last b) (b_pos b) mc m
                                      else take_length b (hc_content_len hc) mc m);
                   cl \<leftarrow> Some (cl\<lparr>cl_recv := Some (b\<lparr>b_pos := p\<rparr>)\<rparr>);
                   case ret of
                     Some r \<Rightarrow> Some (r, cl\<lparr>cl_html := Some mc\<rparr>, m)
                   | None \<Rightarrow> finish_html junk inflateInit2 inflate (hc_gzip_flag hc) cl mc m } }"

definition http_process_response :: "(nat \<Rightarrow> u8) \<Rightarrow> (bytes \<Rightarrow> 'z option) \<Rightarrow> ('z \<Rightarrow> nat \<Rightarrow> zret \<times> bytes \<times> 'z) \<Rightarrow>
    http_client_s \<Rightarrow> mem \<Rightarrow> (int \<times> http_client_s \<times> mem) option" where
  "http_process_response junk inflateInit2 inflate cl m =
     do { (r, cl, m) \<leftarrow> (if cl_status cl = HTTP_REQ_DONE then http_parse_head cl m else Some (0, cl, m));
          if r < 0 then Some (- 1, cl, m)
          else do { (r, cl, m) \<leftarrow> (if cl_status cl = HTTP_HEAD_DONE then http_parse_html junk inflateInit2 inflate cl m
                                  else Some (0, cl, m));
                    if r < 0 then Some (- 1, cl, m) else Some (0, cl, m) } }"

section \<open>Decoding\<close>

definition hex_char :: "u8 \<Rightarrow> bool" where
  "hex_char c \<longleftrightarrow> 48 \<le> c \<and> c \<le> 57 \<or> 65 \<le> c \<and> c \<le> 70 \<or> 97 \<le> c \<and> c \<le> 102"

definition hex_val :: "u8 \<Rightarrow> nat" where
  "hex_val c = (if c \<le> 57 then unat c - 48 else if c \<le> 70 then unat c - 55 else unat c - 87)"

definition hex_nat :: "nat \<Rightarrow> bytes \<Rightarrow> nat" where
  "hex_nat n hs = foldl (\<lambda>n c. n * 16 + hex_val c) n hs"

lemma hex_digit_val:
  assumes "hex_char c"
  shows "hex_digit c = of_nat (hex_val c)"
proof -
  consider "48 \<le> c" "c \<le> 57" | "65 \<le> c" "c \<le> 70" | "97 \<le> c" "c \<le> 102" using assms by (auto simp: hex_char_def)
  then show ?thesis
  proof cases
    case 1
    then have "48 \<le> unat c" by (simp add: word_le_nat_alt)
    then show ?thesis using 1 by (simp add: hex_digit_def hex_val_def of_nat_diff)
  next
    case 2
    then have "65 \<le> unat c" "\<not> c \<le> 57" by (simp_all add: word_le_nat_alt)
    then show ?thesis using 2 by (simp add: hex_digit_def hex_val_def of_nat_diff)
  next
    case 3
    then have "97 \<le> unat c" "\<not> c \<le> 57" "\<not> c \<le> 70" by (simp_all add: word_le_nat_alt)
    then show ?thesis using 3 by (simp add: hex_digit_def hex_val_def of_nat_diff)
  qed
qed

lemma hex_char_plain: "hex_char c \<Longrightarrow> c \<noteq> 32 \<and> c \<noteq> 9 \<and> c \<noteq> 13 \<and> c \<noteq> 10"
  by (auto simp: hex_char_def)

lemma len_loop_hex:
  assumes "\<forall>c\<in>set hs. hex_char c"
  shows "len_loop (hs @ cs) p st (of_nat n) = len_loop cs (p + length hs) st (of_nat (hex_nat n hs))"
  using assms
proof (induction hs arbitrary: p n)
  case (Cons c hs)
  have e: "push_bit 4 (of_nat n :: u32) + hex_digit c = of_nat (n * 16 + hex_val c)"
    using hex_digit_val [of c] Cons.prems by (simp add: push_bit_eq_mult)
  have "len_loop ((c # hs) @ cs) p st (of_nat n) = len_loop (hs @ cs) (Suc p) st (push_bit 4 (of_nat n) + hex_digit c)"
    using hex_char_plain [of c] Cons.prems by simp
  also have "\<dots> = len_loop cs (Suc p + length hs) st (of_nat (hex_nat (n * 16 + hex_val c) hs))"
    unfolding e by (rule Cons.IH) (use Cons.prems in simp)
  finally show ?case by (simp add: hex_nat_def)
qed (simp add: hex_nat_def)

lemma len_loop_line:
  assumes "\<forall>c\<in>set hs. hex_char c"
  shows "len_loop (hs @ [13, 10] @ cs) p LEN_DONE 0 = LenIs (of_nat (hex_nat 0 hs)) LEN_DONE (p + length hs + 2)"
  using len_loop_hex [OF assms, of "[13, 10] @ cs" p LEN_DONE 0] by simp

text \<open>A chunk: its length in hexadecimal digits and its data.\<close>

definition wf_chunk :: "bytes \<times> bytes \<Rightarrow> bool" where
  "wf_chunk c \<longleftrightarrow> (\<forall>x\<in>set (fst c). hex_char x) \<and> hex_nat 0 (fst c) = length (snd c) \<and> snd c \<noteq> []"

definition chunk_bytes :: "bytes \<times> bytes \<Rightarrow> bytes" where
  "chunk_bytes c = fst c @ [13, 10] @ snd c @ [13, 10]"

fun ranges :: "nat \<Rightarrow> (bytes \<times> bytes) list \<Rightarrow> key_value_s list" where
  "ranges p [] = []"
| "ranges p (c # cs) = zero_kv\<lparr>kv_value := of_nat (p + length (fst c) + 2), kv_value_len := of_nat (length (snd c))\<rparr> #
     ranges (p + length (chunk_bytes c)) cs"

lemma chunk_loop_step:
  assumes c: "wf_chunk c" and d: "take lst d = pre @ chunk_bytes c @ post" and l: "lst < 2 ^ 32"
    and mc: "mc_status mc = LEN_DONE"
  shows "chunk_loop d lst (length pre) mc [] = chunk_loop d lst (length (pre @ chunk_bytes c))
    (record_chunk (of_nat (length (snd c))) (length pre + length (fst c) + 2) mc) []"
proof -
  obtain hs xs where hx: "c = (hs, xs)" by fastforce
  have w: "\<forall>x\<in>set hs. hex_char x" "hex_nat 0 hs = length xs" "xs \<noteq> []" using c by (auto simp: wf_chunk_def hx)
  have lt: "length (pre @ chunk_bytes c @ post) \<le> lst" using d by (metis length_take min.cobounded2)
  then have pl: "length pre < lst" by (simp add: chunk_bytes_def hx)
  have n: "length xs + 2 < 2 ^ 32" using lt l by (simp add: chunk_bytes_def hx)
  have ne: "(of_nat (length xs) :: u32) \<noteq> 0" using n w(3) by (simp add: word_of_nat_eq_0_iff nat_dvd_not_less)
  have "(of_nat (length xs) + 2 :: u32) = of_nat (length xs + 2)" by simp
  then have u: "unat (of_nat (length xs) + 2 :: u32) = length xs + 2" using n by (simp only: unat_of_nat_small)
  have "drop (length pre) (take lst d) = hs @ [13, 10] @ xs @ [13, 10] @ post" using d by (simp add: chunk_bytes_def hx)
  then have ll: "len_loop (drop (length pre) (take lst d)) (length pre) (mc_status mc) 0 =
      LenIs (of_nat (length xs)) LEN_DONE (length pre + length hs + 2)"
    using len_loop_line [OF w(1), of "xs @ [13, 10] @ post" "length pre"] mc w(2) by simp
  show ?thesis
    using pl ll ne u mc by (subst chunk_loop.simps) (cases mc; simp add: calloc_ok_def hx chunk_bytes_def add_ac)
qed

lemma chunk_loop_last:
  assumes z: "\<forall>x\<in>set hz. hex_char x" "hex_nat 0 hz = 0" and d: "take lst d = pre @ hz @ [13, 10] @ post"
    and mc: "mc_status mc = LEN_DONE"
  shows "chunk_loop d lst (length pre) mc [] = chunk_final d (length pre + length hz + 2) mc []"
proof -
  have "length (pre @ hz @ [13, 10] @ post) \<le> lst" using d by (metis length_take min.cobounded2)
  then have pl: "length pre < lst" by simp
  show ?thesis
    using pl len_loop_line [OF z(1), of post "length pre"] d z(2) mc by (subst chunk_loop.simps) (cases mc; simp)
qed

lemma chunk_loop_all:
  assumes "\<forall>c\<in>set cs. wf_chunk c" "take lst d = pre @ concat (map chunk_bytes cs) @ hz @ [13, 10] @ post"
    and "lst < 2 ^ 32" "\<forall>x\<in>set hz. hex_char x" "hex_nat 0 hz = 0" "mc_status mc = LEN_DONE"
  shows "\<exists>mc'. chunk_loop d lst (length pre) mc [] =
      chunk_final d (length pre + length (concat (map chunk_bytes cs)) + length hz + 2) mc' [] \<and>
    mc_kvs mc' = mc_kvs mc @ ranges (length pre) cs \<and>
    mc_chunk_sum mc' = mc_chunk_sum mc + of_nat (length (concat (map snd cs))) \<and> mc_status mc' = LEN_DONE"
  using assms
proof (induction cs arbitrary: pre mc)
  case Nil
  then show ?case using chunk_loop_last [of hz lst d pre post mc] by auto
next
  case (Cons c cs)
  let ?mc = "record_chunk (of_nat (length (snd c))) (length pre + length (fst c) + 2) mc"
  have "chunk_loop d lst (length pre) mc [] = chunk_loop d lst (length (pre @ chunk_bytes c)) ?mc []"
    by (rule chunk_loop_step) (use Cons.prems in auto)
  moreover have "\<exists>mc'. chunk_loop d lst (length (pre @ chunk_bytes c)) ?mc [] =
      chunk_final d (length (pre @ chunk_bytes c) + length (concat (map chunk_bytes cs)) + length hz + 2) mc' [] \<and>
    mc_kvs mc' = mc_kvs ?mc @ ranges (length (pre @ chunk_bytes c)) cs \<and>
    mc_chunk_sum mc' = mc_chunk_sum ?mc + of_nat (length (concat (map snd cs))) \<and> mc_status mc' = LEN_DONE"
    by (rule Cons.IH) (use Cons.prems in \<open>auto simp: record_chunk_def\<close>)
  ultimately show ?case by (auto simp: record_chunk_def add_ac)
qed

lemma copy_chunks_ranges:
  assumes "d = pre @ concat (map chunk_bytes cs) @ post" "length d < 2 ^ 32" "q + length (concat (map snd cs)) \<le> length out"
  shows "copy_chunks d (ranges (length pre) cs) out q =
    Some (take q out @ concat (map snd cs) @ drop (q + length (concat (map snd cs))) out, q + length (concat (map snd cs)))"
  using assms
proof (induction cs arbitrary: pre q out)
  case (Cons c cs)
  obtain hs xs where c: "c = (hs, xs)" by fastforce
  let ?v = "length pre + length hs + 2"
  have d: "d = (pre @ hs @ [13, 10]) @ xs @ ([13, 10] @ concat (map chunk_bytes cs) @ post)"
    using Cons.prems(1) by (simp add: c chunk_bytes_def [of "(hs, xs)"])
  have u: "unat (of_nat ?v :: u32) = ?v" "unat (of_nat (length xs) :: u32) = length xs"
    by (rule unat_of_nat_small; use d Cons.prems(2) in simp)+
  have t: "take (length xs) (drop ?v d) = xs" using d by simp
  have l: "?v + length xs \<le> length d" using d by simp
  let ?o = "take q out @ xs @ drop (q + length xs) out"
  have o: "store out q xs = Some ?o" using Cons.prems(3) by (simp add: store_def c)
  have "copy_chunks d (ranges (length pre) (c # cs)) out q = copy_chunks d (ranges (length (pre @ chunk_bytes c)) cs) ?o (q + length xs)"
    using u t l o by (simp add: c zero_kv_def chunk_bytes_def)
  also have "\<dots> = Some (take (q + length xs) ?o @ concat (map snd cs) @ drop (q + length xs + length (concat (map snd cs))) ?o,
      q + length xs + length (concat (map snd cs)))"
    by (rule Cons.IH) (use Cons.prems in \<open>auto simp: c\<close>)
  also have "take (q + length xs) ?o = take q out @ xs" using Cons.prems(3) by (simp add: c)
  also have "drop (q + length xs + length (concat (map snd cs))) ?o = drop (q + length (concat (map snd (c # cs)))) out"
    using Cons.prems(3) by (simp add: c add_ac)
  finally show ?case by (simp add: c)
qed simp

text \<open>The whole body, with the data collected in \<open>mc_chunks\<close>.\<close>

lemma chunk_loop_body:
  assumes cs: "\<forall>c\<in>set cs. wf_chunk c" and z: "\<forall>x\<in>set hz. hex_char x" "hex_nat 0 hz = 0"
    and d: "take lst d = pre @ concat (map chunk_bytes cs) @ hz @ [13, 10] @ post" and l: "length d < 2 ^ 32" "lst \<le> length d"
    and mc: "mc_status mc = LEN_DONE" "mc_kvs mc = []" "mc_chunk_sum mc = 0"
  shows "\<exists>mc' c p. chunk_loop d lst (length pre) mc [] = Some (None, mc', p, []) \<and> mc_chunks mc' = Some c \<and>
    mc_chunk_sum mc' = of_nat (length (concat (map snd cs))) \<and> b_data c = concat (map snd cs) \<and>
    b_last c = length (b_data c) + 1"
proof -
  let ?all = "concat (map snd cs)"
  have ll: "lst < 2 ^ 32" using l by simp
  obtain mc' where m: "chunk_loop d lst (length pre) mc [] =
      chunk_final d (length pre + length (concat (map chunk_bytes cs)) + length hz + 2) mc' []"
    "mc_kvs mc' = ranges (length pre) cs" "mc_chunk_sum mc' = of_nat (length ?all)"
    using chunk_loop_all [OF cs d ll z mc(1)] mc(2,3) by auto
  have dd: "d = pre @ concat (map chunk_bytes cs) @ (hz @ [13, 10] @ post @ drop lst d)"
    using d by (metis append.assoc append_take_drop_id)
  have "length ?all \<le> length (concat (map chunk_bytes cs))" by (induction cs) (auto simp: chunk_bytes_def)
  then have "length ?all \<le> length d" using arg_cong [OF dd, of length] by simp
  then have u: "unat (of_nat (length ?all) :: u32) = length ?all" using l by (intro unat_of_nat_small) simp
  have "copy_chunks d (mc_kvs mc') (replicate (length ?all) 0) 0 = Some (?all, length ?all)"
    using copy_chunks_ranges [OF dd l(1), of 0 "replicate (length ?all) 0"] m(2) by simp
  then show ?thesis using m u by (simp add: chunk_final_def create_temp_buf_def calloc_ok_def)
qed

lemma http_parse_html_eq:
  assumes "cl_head cl = Some hc" "cl_recv cl = Some b" "cl_html cl = None"
    and "(if hc_chunk_flag hc then chunk_loop (b_data b) (b_last b) (b_pos b) (zero_html\<lparr>mc_html_start := of_nat (b_pos b)\<rparr>) []
      else take_length b (hc_content_len hc) (zero_html\<lparr>mc_html_start := of_nat (b_pos b)\<rparr>) []) = Some (None, mc, p, [])"
  shows "http_parse_html junk inflateInit2 inflate cl [] =
    finish_html junk inflateInit2 inflate (hc_gzip_flag hc) (cl\<lparr>cl_recv := Some (b\<lparr>b_pos := p\<rparr>)\<rparr>) mc []"
  using assms by (simp add: http_parse_html_def calloc_ok_def)

lemma finish_html_plain:
  assumes "mc_chunks mc = Some c" "unat (mc_chunk_sum mc) = length (b_data c)"
  shows "\<exists>html. finish_html junk inflateInit2 inflate False cl mc [] =
      Some (0, cl\<lparr>cl_html := Some (mc\<lparr>mc_html := Some html\<rparr>), cl_status := HTTP_HTML_DONE\<rparr>, []) \<and> filled html = b_data c"
  by (rule exI [of _ "\<lparr>b_data = b_data c, b_last = length (b_data c), b_pos = 0\<rparr>"])
    (use assms in \<open>simp add: finish_html_def create_temp_buf_def calloc_ok_def store_def filled_def\<close>)

lemma finish_html_gzip:
  assumes "zlib_spec inflate pending" "mc_chunks mc = Some c"
    and "inflateInit2 (take (b_last c) (b_data c @ map junk [length (b_data c)..<b_last c])) = Some z"
  shows "\<exists>html. finish_html junk inflateInit2 inflate True cl mc [] =
      Some (0, cl\<lparr>cl_html := Some (mc\<lparr>mc_html := Some html\<rparr>), cl_status := HTTP_HTML_DONE\<rparr>, []) \<and>
      filled html = pending z @ [0]"
proof -
  let ?dest = "\<lparr>b_data = replicate BASE_RANGE 0, b_last = 0, b_pos = 0\<rparr>"
  have ok: "buf_ok ?dest" "b_last ?dest < length (b_data ?dest)" by (simp_all add: buf_ok_def BASE_RANGE_def)
  obtain d where d: "inflate_loop junk inflate z ?dest [] = Some (0, d, [])" "buf_ok d" "b_last d < length (b_data d)"
    "filled d = filled ?dest @ pending z"
    using inflate_loop_ok [OF assms(1) ok] by blast
  from append_buf_ok [OF d(2), of "[0]"] d(3) obtain d' where
    d': "append_buf d [0] = Some d'" "filled d' = filled d @ [0]" by auto
  have "inflate_gzip junk inflateInit2 inflate (take (b_last c) (b_data c @ map junk [length (b_data c)..<b_last c])) ?dest [] =
      Some (0, d', [])"
    using d d' assms(3) by (simp add: inflate_gzip_def)
  then show ?thesis
    by (intro exI [of _ d'])
      (use assms(2) d(4) d'(2) in \<open>simp add: finish_html_def create_temp_buf_def calloc_ok_def filled_def [of ?dest]\<close>)
qed

section \<open>Properties\<close>

lemma parse_html_chunked:
  assumes cl: "cl_head cl = Some hc" "cl_recv cl = Some b" "cl_html cl = None" "hc_chunk_flag hc"
    and cs: "\<forall>c\<in>set cs. wf_chunk c" "\<forall>x\<in>set hz. hex_char x" "hex_nat 0 hz = 0"
    and d: "take (b_last b) (b_data b) = head @ concat (map chunk_bytes cs) @ hz @ [13, 10] @ post" "b_pos b = length head"
      "length (b_data b) < 2 ^ 32" "b_last b \<le> length (b_data b)"
    and z: "zlib_spec inflate pending" "inflateInit2 (concat (map snd cs) @ [junk (length (concat (map snd cs)))]) = Some z"
  shows "\<exists>cl' mc html. http_parse_html junk inflateInit2 inflate cl [] = Some (0, cl', []) \<and> cl_status cl' = HTTP_HTML_DONE \<and>
    cl_handler cl' = cl_handler cl \<and> cl_html cl' = Some mc \<and> mc_html mc = Some html \<and>
    filled html = (if hc_gzip_flag hc then pending z @ [0] else concat (map snd cs))"
proof -
  let ?all = "concat (map snd cs)" and ?mc = "zero_html\<lparr>mc_html_start := of_nat (b_pos b)\<rparr>"
  have m: "mc_status ?mc = LEN_DONE" "mc_kvs ?mc = []" "mc_chunk_sum ?mc = 0" by (simp_all add: zero_html_def)
  from chunk_loop_body [OF cs d(1,3,4) m] obtain mc' c p where
    r: "chunk_loop (b_data b) (b_last b) (length head) ?mc [] = Some (None, mc', p, [])" "mc_chunks mc' = Some c"
    "mc_chunk_sum mc' = of_nat (length ?all)" "b_data c = ?all" "b_last c = length (b_data c) + 1" by blast
  let ?cl = "cl\<lparr>cl_recv := Some (b\<lparr>b_pos := p\<rparr>)\<rparr>"
  have eq: "http_parse_html junk inflateInit2 inflate cl [] = finish_html junk inflateInit2 inflate (hc_gzip_flag hc) ?cl mc' []"
    by (rule http_parse_html_eq [OF cl(1-3)]) (use r(1) cl(4) d(2) in simp)
  have "length ?all \<le> length (concat (map chunk_bytes cs))" by (induction cs) (auto simp: chunk_bytes_def)
  also have "\<dots> \<le> length (take (b_last b) (b_data b))" unfolding d(1) by simp
  finally have u: "unat (mc_chunk_sum mc') = length (b_data c)"
    unfolding r(3,4) using d(3) by (intro unat_of_nat_small) simp
  have "take (b_last c) (b_data c @ map junk [length (b_data c)..<b_last c]) = ?all @ [junk (length ?all)]"
    using r(4,5) by simp
  then have zi: "inflateInit2 (take (b_last c) (b_data c @ map junk [length (b_data c)..<b_last c])) = Some z"
    using z(2) by simp
  show ?thesis
  proof (cases "hc_gzip_flag hc")
    case True
    from finish_html_gzip [where ?inflateInit2.0 = inflateInit2 and junk = junk and cl = ?cl, OF z(1) r(2) zi] obtain html where
      "finish_html junk inflateInit2 inflate True ?cl mc' [] =
        Some (0, ?cl\<lparr>cl_html := Some (mc'\<lparr>mc_html := Some html\<rparr>), cl_status := HTTP_HTML_DONE\<rparr>, [])"
      "filled html = pending z @ [0]" by blast
    then show ?thesis using eq True by simp
  next
    case False
    from finish_html_plain [OF r(2) u, of junk inflateInit2 inflate ?cl] obtain html where
      "finish_html junk inflateInit2 inflate False ?cl mc' [] =
        Some (0, ?cl\<lparr>cl_html := Some (mc'\<lparr>mc_html := Some html\<rparr>), cl_status := HTTP_HTML_DONE\<rparr>, [])"
      "filled html = ?all" using r(4) by auto
    then show ?thesis using eq False by simp
  qed
qed

text \<open>
  C11: decoding a chunked body inverts its encoding: for every sequence of chunks, with their lengths
  written in hexadecimal digits of either case, followed by the final chunk of length zero, a call
  of \<open>http_parse_html\<close> on the received data finishes with the concatenation of the chunks as the
  page (or, for a gzip body and a conforming zlib, with what that decompresses to).
\<close>

theorem http_parse_html_chunked:
  assumes cl: "cl_head cl = Some hc" "cl_recv cl = Some b" "cl_html cl = None" "hc_chunk_flag hc"
    and cs: "\<forall>c\<in>set cs. wf_chunk c" "\<forall>x\<in>set hz. hex_char x" "hex_nat 0 hz = 0"
    and d: "take (b_last b) (b_data b) = head @ concat (map chunk_bytes cs) @ hz @ [13, 10] @ post" "b_pos b = length head"
      "length (b_data b) < 2 ^ 32" "b_last b \<le> length (b_data b)"
    and z: "zlib_spec inflate pending" "inflateInit2 (concat (map snd cs) @ [junk (length (concat (map snd cs)))]) = Some z"
  shows "\<exists>cl' mc html. http_parse_html junk inflateInit2 inflate cl [] = Some (0, cl', []) \<and> cl_status cl' = HTTP_HTML_DONE \<and>
    cl_html cl' = Some mc \<and> mc_html mc = Some html \<and>
    filled html = (if hc_gzip_flag hc then pending z @ [0] else concat (map snd cs))"
  using parse_html_chunked [where ?inflateInit2.0 = inflateInit2 and junk = junk, OF assms] by blast

definition ex_body_client :: "head_cache_s \<Rightarrow> bytes \<Rightarrow> http_client_s" where
  "ex_body_client hc d = (ex_client d)\<lparr>cl_status := HTTP_HEAD_DONE, cl_head := Some hc\<rparr>"

theorem http_parse_html_chunked_witness:
  "\<exists>cl' m. http_parse_html (\<lambda>i. 0) Some ex_inflate (ex_body_client (zero_head\<lparr>hc_chunk_flag := True\<rparr>)
      ([51, 13, 10, 1, 2, 3, 13, 10] @ [97, 13, 10] @ replicate 10 7 @ [13, 10] @ [48, 13, 10, 13, 10])) [] = Some (0, cl', m) \<and>
    cl_status cl' = HTTP_HTML_DONE"
proof -
  let ?cs = "[([51], [1, 2, 3]), ([97], replicate 10 7)] :: (bytes \<times> bytes) list"
  let ?d = "[51, 13, 10, 1, 2, 3, 13, 10] @ [97, 13, 10] @ replicate 10 7 @ [13, 10] @ [48, 13, 10, 13, 10] :: bytes"
  let ?cl = "ex_body_client (zero_head\<lparr>hc_chunk_flag := True\<rparr>) ?d" and ?b = "\<lparr>b_data = ?d, b_last = length ?d, b_pos = 0\<rparr>"
  have cl: "cl_head ?cl = Some (zero_head\<lparr>hc_chunk_flag := True\<rparr>)" "cl_recv ?cl = Some ?b" "cl_html ?cl = None"
    "hc_chunk_flag (zero_head\<lparr>hc_chunk_flag := True\<rparr>)"
    by (simp_all add: ex_body_client_def ex_client_def)
  have cs: "\<forall>c\<in>set ?cs. wf_chunk c" "\<forall>x\<in>set [48 :: u8]. hex_char x" "hex_nat 0 [48] = 0"
    by (simp_all add: wf_chunk_def hex_char_def hex_nat_def hex_val_def)
  have d: "take (b_last ?b) (b_data ?b) = [] @ concat (map chunk_bytes ?cs) @ [48] @ [13, 10] @ [13, 10]"
    "b_pos ?b = length ([] :: bytes)" "length (b_data ?b) < 2 ^ 32" "b_last ?b \<le> length (b_data ?b)"
    by (simp_all add: chunk_bytes_def)
  have z: "zlib_spec ex_inflate (\<lambda>z. z)" by (simp add: zlib_spec_def ex_inflate_def zfatal_def)
  have "\<exists>cl' mc html. http_parse_html (\<lambda>i. 0) Some ex_inflate ?cl [] = Some (0, cl', []) \<and> cl_status cl' = HTTP_HTML_DONE \<and>
    cl_html cl' = Some mc \<and> mc_html mc = Some html \<and>
    filled html = (if hc_gzip_flag (zero_head\<lparr>hc_chunk_flag := True\<rparr>)
      then (concat (map snd ?cs) @ [(\<lambda>i. 0) (length (concat (map snd ?cs)))]) @ [0] else concat (map snd ?cs))"
    by (rule http_parse_html_chunked [OF cl cs d z refl])
  then show ?thesis by blast
qed

text \<open>
  A body announced by its length is taken exactly when it is there: with fewer bytes received
  than \<open>Content-Length\<close> says, \<open>http_parse_html\<close> returns 0 and leaves the client waiting; otherwise
  the page is exactly that many bytes after the head.
\<close>

theorem http_parse_html_length:
  assumes cl: "cl_head cl = Some hc" "cl_recv cl = Some b" "cl_html cl = None" "\<not> hc_chunk_flag hc" "\<not> hc_gzip_flag hc"
    and len: "hc_content_len hc \<noteq> 0" and b: "b_pos b \<le> b_last b" "b_last b \<le> length (b_data b)"
  shows "\<exists>cl' mc. http_parse_html junk inflateInit2 inflate cl [] = Some (0, cl', []) \<and> cl_html cl' = Some mc \<and>
    (if unat (hc_content_len hc) \<le> b_last b - b_pos b
     then cl_status cl' = HTTP_HTML_DONE \<and> (\<exists>html. mc_html mc = Some html \<and>
       filled html = take (unat (hc_content_len hc)) (drop (b_pos b) (take (b_last b) (b_data b))))
     else cl_status cl' = cl_status cl \<and> mc_html mc = None)"
proof -
  let ?n = "unat (hc_content_len hc)" and ?mc = "zero_html\<lparr>mc_html_start := of_nat (b_pos b)\<rparr>"
  have "int k \<le> int (b_last b) - int (b_pos b) \<longleftrightarrow> k \<le> b_last b - b_pos b" for k using b(1) by auto
  from this [of ?n] have le: "int (b_last b) - int (b_pos b) \<ge> uint (hc_content_len hc) \<longleftrightarrow> ?n \<le> b_last b - b_pos b"
    unfolding uint_nat .
  show ?thesis
  proof (cases "?n \<le> b_last b - b_pos b")
    case True
    let ?data = "take ?n (drop (b_pos b) (b_data b))"
    let ?c = "\<lparr>b_data = ?data, b_last = ?n, b_pos = 0\<rparr>"
    let ?mc' = "?mc\<lparr>mc_chunks := Some ?c, mc_chunk_sum := hc_content_len hc\<rparr>"
    have l: "length ?data = ?n" using True b by simp
    have "take_length b (hc_content_len hc) ?mc [] = Some (None, ?mc', b_pos b, [])"
      using True len b le l by (simp add: take_length_def create_temp_buf_def calloc_ok_def store_def)
    then have eq: "http_parse_html junk inflateInit2 inflate cl [] =
        finish_html junk inflateInit2 inflate False (cl\<lparr>cl_recv := Some (b\<lparr>b_pos := b_pos b\<rparr>)\<rparr>) ?mc' []"
      using http_parse_html_eq [OF cl(1-3), of ?mc' "b_pos b"] cl(4,5) by simp
    have s: "mc_chunks ?mc' = Some ?c" "unat (mc_chunk_sum ?mc') = length (b_data ?c)" using l by simp_all
    have "take ?n (drop (b_pos b) (take (b_last b) (b_data b))) = ?data"
      using True b by (simp add: drop_take min_def)
    with finish_html_plain [OF s, of junk inflateInit2 inflate "cl\<lparr>cl_recv := Some (b\<lparr>b_pos := b_pos b\<rparr>)\<rparr>"] eq True
    show ?thesis by auto
  next
    case False
    have "take_length b (hc_content_len hc) ?mc [] = Some (None, ?mc, b_pos b, [])"
      using False le by (simp add: take_length_def)
    then have "http_parse_html junk inflateInit2 inflate cl [] =
        finish_html junk inflateInit2 inflate False (cl\<lparr>cl_recv := Some (b\<lparr>b_pos := b_pos b\<rparr>)\<rparr>) ?mc []"
      using http_parse_html_eq [OF cl(1-3), of ?mc "b_pos b"] cl(4,5) by simp
    then show ?thesis using False by (simp add: finish_html_def zero_html_def)
  qed
qed

theorem http_parse_html_length_witness:
  "\<exists>cl' m. http_parse_html (\<lambda>i. 0) Some ex_inflate (ex_body_client (zero_head\<lparr>hc_content_len := 2\<rparr>) [1, 2, 3]) [] = Some (0, cl', m) \<and>
    cl_status cl' = HTTP_HTML_DONE"
proof -
  let ?cl = "ex_body_client (zero_head\<lparr>hc_content_len := 2\<rparr>) [1, 2, 3]" and ?b = "\<lparr>b_data = [1, 2, 3 :: u8], b_last = 3, b_pos = 0\<rparr>"
  have cl: "cl_head ?cl = Some (zero_head\<lparr>hc_content_len := 2\<rparr>)" "cl_recv ?cl = Some ?b" "cl_html ?cl = None"
    "\<not> hc_chunk_flag (zero_head\<lparr>hc_content_len := 2\<rparr>)" "\<not> hc_gzip_flag (zero_head\<lparr>hc_content_len := 2\<rparr>)"
    "hc_content_len (zero_head\<lparr>hc_content_len := 2\<rparr>) \<noteq> 0" "b_pos ?b \<le> b_last ?b" "b_last ?b \<le> length (b_data ?b)"
    by (simp_all add: ex_body_client_def ex_client_def zero_head_def)
  from http_parse_html_length [OF cl, of "\<lambda>i. 0" Some ex_inflate] show ?thesis by auto
qed

text \<open>
  A chunk length that is split between two reads is lost: the digit received first is forgotten and
  the rest of the line is taken for the final chunk, so that the page comes out empty, while the same
  bytes in one read give the page.
\<close>

theorem chunk_length_split_lost:
  "\<exists>cl1 cl2 m1 m2. http_parse_html (\<lambda>i. 0) Some ex_inflate (ex_body_client (zero_head\<lparr>hc_chunk_flag := True\<rparr>) [51]) [] = Some (0, cl1, m1) \<and>
    http_parse_html (\<lambda>i. 0) Some ex_inflate (cl1\<lparr>cl_recv := Some \<lparr>b_data = [51, 13, 10, 1, 2, 3, 13, 10, 48, 13, 10, 13, 10],
      b_last = 13, b_pos = 1\<rparr>\<rparr>) m1 = Some (0, cl2, m2) \<and> cl_status cl2 = HTTP_HTML_DONE \<and>
    map_option (\<lambda>mc. map_option filled (mc_html mc)) (cl_html cl2) = Some (Some [])"
  by (simp add: http_parse_html_def ex_body_client_def ex_client_def calloc_ok_def zero_head_def zero_html_def chunk_loop.simps
      hex_digit_def chunk_final_def create_temp_buf_def finish_html_def store_def filled_def)

text \<open>
  A chunk length of 2^32 - 1 wraps the position and the sum of the lengths: the buffer that is
  allocated is empty and the copy of the first chunk runs outside of both buffers.
\<close>

theorem chunk_length_wraps:
  "http_parse_html (\<lambda>i. 0) Some ex_inflate (ex_body_client (zero_head\<lparr>hc_chunk_flag := True\<rparr>)
     ([70, 70, 70, 70, 70, 70, 70, 70, 13, 10, 1] @ [49, 13, 10, 2, 13, 10, 48, 13, 10])) [] = None"
  by (simp add: http_parse_html_def ex_body_client_def ex_client_def calloc_ok_def zero_head_def zero_html_def chunk_loop.simps
      hex_digit_def chunk_final_def create_temp_buf_def finish_html_def store_def filled_def record_chunk_def zero_kv_def)

end
