(* ===== verification/Http_Client.thy ===== *)
theory Http_Client
  imports Http_Html
begin

text \<open>
  The HTTP client proper: sending the request, receiving the response, the TLS handshake, opening
  and releasing a client (the rest of \<^verbatim>\<open>src/http_client.c\<close>). Clients are objects of a heap; a
  connection's \<open>data\<close> points to its client. The client's own handler (the page parser) is the
  parameter \<open>handler\<close>, the system calls of \<open>http_conn\<close> and the SSL library's of the handshake are
  given by their results.
\<close>

section \<open>State\<close>

record 'k http_state = "'k io_state" +
  clients :: "addr \<rightharpoonup> http_client_s"
  mem_script :: mem

definition TIMEOUT_CONN :: u32 where "TIMEOUT_CONN = 5000"
definition TIMEOUT_RECV :: u32 where "TIMEOUT_RECV = 20000"
definition TIMEOUT_SSL :: u32 where "TIMEOUT_SSL = 10000"
definition TIMEOUT_SEND :: u32 where "TIMEOUT_SEND = 5000"

type_synonym ('k, 'a) client_handler = "addr \<Rightarrow> ('k, 'a) http_state_scheme \<Rightarrow> (('k, 'a) http_state_scheme) option"

definition upd_client :: "('k, 'a) http_state_scheme \<Rightarrow> addr \<Rightarrow> (http_client_s \<Rightarrow> http_client_s) \<Rightarrow> (('k, 'a) http_state_scheme) option" where
  "upd_client st a f = (case clients st a of None \<Rightarrow> None | Some x \<Rightarrow> Some (st\<lparr>clients := (clients st)(a \<mapsto> f x)\<rparr>))"

text \<open>\<open>if (client->handler) client->handler(client);\<close>\<close>

definition call_handler :: "('k, 'a) client_handler \<Rightarrow> ('k, 'a) http_state_scheme \<Rightarrow> addr \<Rightarrow> (('k, 'a) http_state_scheme) option" where
  "call_handler handler st a = do { cl \<leftarrow> clients st a; if cl_handler cl then handler a st else Some st }"

section \<open>Sending the request\<close>

definition LINE0 :: bytes where "LINE0 = cstr ''GET  HTTP/1.1'' @ [13, 10]"
definition LINE1 :: bytes where "LINE1 = cstr ''Host: '' @ [13, 10]"

definition LINE2 :: bytes where
  "LINE2 = cstr ''Connection: keep-alive'' @ [13, 10] @
     cstr ''Upgrade-Insecure-Requests: 1'' @ [13, 10] @
     cstr ''Cache-Control: max-age=0'' @ [13, 10] @
     cstr ''Accept: text/html,application/xhtml+xml,application/xml;q=0.9,image/webp,*/*;q=0.8'' @ [13, 10] @
     cstr ''User-Agent: Mozilla/5.0 (Windows NT 10.0; Win64; x64) AppleWebKit/537.36 (KHTML, like Gecko) Chrome/54.0.2840.71 Safari/537.36'' @ [13, 10] @
     cstr ''Accept-Encoding: gzip, deflate, sdch'' @ [13, 10] @
     cstr ''Accept-Language: en-US,en;q=0.8,zh-CN;q=0.6,zh;q=0.4'' @ [13, 10] @ [13, 10]"

text \<open>The text \<open>sprintf\<close> writes, without its terminating zero byte.\<close>

definition request_text :: "http_url_s \<Rightarrow> bytes" where
  "request_text url = cstr ''GET '' @ u_path url @ cstr '' HTTP/1.1'' @ [13, 10] @ cstr ''Host: '' @ u_host url @ [13, 10] @ LINE2"

definition pack_req_buf :: "http_client_s \<Rightarrow> mem \<Rightarrow> (int \<times> http_client_s \<times> mem) option" where
  "pack_req_buf cl m =
     (let req_buf_len = length LINE0 + length LINE1 + length LINE2 + length (u_host (cl_url cl)) + length (u_path (cl_url cl)) + 1
      in (case create_temp_buf req_buf_len m of
            (None, m) \<Rightarrow> Some (- 1, cl, m)
          | (Some b, m) \<Rightarrow>
              do { d \<leftarrow> store (b_data b) 0 (request_text (cl_url cl) @ [0]);
                   Some (0, cl\<lparr>cl_req := Some (b\<lparr>b_data := d, b_last := req_buf_len\<rparr>)\<rparr>, m) }))"

definition client_pack :: "('k, 'a) http_state_scheme \<Rightarrow> addr \<Rightarrow> (int \<times> ('k, 'a) http_state_scheme) option" where
  "client_pack st a =
     do { cl \<leftarrow> clients st a;
          (r, cl, m) \<leftarrow> pack_req_buf cl (mem_script st);
          Some (r, st\<lparr>clients := (clients st)(a \<mapsto> cl), mem_script := m\<rparr>) }"

text \<open>What follows when the request is out: the write event is done, the read event armed.\<close>

definition request_sent :: "('k, 'a) client_handler \<Rightarrow> 'k epoll_ctl \<Rightarrow> ('k, 'a) http_state_scheme \<Rightarrow> addr \<Rightarrow> addr \<Rightarrow> addr \<Rightarrow>
    (('k, 'a) http_state_scheme) option" where
  "request_sent handler ctl st a c wev =
     do { conn \<leftarrow> conns st c;
          e \<leftarrow> events st wev;
          st \<leftarrow> (if ev_timer_set e then event_del_timer st wev else Some st);
          e \<leftarrow> events st wev;
          (r, st) \<leftarrow> (if ev_active e then io_event_del ctl st wev WRITE_EVENT 0 else Some (0, st));
          if r < 0 then call_handler handler st a
          else do {
            st \<leftarrow> upd_event st (c_read conn) (ev_handler_update (\<lambda>_. H_http_read_event_process));
            e \<leftarrow> events st (c_read conn);
            (r, st) \<leftarrow> (if \<not> ev_active e then io_event_add ctl st (c_read conn) READ_EVENT CLEAR_EVENT else Some (0, st));
            if r < 0 then call_handler handler st a
            else do {
              st \<leftarrow> event_add_timer st (c_read conn) TIMEOUT_RECV;
              upd_client st a (cl_status_update (\<lambda>_. HTTP_REQ_DONE)) } } }"

definition http_write_event_process :: "('k, 'a) client_handler \<Rightarrow> 'k epoll_ctl \<Rightarrow> ('k, 'a) http_state_scheme \<Rightarrow> addr \<Rightarrow>
    (('k, 'a) http_state_scheme) option" where
  "http_write_event_process handler ctl st wev =
     do { e \<leftarrow> events st wev;
          c \<leftarrow> Some (ev_data e);
          conn \<leftarrow> conns st c;
          a \<leftarrow> Some (c_data conn);
          cl \<leftarrow> clients st a;
          if ev_timedout e then call_handler handler st a
          else do {
            (r, st) \<leftarrow> (if cl_req cl = None then client_pack st a else Some (0, st));
            if r < 0 then call_handler handler st a
            else do {
              cl \<leftarrow> clients st a;
              b \<leftarrow> cl_req cl;
              (n, st) \<leftarrow> (if b_last b - b_pos b \<noteq> 0 \<and> ev_ready e then conn_send ctl st c (b_last b - b_pos b) else Some (0, st));
              if n = - 1 then call_handler handler st a
              else do {
                st \<leftarrow> (if n > 0 then upd_client st a (cl_req_update (\<lambda>_. Some (b\<lparr>b_pos := b_pos b + nat n\<rparr>))) else Some st);
                st \<leftarrow> (if n = - EAGAIN then event_add_timer st wev TIMEOUT_SEND else Some st);
                cl \<leftarrow> clients st a;
                b \<leftarrow> cl_req cl;
                if b_pos b = b_last b then request_sent handler ctl st a c wev
                else call_handler handler st a } } } }"

section \<open>Receiving the response\<close>

text \<open>
  The receive loop: \<open>None\<close> of the outcome is the jump to \<open>failed\<close>, otherwise whether anything was
  received.
\<close>

partial_function (option) recv_loop :: "(nat \<Rightarrow> u8) \<Rightarrow> 'k epoll_ctl \<Rightarrow> ('k, 'a) http_state_scheme \<Rightarrow> addr \<Rightarrow> http_buf_s \<Rightarrow> bool \<Rightarrow>
    (bool option \<times> http_buf_s \<times> ('k, 'a) http_state_scheme) option" where
  "recv_loop junk ctl st c b reset_time =
     (case (if b_last b = length (b_data b) then resize_temp_buf junk b (mem_script st) else (0, b, mem_script st)) of
        (r, b, m) \<Rightarrow>
          if r < 0 then Some (None, b, st\<lparr>mem_script := m\<rparr>)
          else do {
            (n, bs, st) \<leftarrow> conn_recv ctl (st\<lparr>mem_script := m\<rparr>) c (length (b_data b) - b_last b);
            b \<leftarrow> (if n > 0 then append_buf b bs else Some b);
            if n = - EAGAIN \<or> n = 0 then Some (Some (reset_time \<or> n > 0), b, st)
            else if n = - 1 then Some (None, b, st)
            else recv_loop junk ctl st c b (reset_time \<or> n > 0) })"

definition client_buf :: "('k, 'a) http_state_scheme \<Rightarrow> addr \<Rightarrow> (http_buf_s option \<times> ('k, 'a) http_state_scheme) option" where
  "client_buf st a =
     do { cl \<leftarrow> clients st a;
          case cl_recv cl of
            Some b \<Rightarrow> Some (Some b, st)
          | None \<Rightarrow>
              (case create_temp_buf BASE_RANGE (mem_script st) of
                 (None, m) \<Rightarrow> Some (None, st\<lparr>mem_script := m\<rparr>)
               | (Some b, m) \<Rightarrow> Some (Some b, st\<lparr>mem_script := m, clients := (clients st)(a \<mapsto> cl\<lparr>cl_recv := Some b\<rparr>)\<rparr>)) }"

definition client_response :: "(nat \<Rightarrow> u8) \<Rightarrow> (bytes \<Rightarrow> 'z option) \<Rightarrow> ('z \<Rightarrow> nat \<Rightarrow> zret \<times> bytes \<times> 'z) \<Rightarrow>
    ('k, 'a) http_state_scheme \<Rightarrow> addr \<Rightarrow> (int \<times> ('k, 'a) http_state_scheme) option" where
  "client_response junk inflateInit2 inflate st a =
     do { cl \<leftarrow> clients st a;
          (r, cl, m) \<leftarrow> http_process_response junk inflateInit2 inflate cl (mem_script st);
          Some (r, st\<lparr>clients := (clients st)(a \<mapsto> cl), mem_script := m\<rparr>) }"

definition http_read_event_process :: "('k, 'a) client_handler \<Rightarrow> (nat \<Rightarrow> u8) \<Rightarrow> (bytes \<Rightarrow> 'z option) \<Rightarrow>
    ('z \<Rightarrow> nat \<Rightarrow> zret \<times> bytes \<times> 'z) \<Rightarrow> 'k epoll_ctl \<Rightarrow> ('k, 'a) http_state_scheme \<Rightarrow> addr \<Rightarrow> (('k, 'a) http_state_scheme) option" where
  "http_read_event_process handler junk inflateInit2 inflate ctl st ev =
     do { e \<leftarrow> events st ev;
          c \<leftarrow> Some (ev_data e);
          conn \<leftarrow> conns st c;
          a \<leftarrow> Some (c_data conn);
          if ev_timedout e then call_handler handler st a
          else do {
            (bo, st) \<leftarrow> client_buf st a;
            case bo of
              None \<Rightarrow> call_handler handler st a
            | Some b \<Rightarrow>
                do { (ret, b, st) \<leftarrow> recv_loop junk ctl st c b False;
                     st \<leftarrow> upd_client st a (cl_recv_update (\<lambda>_. Some b));
                     case ret of
                       None \<Rightarrow> call_handler handler st a
                     | Some reset_time \<Rightarrow>
                         do { st \<leftarrow> (if reset_time then event_add_timer st ev TIMEOUT_RECV else Some st);
                              (r, st) \<leftarrow> client_response junk inflateInit2 inflate st a;
                              if r < 0 then call_handler handler st a
                              else do { cl \<leftarrow> clients st a;
                                        e \<leftarrow> events st ev;
                                        if cl_status cl = HTTP_HTML_DONE \<or> ev_pending_eof e then call_handler handler st a
                                        else Some st } } } } }"

section \<open>The TLS handshake\<close>

text \<open>
  \<open>ssl_create\<close> with the address of the new object (\<open>None\<close> when one of the allocations or
  \<open>SSL_set_fd\<close> fails).
\<close>

definition zero_ssl :: ssl_connection_s where
  "zero_ssl = \<lparr>ssl_saved_read_handler = NoHandler, ssl_saved_write_handler = NoHandler, ssl_last = 0, ssl_handshaked = False\<rparr>"

definition watch :: "'k epoll_ctl \<Rightarrow> ('k, 'a) http_state_scheme \<Rightarrow> addr \<Rightarrow> u32 \<Rightarrow> (int \<times> ('k, 'a) http_state_scheme) option" where
  "watch ctl st ev event =
     do { e \<leftarrow> events st ev; if \<not> ev_active e then io_event_add ctl st ev event CLEAR_EVENT else Some (0, st) }"

definition ssl_create :: "'k epoll_ctl \<Rightarrow> ('k, 'a) http_state_scheme \<Rightarrow> addr \<Rightarrow> addr option \<Rightarrow> (int \<times> ('k, 'a) http_state_scheme) option" where
  "ssl_create ctl st c new =
     (case new of
        None \<Rightarrow> Some (- 1, st)
      | Some s \<Rightarrow>
          do { conn \<leftarrow> conns st c;
               st \<leftarrow> upd_event st (c_read conn) (ev_handler_update (\<lambda>_. H_ssl_handshake_handler));
               st \<leftarrow> upd_event st (c_write conn) (ev_handler_update (\<lambda>_. H_ssl_handshake_handler));
               (r, st) \<leftarrow> watch ctl st (c_write conn) WRITE_EVENT;
               if r \<noteq> 0 then Some (- 1, st)
               else do {
                 (r, st) \<leftarrow> watch ctl st (c_read conn) READ_EVENT;
                 if r \<noteq> 0 then Some (- 1, st)
                 else do { st \<leftarrow> Some (st\<lparr>ssls := (ssls st)(s \<mapsto> zero_ssl)\<rparr>);
                           st \<leftarrow> upd_conn st c (c_ssl_update (\<lambda>_. s));
                           Some (0, st) } } })"

text \<open>\<open>http_ssl_handshake\<close> with the answer of \<open>SSL_connect\<close>: \<open>None\<close> for success, else the SSL error.\<close>

definition http_ssl_handshake :: "'k epoll_ctl \<Rightarrow> ('k, 'a) http_state_scheme \<Rightarrow> addr \<Rightarrow> addr option \<Rightarrow> int option \<Rightarrow>
    (int \<times> ('k, 'a) http_state_scheme) option" where
  "http_ssl_handshake ctl st c new answer =
     do { conn \<leftarrow> conns st c;
          (r, st) \<leftarrow> (if c_ssl conn = 0 then ssl_create ctl st c new else Some (0, st));
          if r < 0 then Some (- 1, st)
          else do {
            conn \<leftarrow> conns st c;
            case answer of
              None \<Rightarrow>
                do { st \<leftarrow> upd_ssl st (c_ssl conn) (ssl_handshaked_update (\<lambda>_. True));
                     st \<leftarrow> upd_conn st c (\<lambda>x. x\<lparr>c_recv := R_ssl_recv, c_send := S_ssl_send\<rparr>);
                     Some (0, st) }
            | Some sslerr \<Rightarrow>
                if sslerr = SSL_ERROR_WANT_READ \<or> sslerr = SSL_ERROR_WANT_WRITE then Some (EAGAIN, st)
                else Some (- 1, st) } }"

definition ssl_handshake_handler :: "('k, 'a) client_handler \<Rightarrow> 'k epoll_ctl \<Rightarrow> ('k, 'a) http_state_scheme \<Rightarrow> addr \<Rightarrow> addr option \<Rightarrow>
    int option \<Rightarrow> (('k, 'a) http_state_scheme) option" where
  "ssl_handshake_handler handler ctl st ev new answer =
     do { e \<leftarrow> events st ev;
          c \<leftarrow> Some (ev_data e);
          conn \<leftarrow> conns st c;
          a \<leftarrow> Some (c_data conn);
          if ev_timedout e then call_handler handler st a
          else do {
            (rc, st) \<leftarrow> http_ssl_handshake ctl st c new answer;
            if rc = EAGAIN then event_add_timer st (c_write conn) TIMEOUT_SSL
            else if rc < 0 then call_handler handler st a
            else do {
              conn \<leftarrow> conns st c;
              ssl \<leftarrow> ssls st (c_ssl conn);
              if ssl_handshaked ssl
              then do { st \<leftarrow> upd_event st (c_write conn) (ev_handler_update (\<lambda>_. H_http_write_event_process));
                        event_add_timer st (c_write conn) TIMEOUT_SEND }
              else Some st } } }"

section \<open>Opening and releasing a client\<close>

text \<open>
  The system calls of \<open>http_conn\<close>: the new descriptor (negative on failure), the result of setting
  it non-blocking, and \<open>errno\<close> of \<open>connect\<close> (0 when it succeeds).
\<close>

record dial =
  d_fd :: int
  d_nonblocking :: int
  d_connect :: int

definition EINPROGRESS :: int where "EINPROGRESS = 115"

definition http_conn :: "'k epoll_ctl \<Rightarrow> (int \<Rightarrow> 'k \<Rightarrow> 'k) \<Rightarrow> ('k, 'a) http_state_scheme \<Rightarrow> addr \<Rightarrow> dial \<Rightarrow>
    (int \<times> ('k, 'a) http_state_scheme) option" where
  "http_conn ctl close st a d =
     (if d_fd d < 0 then Some (- 1, st)
      else do {
        (c, st) \<leftarrow> get_connection st (d_fd d);
        if c = 0 then Some (- 1, st\<lparr>kern := close (d_fd d) (kern st)\<rparr>)
        else if d_nonblocking d < 0 then do { st \<leftarrow> io_close ctl close st c; Some (- 1, st) }
        else do {
          conn \<leftarrow> conns st c;
          cl \<leftarrow> clients st a;
          wev \<leftarrow> Some (c_write conn);
          st \<leftarrow> upd_conn st c (\<lambda>x. x\<lparr>c_recv := R_unix_recv, c_send := S_unix_send\<rparr>);
          st \<leftarrow> upd_event st wev (ev_handler_update (\<lambda>_. if cl_ssl_flag cl then H_ssl_handshake_handler else H_http_write_event_process));
          st \<leftarrow> upd_conn st c (c_data_update (\<lambda>_. a));
          (r, st) \<leftarrow> io_event_add ctl st wev WRITE_EVENT CLEAR_EVENT;
          if r < 0 then do { st \<leftarrow> io_close ctl close st c; Some (- 1, st) }
          else if d_connect d \<noteq> 0 \<and> d_connect d \<noteq> EINPROGRESS
          then do { st \<leftarrow> io_close ctl close st c; Some (- 1, st) }
          else do {
            st \<leftarrow> (if d_connect d \<noteq> 0 then event_add_timer st wev TIMEOUT_CONN else Some st);
            st \<leftarrow> upd_client st a (\<lambda>x. x\<lparr>cl_connection := c, cl_status := HTTP_CONN_DONE\<rparr>);
            Some (0, st) } } })"

text \<open>
  \<open>http_client_retrieve\<close> releases the TLS object, closes the connection and frees the client with
  everything it holds; the header and chunk queues are emptied by the loop \<open>queue_drain\<close>.
\<close>

definition http_client_retrieve :: "'k epoll_ctl \<Rightarrow> (int \<Rightarrow> 'k \<Rightarrow> 'k) \<Rightarrow> ('k, 'a) http_state_scheme \<Rightarrow> addr \<Rightarrow>
    (('k, 'a) http_state_scheme) option" where
  "http_client_retrieve ctl close st a =
     do { cl \<leftarrow> clients st a;
          st \<leftarrow> (if cl_connection cl = 0 then Some st
                else do {
                  conn \<leftarrow> conns st (cl_connection cl);
                  st \<leftarrow> (if c_ssl conn = 0 then Some st
                        else if ssls st (c_ssl conn) = None then None
                        else upd_conn (st\<lparr>ssls := (ssls st)(c_ssl conn := None)\<rparr>) (cl_connection cl) (c_ssl_update (\<lambda>_. 0)));
                  io_close ctl close st (cl_connection cl) });
          Some (st\<lparr>clients := (clients st)(a := None)\<rparr>) }"

text \<open>
  \<open>http_client_create\<close> with the address the first allocation returns; the result is the state and
  whether the URL was freed.
\<close>

definition http_client_create :: "('k, 'a) client_handler \<Rightarrow> 'k epoll_ctl \<Rightarrow> (int \<Rightarrow> 'k \<Rightarrow> 'k) \<Rightarrow> ('k, 'a) http_state_scheme \<Rightarrow>
    addr \<Rightarrow> http_url_s \<Rightarrow> bool \<Rightarrow> dial \<Rightarrow> (bool \<times> ('k, 'a) http_state_scheme) option" where
  "http_client_create handler ctl close st a url has_handler d =
     (let (ok1, m) = calloc_ok (mem_script st)
      in if \<not> ok1 then Some (True, st\<lparr>mem_script := m\<rparr>)
         else let (ok2, m) = calloc_ok m
              in if \<not> ok2 then Some (True, st\<lparr>mem_script := m\<rparr>)
                 else do {
                   st \<leftarrow> Some (st\<lparr>mem_script := m, clients := (clients st)(a \<mapsto>
                     \<lparr>cl_status = HTTP_CONN_DONE, cl_url = url, cl_connection = 0, cl_req = None, cl_recv = None, cl_head = None,
                      cl_html = None, cl_ssl_flag = (u_schema url = cstr ''https''), cl_handler = has_handler\<rparr>)\<rparr>);
                   (r, st) \<leftarrow> http_conn ctl close st a d;
                   st \<leftarrow> (if r < 0 then call_handler handler st a else Some st);
                   Some (False, st) })"

section \<open>The receive loop\<close>

text \<open>
  What a script of socket answers delivers up to the answer that ends the loop, what is left of it
  then, and whether that answer is an error. \<open>feed_ok\<close> says that the answers fit the room the buffer
  has (it grows when it is full) and that one of them ends the loop.
\<close>

fun fed :: "answer list \<Rightarrow> bytes" where
  "fed (Received bs # sc) = (if bs = [] then [] else bs @ fed sc)"
| "fed (Failed err # sc) = (if err = EINTR then fed sc else [])"
| "fed _ = []"

fun fed_rest :: "answer list \<Rightarrow> answer list" where
  "fed_rest (Received bs # sc) = (if bs = [] then sc else fed_rest sc)"
| "fed_rest (Failed err # sc) = (if err = EINTR then fed_rest sc else sc)"
| "fed_rest sc = sc"

fun fed_error :: "answer list \<Rightarrow> bool" where
  "fed_error (Received bs # sc) \<longleftrightarrow> bs \<noteq> [] \<and> fed_error sc"
| "fed_error (Failed err # sc) \<longleftrightarrow> (if err = EINTR then fed_error sc else err \<noteq> EAGAIN)"
| "fed_error _ \<longleftrightarrow> False"

definition grown :: "nat \<Rightarrow> nat \<Rightarrow> nat" where
  "grown n l = (if l = n then new_range n else n)"

fun feed_ok :: "nat \<Rightarrow> nat \<Rightarrow> answer list \<Rightarrow> bool" where
  "feed_ok n l (Received bs # sc) \<longleftrightarrow> length bs \<le> grown n l - l \<and> (bs \<noteq> [] \<longrightarrow> feed_ok (grown n l) (l + length bs) sc)"
| "feed_ok n l (Failed err # sc) \<longleftrightarrow> (err = EINTR \<longrightarrow> feed_ok n l sc)"
| "feed_ok n l _ \<longleftrightarrow> False"

lemma grown_le: "buf_ok b \<Longrightarrow> grown (length (b_data b)) (b_last b) \<le> max (length (b_data b)) (2 * b_last b)"
  by (auto simp: grown_def new_range_def BASE_RANGE_def)

text \<open>The events of a connection, up to the flags that input and output set.\<close>

definition io_same :: "event_s \<Rightarrow> event_s \<Rightarrow> bool" where
  "io_same e e' \<longleftrightarrow> e' = e\<lparr>ev_ready := ev_ready e', ev_eof := ev_eof e', ev_error := ev_error e'\<rparr>"

lemma io_same_refl [simp]: "io_same e e"
  by (simp add: io_same_def)

lemma io_same_trans: "io_same e e' \<Longrightarrow> io_same e' e'' \<Longrightarrow> io_same e e''"
  by (cases e; cases e'; cases e'') (simp add: io_same_def)

lemma io_same_fields:
  "io_same e e' \<Longrightarrow> ev_data e' = ev_data e \<and> ev_active e' = ev_active e \<and> ev_timedout e' = ev_timedout e \<and>
    ev_timer_set e' = ev_timer_set e \<and> ev_pending_eof e' = ev_pending_eof e \<and> ev_handler e' = ev_handler e"
  by (cases e; cases e') (simp add: io_same_def)

text \<open>Growing the buffer when it is full.\<close>

lemma grow_ok:
  assumes "buf_ok b"
  obtains b' where "(if b_last b = length (b_data b) then resize_temp_buf junk b [] else (0, b, [])) = (0, b', [])"
    "buf_ok b'" "filled b' = filled b" "b_last b' = b_last b" "b_pos b' = b_pos b" "length (b_data b') = grown (length (b_data b)) (b_last b)"
proof (cases "b_last b = length (b_data b)")
  case True
  let ?b = "b\<lparr>b_data := b_data b @ map junk [length (b_data b)..<new_range (length (b_data b))]\<rparr>"
  have "length (b_data b) < new_range (length (b_data b))" using assms by (intro new_range_greater) (simp add: buf_ok_def)
  then show thesis using True assms that [of ?b] by (simp add: resize_temp_buf_nil buf_ok_def filled_def grown_def)
next
  case False
  then show thesis using assms that [of b] by (simp add: grown_def)
qed

lemma recv_loop_step:
  assumes "mem_script st = []" "(if b_last b = length (b_data b) then resize_temp_buf junk b [] else (0, b, [])) = (0, b1, [])"
    and "conn_recv ctl st c (length (b_data b1) - b_last b1) = Some (n, bs, st1)"
    and "(if n > 0 then append_buf b1 bs else Some b1) = Some b2"
  shows "recv_loop junk ctl st c b rt =
    (if n = - EAGAIN \<or> n = 0 then Some (Some (rt \<or> n > 0), b2, st1)
     else if n = - 1 then Some (None, b2, st1) else recv_loop junk ctl st1 c b2 (rt \<or> n > 0))"
proof -
  have same: "st\<lparr>mem_script := []\<rparr> = st" using assms(1) by simp
  show ?thesis
    unfolding recv_loop.simps [of junk ctl st c b rt] assms(1,2) prod.case same by (simp add: assms(3,4))
qed

lemma conn_recv_ref:
  assumes "conns st c = Some conn" "c_recv conn = R_unix_recv" "events st (c_read conn) = Some e"
    "dropWhile eintr (script st) = a # rest"
  shows "conn_recv ctl st c sz = map_option (\<lambda>(n, bs, st). (n, bs, st\<lparr>script := rest\<rparr>)) (recv_ref st (c_read conn) e sz a)"
  using assms unix_recv_ref [OF assms(1,3,4), of sz]
  by (cases "recv_ref st (c_read conn) e sz a") (auto simp: conn_recv_def)

lemma feed_ok_real:
  assumes "feed_ok n l sc"
  obtains a rest where "dropWhile eintr sc = a # rest" "feed_ok n l (a # rest)" "\<not> eintr a" "fed sc = fed (a # rest)"
    "fed_rest sc = fed_rest (a # rest)" "fed_error sc = fed_error (a # rest)" "length (a # rest) \<le> length sc"
proof -
  have "\<exists>a rest. dropWhile eintr sc = a # rest \<and> feed_ok n l (a # rest) \<and> \<not> eintr a \<and> fed sc = fed (a # rest) \<and>
    fed_rest sc = fed_rest (a # rest) \<and> fed_error sc = fed_error (a # rest) \<and> length (a # rest) \<le> length sc"
    using assms
  proof (induction sc)
    case (Cons x sc)
    show ?case
    proof (cases "eintr x")
      case True
      then obtain a rest where "dropWhile eintr sc = a # rest" "feed_ok n l (a # rest)" "\<not> eintr a" "fed sc = fed (a # rest)"
        "fed_rest sc = fed_rest (a # rest)" "fed_error sc = fed_error (a # rest)" "length (a # rest) \<le> length sc"
        using Cons by auto
      then show ?thesis using True by (intro exI [of _ a] exI [of _ rest]) simp
    next
      case False
      then show ?thesis using Cons.prems by (intro exI [of _ x] exI [of _ sc]) simp
    qed
  qed simp
  then show thesis using that by blast
qed

lemma recv_loop_ok:
  assumes "conns st c = Some conn" "c_recv conn = R_unix_recv" "events st (c_read conn) = Some e" "mem_script st = []"
    and "buf_ok b" "feed_ok (length (b_data b)) (b_last b) (script st)"
  shows "\<exists>b' e'. recv_loop junk ctl st c b rt =
      Some (if fed_error (script st) then None else Some (rt \<or> fed (script st) \<noteq> []), b',
        st\<lparr>events := (events st)(c_read conn \<mapsto> e'), script := fed_rest (script st)\<rparr>) \<and>
    buf_ok b' \<and> filled b' = filled b @ fed (script st) \<and> b_pos b' = b_pos b \<and> io_same e e' \<and>
    b_last b' = b_last b + length (fed (script st)) \<and> length (b_data b') \<le> max (length (b_data b)) (2 * b_last b')"
  using assms
proof (induction "length (script st)" arbitrary: st e b rt rule: less_induct)
  case less
  note prems = less(2-7)
  obtain a rest where a: "dropWhile eintr (script st) = a # rest" "feed_ok (length (b_data b)) (b_last b) (a # rest)" "\<not> eintr a"
    "fed (script st) = fed (a # rest)" "fed_rest (script st) = fed_rest (a # rest)" "fed_error (script st) = fed_error (a # rest)"
    "length (a # rest) \<le> length (script st)"
    using prems(6) by (rule feed_ok_real)
  obtain b1 where b1: "(if b_last b = length (b_data b) then resize_temp_buf junk b [] else (0, b, [])) = (0, b1, [])"
    "buf_ok b1" "filled b1 = filled b" "b_last b1 = b_last b" "b_pos b1 = b_pos b"
    "length (b_data b1) = grown (length (b_data b)) (b_last b)"
    using prems(5) by (rule grow_ok)
  let ?r = "c_read conn" and ?sz = "length (b_data b1) - b_last b1"
  note cr = conn_recv_ref [OF prems(1-3) a(1), of ctl ?sz]
  show ?case
  proof (cases a)
    case (Received bs)
    have fits: "length bs \<le> ?sz" using a(2) Received b1(4,6) by simp
    show ?thesis
    proof (cases "bs = []")
      case True
      let ?st = "st\<lparr>events := (events st)(?r \<mapsto> e\<lparr>ev_ready := False, ev_eof := True\<rparr>), script := rest\<rparr>"
      have rec: "conn_recv ctl st c ?sz = Some (0, [], ?st)" using cr True Received by (simp add: recv_ref_def)
      have "recv_loop junk ctl st c b rt = Some (Some rt, b1, ?st)"
        using recv_loop_step [OF prems(4) b1(1) rec, of b1 rt] by simp
      moreover have "io_same e (e\<lparr>ev_ready := False, ev_eof := True\<rparr>)" by (simp add: io_same_def)
      moreover have "length (b_data b1) \<le> max (length (b_data b)) (2 * b_last b1)" using grown_le b1(4,6) prems(5) by simp
      ultimately show ?thesis using True Received a(4-6) b1
        by (intro exI [of _ b1] exI [of _ "e\<lparr>ev_ready := False, ev_eof := True\<rparr>"]) simp
    next
      case False
      let ?e = "if length bs < ?sz then e\<lparr>ev_ready := False\<rparr> else e"
      let ?st = "st\<lparr>events := (events st)(?r \<mapsto> ?e), script := rest\<rparr>"
      have "b_last b1 + length bs \<le> length (b_data b1)" using fits b1(2) unfolding buf_ok_def by linarith
      from append_buf_ok [OF b1(2) this] obtain b2 where b2: "append_buf b1 bs = Some b2" "buf_ok b2"
        "filled b2 = filled b1 @ bs" "b_last b2 = b_last b1 + length bs" "b_pos b2 = b_pos b1" "length (b_data b2) = length (b_data b1)"
        by blast
      have rec: "conn_recv ctl st c ?sz = Some (int (length bs), bs, ?st)"
        using cr Received fits False by (simp add: recv_ref_def)
      have "recv_loop junk ctl st c b rt = recv_loop junk ctl ?st c b2 True"
        by (subst recv_loop_step [OF prems(4) b1(1) rec]) (use b2(1) False in \<open>simp_all add: io_consts\<close>)
      moreover have "\<exists>b' e'. recv_loop junk ctl ?st c b2 True =
          Some (if fed_error (script ?st) then None else Some (True \<or> fed (script ?st) \<noteq> []), b',
            ?st\<lparr>events := (events ?st)(?r \<mapsto> e'), script := fed_rest (script ?st)\<rparr>) \<and>
        buf_ok b' \<and> filled b' = filled b2 @ fed (script ?st) \<and> b_pos b' = b_pos b2 \<and> io_same ?e e' \<and>
        b_last b' = b_last b2 + length (fed (script ?st)) \<and> length (b_data b') \<le> max (length (b_data b2)) (2 * b_last b')"
        by (rule less(1)) (use prems a(2,7) b1 b2 Received False in auto)
      then obtain b' e' where i: "recv_loop junk ctl ?st c b2 True =
          Some (if fed_error (script ?st) then None else Some (True \<or> fed (script ?st) \<noteq> []), b',
            ?st\<lparr>events := (events ?st)(?r \<mapsto> e'), script := fed_rest (script ?st)\<rparr>)"
        "buf_ok b'" "filled b' = filled b2 @ fed (script ?st)" "b_pos b' = b_pos b2" "io_same ?e e'"
        "b_last b' = b_last b2 + length (fed (script ?st))" "length (b_data b') \<le> max (length (b_data b2)) (2 * b_last b')"
        by blast
      moreover have "io_same e e'" using i(5) by (rule io_same_trans [rotated]) (simp add: io_same_def)
      moreover have "length (b_data b2) \<le> max (length (b_data b)) (2 * b_last b')"
      proof -
        have "length (b_data b2) \<le> max (length (b_data b)) (2 * b_last b)" using grown_le b1(6) b2(6) prems(5) by simp
        also have "\<dots> \<le> max (length (b_data b)) (2 * b_last b')" using b1(4) b2(4) i(6) by simp
        finally show ?thesis .
      qed
      ultimately show ?thesis
        using a(4-6) Received False b1 b2 by (intro exI [of _ b'] exI [of _ e']) auto
    qed
  next
    case (Failed err)
    let ?st = "st\<lparr>events := (events st)(?r \<mapsto> if err = EAGAIN then e\<lparr>ev_ready := False\<rparr> else e\<lparr>ev_ready := False, ev_error := True\<rparr>),
      script := rest\<rparr>"
    have rec: "conn_recv ctl st c ?sz = Some (if err = EAGAIN then - EAGAIN else - 1, [], ?st)"
      using cr Failed by (simp add: recv_ref_def)
    have "recv_loop junk ctl st c b rt = Some (if err = EAGAIN then Some rt else None, b1, ?st)"
      using recv_loop_step [OF prems(4) b1(1) rec, of b1 rt] by (simp add: io_consts)
    moreover have "io_same e (if err = EAGAIN then e\<lparr>ev_ready := False\<rparr> else e\<lparr>ev_ready := False, ev_error := True\<rparr>)"
      by (simp add: io_same_def)
    moreover have "length (b_data b1) \<le> max (length (b_data b)) (2 * b_last b1)" using grown_le b1(4,6) prems(5) by simp
    ultimately show ?thesis using Failed a(3-6) b1
      by (intro exI [of _ b1] exI [of _ "if err = EAGAIN then e\<lparr>ev_ready := False\<rparr> else e\<lparr>ev_ready := False, ev_error := True\<rparr>"])
        simp
  qed (use a(2) in simp_all)
qed

section \<open>Receiving a page\<close>

text \<open>Arming a timer changes the clock, the tree and the event's \<open>timer_set\<close> flag only.\<close>

lemma del_timer_frame:
  assumes "event_del_timer st ev = Some st'"
  shows "\<exists>H tree e. events st ev = Some e \<and> st' = st\<lparr>theap := H, ttree := tree, events := (events st)(ev \<mapsto> e\<lparr>ev_timer_set := False\<rparr>)\<rparr>"
  using assms by (auto simp: event_del_timer_def upd_event_def bind_eq_Some_conv split: option.splits)

lemma timer_link_frame:
  assumes "timer_link st ev k = Some st'"
  shows "\<exists>H tree e. events st ev = Some e \<and> st' = st\<lparr>theap := H, ttree := tree, events := (events st)(ev \<mapsto> e\<lparr>ev_timer_set := True\<rparr>)\<rparr>"
  using assms by (auto simp: timer_link_def upd_event_def bind_eq_Some_conv split: option.splits)

lemma add_timer_frame:
  assumes "event_add_timer st ev t = Some st'" "events st ev = Some e"
  shows "\<exists>H tree n f. st' = st\<lparr>theap := H, ttree := tree, events := (events st)(ev \<mapsto> e\<lparr>ev_timer_set := f\<rparr>), ticks := n\<rparr>"
proof -
  let ?st = "st\<lparr>ticks := Suc (ticks st)\<rparr>"
  from assms consider "st' = ?st" "ev_timer_set e" | k where "timer_link ?st ev k = Some st'"
    | k st1 where "event_del_timer ?st ev = Some st1" "timer_link st1 ev k = Some st'"
    by (auto simp: event_add_timer_def gettimeofday_def bind_eq_Some_conv split: if_splits)
  then show ?thesis
  proof cases
    case 1
    have "st' = st\<lparr>theap := theap st, ttree := ttree st, events := (events st)(ev \<mapsto> e\<lparr>ev_timer_set := True\<rparr>), ticks := Suc (ticks st)\<rparr>"
      using 1 assms(2) by (cases e) (simp add: fun_upd_idem)
    then show ?thesis by blast
  next
    case 2
    from timer_link_frame [OF 2] assms(2) obtain H tree where
      "st' = ?st\<lparr>theap := H, ttree := tree, events := (events st)(ev \<mapsto> e\<lparr>ev_timer_set := True\<rparr>)\<rparr>" by auto
    then have "st' = st\<lparr>theap := H, ttree := tree, events := (events st)(ev \<mapsto> e\<lparr>ev_timer_set := True\<rparr>), ticks := Suc (ticks st)\<rparr>"
      by (cases st) simp
    then show ?thesis by blast
  next
    case 3
    from del_timer_frame [OF 3(1)] assms(2) obtain H1 t1 where
      "st1 = ?st\<lparr>theap := H1, ttree := t1, events := (events st)(ev \<mapsto> e\<lparr>ev_timer_set := False\<rparr>)\<rparr>" by auto
    with timer_link_frame [OF 3(2)] obtain H tree where
      "st' = ?st\<lparr>theap := H, ttree := tree, events := (events st)(ev \<mapsto> e\<lparr>ev_timer_set := True\<rparr>)\<rparr>" by auto
    then have "st' = st\<lparr>theap := H, ttree := tree, events := (events st)(ev \<mapsto> e\<lparr>ev_timer_set := True\<rparr>), ticks := Suc (ticks st)\<rparr>"
      by (cases st) simp
    then show ?thesis by blast
  qed
qed

text \<open>The state a client is in when its request has been sent and nothing been received.\<close>

definition awaiting :: "('k, 'a) http_state_scheme \<Rightarrow> addr \<Rightarrow> addr \<Rightarrow> bool" where
  "awaiting st ev a \<longleftrightarrow> (case events st ev of None \<Rightarrow> False | Some e \<Rightarrow> \<not> ev_timedout e \<and>
     (case conns st (ev_data e) of None \<Rightarrow> False | Some conn \<Rightarrow> c_read conn = ev \<and> c_data conn = a \<and> c_recv conn = R_unix_recv)) \<and>
     (case clients st a of None \<Rightarrow> False | Some cl \<Rightarrow> cl_status cl = HTTP_REQ_DONE \<and> cl_recv cl = None \<and> cl_head cl = None \<and>
       cl_html cl = None \<and> cl_handler cl) \<and> mem_script st = []"

text \<open>A response: the head, announcing a chunked and uncompressed body, and the body.\<close>

record response =
  r_version :: bytes
  r_reason :: bytes
  r_headers :: "(bytes \<times> bytes) list"
  r_chunks :: "(bytes \<times> bytes) list"
  r_zero :: bytes
  r_rest :: bytes

definition response_bytes :: "response \<Rightarrow> bytes" where
  "response_bytes r = head_bytes (r_version r) (cstr ''200'') (r_reason r) (r_headers r) @
     concat (map chunk_bytes (r_chunks r)) @ r_zero r @ [13, 10] @ r_rest r"

definition wf_response :: "response \<Rightarrow> bool" where
  "wf_response r \<longleftrightarrow> free_of [32, 13, 10] (r_version r) \<and> free_of [13, 10] (r_reason r) \<and> (\<forall>h\<in>set (r_headers r). wf_header h) \<and>
     says ''Transfer-Encoding'' ''chunked'' (r_headers r) \<and> \<not> says ''Content-Encoding'' ''gzip'' (r_headers r) \<and>
     (\<forall>c\<in>set (r_chunks r). wf_chunk c) \<and> (\<forall>x\<in>set (r_zero r). hex_char x) \<and> hex_nat 0 (r_zero r) = 0"

lemma code_200: "free_of [32, 13, 10, 0] (cstr ''200'')" "length (cstr ''200'') < 1024"
  by (simp_all add: free_of_def cstr_def of_char_def)

lemma process_response_page:
  assumes r: "wf_response r" and cl: "cl_status cl = HTTP_REQ_DONE" "cl_recv cl = Some b" "cl_head cl = None" "cl_html cl = None"
    and b: "b_pos b = 0" "b_last b \<le> length (b_data b)" "length (b_data b) < 2 ^ 32" "filled b = response_bytes r"
    and z: "zlib_spec inflate pending" "inflateInit2 (concat (map snd (r_chunks r)) @ [junk (length (concat (map snd (r_chunks r))))]) = Some z"
  shows "\<exists>cl' mc html. http_process_response junk inflateInit2 inflate cl [] = Some (0, cl', []) \<and> cl_status cl' = HTTP_HTML_DONE \<and>
    cl_handler cl' = cl_handler cl \<and> cl_html cl' = Some mc \<and> mc_html mc = Some html \<and> filled html = concat (map snd (r_chunks r))"
proof -
  let ?head = "head_bytes (r_version r) (cstr ''200'') (r_reason r) (r_headers r)"
  let ?body = "concat (map chunk_bytes (r_chunks r)) @ r_zero r @ [13, 10] @ r_rest r"
  have d: "take (b_last b) (b_data b) = ?head @ ?body" using b(4) by (simp add: filled_def response_bytes_def)
  have w: "free_of [32, 13, 10] (r_version r)" "free_of [13, 10] (r_reason r)" "\<forall>h\<in>set (r_headers r). wf_header h"
    "\<forall>c\<in>set (r_chunks r). wf_chunk c" "\<forall>x\<in>set (r_zero r). hex_char x" "hex_nat 0 (r_zero r) = 0"
    using r by (simp_all add: wf_response_def)
  from parse_head_ok [OF cl(2,3) b(1,3) d w(1) code_200 w(2,3)] r obtain hc where
    h: "http_parse_head cl [] = Some (0, cl\<lparr>cl_status := HTTP_HEAD_DONE, cl_recv := Some (b\<lparr>b_pos := length ?head\<rparr>), cl_head := Some hc\<rparr>, [])"
    "hc_chunk_flag hc" "\<not> hc_gzip_flag hc" by (auto simp: wf_response_def)
  let ?b = "b\<lparr>b_pos := length ?head\<rparr>"
  let ?cl = "cl\<lparr>cl_status := HTTP_HEAD_DONE, cl_recv := Some ?b, cl_head := Some hc\<rparr>"
  have c: "cl_head ?cl = Some hc" "cl_recv ?cl = Some ?b" "cl_html ?cl = None" "hc_chunk_flag hc" using cl h by simp_all
  have e: "take (b_last ?b) (b_data ?b) = ?head @ concat (map chunk_bytes (r_chunks r)) @ r_zero r @ [13, 10] @ r_rest r"
    "b_pos ?b = length ?head" "length (b_data ?b) < 2 ^ 32" "b_last ?b \<le> length (b_data ?b)" using d b by simp_all
  have "\<exists>cl' mc html. http_parse_html junk inflateInit2 inflate ?cl [] = Some (0, cl', []) \<and> cl_status cl' = HTTP_HTML_DONE \<and>
      cl_handler cl' = cl_handler ?cl \<and> cl_html cl' = Some mc \<and> mc_html mc = Some html \<and>
      filled html = (if hc_gzip_flag hc then pending z @ [0] else concat (map snd (r_chunks r)))"
    by (rule parse_html_chunked [where ?inflateInit2.0 = inflateInit2 and junk = junk, OF c w(4-6) e z])
  then obtain cl' mc html where p: "http_parse_html junk inflateInit2 inflate ?cl [] = Some (0, cl', [])" "cl_status cl' = HTTP_HTML_DONE"
    "cl_handler cl' = cl_handler cl" "cl_html cl' = Some mc" "mc_html mc = Some html" "filled html = concat (map snd (r_chunks r))"
    using h(3) by auto
  have "http_process_response junk inflateInit2 inflate cl [] = Some (0, cl', [])"
    using cl(1) h(1) p(1) by (simp add: http_process_response_def)
  then show ?thesis using p by blast
qed

lemma awaitingE:
  assumes "awaiting st ev a"
  obtains e conn cl where "events st ev = Some e" "\<not> ev_timedout e" "conns st (ev_data e) = Some conn" "c_read conn = ev"
    "c_data conn = a" "c_recv conn = R_unix_recv" "clients st a = Some cl" "cl_status cl = HTTP_REQ_DONE" "cl_recv cl = None"
    "cl_head cl = None" "cl_html cl = None" "cl_handler cl" "mem_script st = []"
  using assms by (auto simp: awaiting_def split: option.splits)

lemma timers_ok_conn_frame [simp]:
  "timers_ok b (st\<lparr>script := x\<rparr>) evs = timers_ok b st evs" "timers_ok b (st\<lparr>clients := y\<rparr>) evs = timers_ok b st evs"
  "timers_ok b (st\<lparr>conns := z\<rparr>) evs = timers_ok b st evs" "timers_ok b (st\<lparr>kern := w\<rparr>) evs = timers_ok b st evs"
  "timers_ok b (st\<lparr>mem_script := v\<rparr>) evs = timers_ok b st evs" "timers_ok b (st\<lparr>ssls := u\<rparr>) evs = timers_ok b st evs"
  by (simp_all add: timers_ok_def)

lemma read_page:
  assumes aw: "awaiting st ev a" and r: "wf_response r" "length (response_bytes r) < 2 ^ 31"
    and sc: "feed_ok BASE_RANGE 0 (script st)" "\<not> fed_error (script st)" "fed (script st) = response_bytes r"
    and t: "timers_ok b st evs" "pos b (msec (clock st (ticks st)) + TIMEOUT_RECV) < 2 ^ 31"
    and z: "zlib_spec inflate pending" "inflateInit2 (concat (map snd (r_chunks r)) @ [junk (length (concat (map snd (r_chunks r))))]) = Some z"
  shows "\<exists>st' cl mc html evs'. http_read_event_process handler junk inflateInit2 inflate ctl st ev = handler a st' \<and>
    clients st' a = Some cl \<and> cl_status cl = HTTP_HTML_DONE \<and> cl_html cl = Some mc \<and> mc_html mc = Some html \<and>
    filled html = concat (map snd (r_chunks r)) \<and> timers_ok b st' evs' \<and> set evs' = insert ev (set evs)"
proof -
  obtain e conn cl where w: "events st ev = Some e" "\<not> ev_timedout e" "conns st (ev_data e) = Some conn" "c_read conn = ev"
    "c_data conn = a" "c_recv conn = R_unix_recv" "clients st a = Some cl" "cl_status cl = HTTP_REQ_DONE" "cl_recv cl = None"
    "cl_head cl = None" "cl_html cl = None" "cl_handler cl" "mem_script st = []"
    using aw by (rule awaitingE)
  let ?b0 = "\<lparr>b_data = replicate BASE_RANGE 0, b_last = 0, b_pos = 0\<rparr>"
  let ?st0 = "st\<lparr>mem_script := [], clients := (clients st)(a \<mapsto> cl\<lparr>cl_recv := Some ?b0\<rparr>)\<rparr>"
  have cb: "client_buf st a = Some (Some ?b0, ?st0)"
    using w by (simp add: client_buf_def create_temp_buf_def calloc_ok_def)
  have "buf_ok ?b0" by (simp add: buf_ok_def BASE_RANGE_def)
  have "\<exists>b' e'. recv_loop junk ctl ?st0 (ev_data e) ?b0 False =
      Some (if fed_error (script ?st0) then None else Some (False \<or> fed (script ?st0) \<noteq> []), b',
        ?st0\<lparr>events := (events ?st0)(c_read conn \<mapsto> e'), script := fed_rest (script ?st0)\<rparr>) \<and>
    buf_ok b' \<and> filled b' = filled ?b0 @ fed (script ?st0) \<and> b_pos b' = b_pos ?b0 \<and> io_same e e' \<and>
    b_last b' = b_last ?b0 + length (fed (script ?st0)) \<and> length (b_data b') \<le> max (length (b_data ?b0)) (2 * b_last b')"
    by (rule recv_loop_ok) (use w sc(1) \<open>buf_ok ?b0\<close> in simp_all)
  moreover have "response_bytes r \<noteq> []" by (simp add: response_bytes_def)
  ultimately obtain b' e' where l: "recv_loop junk ctl ?st0 (ev_data e) ?b0 False =
      Some (Some True, b', ?st0\<lparr>events := (events st)(ev \<mapsto> e'), script := fed_rest (script st)\<rparr>)"
    "buf_ok b'" "filled b' = response_bytes r" "b_pos b' = 0" "io_same e e'" "b_last b' = length (response_bytes r)"
    "length (b_data b') \<le> max BASE_RANGE (2 * b_last b')"
    using w(4) sc(2,3) by (auto simp: filled_def [of ?b0])
  let ?cl = "cl\<lparr>cl_recv := Some b'\<rparr>"
  let ?st1 = "?st0\<lparr>events := (events st)(ev \<mapsto> e'), script := fed_rest (script st)\<rparr>"
  let ?st2 = "?st1\<lparr>clients := (clients st)(a \<mapsto> ?cl)\<rparr>"
  have u: "upd_client ?st1 a (cl_recv_update (\<lambda>_. Some b')) = Some ?st2" by (simp add: upd_client_def)
  have "timers_ok b (set_event st ev e') evs" using t(1) w(1) io_same_fields [OF l(5)] by (intro timers_ok_event) simp_all
  then have t2: "timers_ok b ?st2 evs" by (simp add: timers_ok_def)
  have e2: "events ?st2 ev = Some e'" by simp
  have k2: "pos b (msec (clock ?st2 (ticks ?st2)) + TIMEOUT_RECV) < 2 ^ 31" using t(2) by simp
  obtain st3 evs' where st3: "event_add_timer ?st2 ev TIMEOUT_RECV = Some st3" "timers_ok b st3 evs'" "set evs' = insert ev (set evs)"
    using add_timer_ok [OF t2 e2 refl k2] by blast
  obtain H tree n f where st3': "st3 = ?st2\<lparr>theap := H, ttree := tree, events := (events ?st2)(ev \<mapsto> e'\<lparr>ev_timer_set := f\<rparr>), ticks := n\<rparr>"
    using add_timer_frame [OF st3(1) e2] by blast
  have c3: "clients st3 a = Some ?cl" "mem_script st3 = []" "events st3 ev = Some (e'\<lparr>ev_timer_set := f\<rparr>)" by (simp_all add: st3')
  have bb: "b_last b' \<le> length (b_data b')" using l(2) by (simp add: buf_ok_def)
  have "length (b_data b') < 2 ^ 32" using l(6,7) r(2) by (simp add: BASE_RANGE_def)
  with process_response_page [where ?inflateInit2.0 = inflateInit2 and junk = junk and cl = ?cl and b = b', OF r(1) _ _ _ _ l(4) bb _ l(3) z] w
  obtain cl' mc html where p: "http_process_response junk inflateInit2 inflate ?cl [] = Some (0, cl', [])" "cl_status cl' = HTTP_HTML_DONE"
    "cl_handler cl'" "cl_html cl' = Some mc" "mc_html mc = Some html" "filled html = concat (map snd (r_chunks r))" by auto
  let ?st4 = "st3\<lparr>clients := (clients st3)(a \<mapsto> cl'), mem_script := []\<rparr>"
  have cr: "client_response junk inflateInit2 inflate st3 a = Some (0, ?st4)" using c3 p(1) by (simp add: client_response_def)
  have ch: "call_handler handler ?st4 a = handler a ?st4" using p(3) by (simp add: call_handler_def)
  have "http_read_event_process handler junk inflateInit2 inflate ctl st ev = handler a ?st4"
    unfolding http_read_event_process_def
    using w cb l(1) u st3(1) cr ch c3(3) p(2) by simp
  moreover have "timers_ok b ?st4 evs'" using st3(2) by simp
  ultimately show ?thesis using p st3(3) by (intro exI [of _ ?st4] exI [of _ cl'] exI [of _ mc] exI [of _ html] exI [of _ evs']) simp
qed

section \<open>Clients and the pool\<close>

text \<open>
  \<open>touches b st c conn st'\<close>: of the connections and events only those of \<open>c\<close>, which is in use,
  differ between \<open>st\<close> and \<open>st'\<close>.
\<close>

definition touches :: "u32 \<Rightarrow> 'a conn_state_scheme \<Rightarrow> addr \<Rightarrow> connection_s \<Rightarrow> 'a conn_state_scheme \<Rightarrow> bool" where
  "touches b st c conn st' \<longleftrightarrow>
     (\<exists>conn'. conns st' = (conns st)(c \<mapsto> conn') \<and> c_read conn' = c_read conn \<and> c_write conn' = c_write conn \<and> c_fd conn' = c_fd conn) \<and>
     (\<forall>ev. ev \<noteq> c_read conn \<longrightarrow> ev \<noteq> c_write conn \<longrightarrow> events st' ev = events st ev) \<and>
     (\<forall>ev\<in>{c_read conn, c_write conn}. \<exists>e. events st' ev = Some e \<and> ev_data e = c) \<and>
     free_connections st' = free_connections st \<and> free_connection_n st' = free_connection_n st \<and> (\<exists>evs. timers_ok b st' evs)"

lemma pool_inv_change:
  fixes st st' :: "'a conn_state_scheme"
  assumes inv: "pool_inv b (st, k) free" and c: "conns st c = Some conn" "c \<notin> set free"
    and conn': "conns st' = (conns st)(c \<mapsto> conn')" "c_read conn' = c_read conn" "c_write conn' = c_write conn" "c_fd conn' = c_fd conn"
    and ev: "\<And>ev. ev \<noteq> c_read conn \<Longrightarrow> ev \<noteq> c_write conn \<Longrightarrow> events st' ev = events st ev"
      "events st' (c_read conn) \<noteq> None" "events st' (c_write conn) \<noteq> None"
    and fr: "free_connections st' = free_connections st" "free_connection_n st' = free_connection_n st" and t: "timers_ok b st' evs"
  shows "pool_inv b (st', k') free"
proof -
  have p: "pool_ok st free" "finite (dom (conns st))" "card (dom (conns st)) < 2 ^ 32"
    "\<forall>x y. conns st x = Some y \<longrightarrow> x \<notin> set free \<longrightarrow> c_fd y \<noteq> - 1"
    using inv by (simp_all add: pool_inv_def)
  have wf: "wf_conns st" using p(1) by (simp add: pool_ok_def)
  have "same_links st st'" using conn' c(1) ev by (auto simp: same_links_def) (metis not_Some_eq)+
  from wf_conns_same [OF wf this] have "wf_conns st'" .
  moreover have "idle st' x" if "x \<in> set free" for x
  proof -
    have "x \<noteq> c" using that c(2) by blast
    then have "idle st' x = idle st x" by (intro idle_other [OF wf c(1)]) (use conn'(1) ev(1) in auto)
    then show ?thesis using that p(1) by (simp add: pool_ok_def)
  qed
  ultimately have "pool_ok st' free"
    using p(1) c(2) conn'(1) fr by (simp add: pool_ok_def free_chain_upd)
  moreover have "dom (conns st') = dom (conns st)" using conn'(1) c(1) by auto
  moreover have "\<forall>x y. conns st' x = Some y \<longrightarrow> x \<notin> set free \<longrightarrow> c_fd y \<noteq> - 1" using conn' p(4) c by auto
  ultimately show ?thesis using p(2,3) t by (auto simp: pool_inv_def)
qed

lemma pool_inv_touches:
  assumes "pool_inv b (st, k) free" "conns st c = Some conn" "c \<notin> set free" "touches b st c conn st'"
  shows "pool_inv b (st', k') free"
proof -
  obtain conn' evs where t: "conns st' = (conns st)(c \<mapsto> conn')" "c_read conn' = c_read conn" "c_write conn' = c_write conn"
    "c_fd conn' = c_fd conn" "timers_ok b st' evs" using assms(4) by (auto simp: touches_def)
  have ev: "\<And>ev. ev \<noteq> c_read conn \<Longrightarrow> ev \<noteq> c_write conn \<Longrightarrow> events st' ev = events st ev"
    "events st' (c_read conn) \<noteq> None" "events st' (c_write conn) \<noteq> None"
    "free_connections st' = free_connections st" "free_connection_n st' = free_connection_n st"
    using assms(4) by (auto simp: touches_def)
  show ?thesis by (rule pool_inv_change [OF assms(1-3) t(1-4) ev t(5)])
qed

lemma touches_conn:
  assumes t: "touches b st c conn st1" and f: "\<And>x. c_read (f x) = c_read x \<and> c_write (f x) = c_write x \<and> c_fd (f x) = c_fd x"
  shows "\<exists>st2. upd_conn st1 c f = Some st2 \<and> touches b st c conn st2"
proof -
  obtain conn' where conn': "conns st1 = (conns st)(c \<mapsto> conn')" "c_read conn' = c_read conn" "c_write conn' = c_write conn"
    "c_fd conn' = c_fd conn" using t by (auto simp: touches_def)
  have "upd_conn st1 c f = Some (st1\<lparr>conns := (conns st)(c \<mapsto> f conn')\<rparr>)" using conn'(1) by (simp add: upd_conn_def)
  moreover have "touches b st c conn (st1\<lparr>conns := (conns st)(c \<mapsto> f conn')\<rparr>)"
    using t conn' f [of conn'] by (auto simp: touches_def timers_ok_def)
  ultimately show ?thesis by blast
qed

lemma touches_event:
  assumes t: "touches b st c conn st1" and ev: "ev = c_read conn \<or> ev = c_write conn"
    and f: "\<And>e. ev_data (f e) = ev_data e \<and> ev_timer_set (f e) = ev_timer_set e"
  shows "\<exists>st2. upd_event st1 ev f = Some st2 \<and> touches b st c conn st2"
proof -
  obtain e where e: "events st1 ev = Some e" using t ev by (auto simp: touches_def)
  obtain evs where evs: "timers_ok b st1 evs" using t by (auto simp: touches_def)
  have "timers_ok b (set_event st1 ev (f e)) evs" using f by (intro timers_ok_event [OF evs e]) simp
  then have "touches b st c conn (set_event st1 ev (f e))" using t ev e f [of e] by (auto simp: touches_def)
  then show ?thesis using e by (simp add: upd_event_def)
qed

lemma touches_add:
  fixes st st1 :: "('k, 'a) io_state_scheme"
  assumes t: "touches b st c conn st1" and ev: "ev = c_read conn \<or> ev = c_write conn"
  shows "\<exists>r st2. io_event_add ctl st1 ev event flags = Some (r, st2) \<and> touches b st c conn st2 \<and> (r = 0 \<or> r = - 1) \<and>
    io_state.more st2 = io_state.more st1 \<and> conns st2 = conns st1 \<and> clock st2 = clock st1 \<and> ticks st2 = ticks st1 \<and>
    (\<forall>x. map_option ev_handler (events st2 x) = map_option ev_handler (events st1 x))"
proof -
  obtain conn' where conn': "conns st1 c = Some conn'" "c_read conn' = c_read conn" "c_write conn' = c_write conn"
    using t by (auto simp: touches_def)
  obtain e where e: "events st1 ev = Some e" "ev_data e = c" using t ev by (auto simp: touches_def)
  obtain oe prev where o: "other_event conn' event = (oe, prev)" "oe = c_read conn \<or> oe = c_write conn"
    using conn' by (cases "event = READ_EVENT") (auto simp: other_event_def)
  obtain eo where eo: "events st1 oe = Some eo" using t o(2) by (auto simp: touches_def)
  obtain r k' where k: "ctl (if ev_active eo then EPOLL_CTL_MOD else EPOLL_CTL_ADD) (c_fd conn')
      ((if ev_active eo then event OR prev else event) OR flags) c (kern st1) = (r, k')" by fastforce
  let ?st2 = "set_event st1 ev (e\<lparr>ev_active := True\<rparr>)"
  have a: "io_event_add ctl st1 ev event flags = Some (if r = - 1 then (- 1, st1\<lparr>kern := k'\<rparr>) else (0, ?st2\<lparr>kern := k'\<rparr>))"
    using e conn'(1) o(1) eo k by (auto simp: io_event_add_def event_add_def upd_event_def)
  have "touches b st c conn ?st2"
    using touches_event [OF t ev, of "ev_active_update (\<lambda>_. True)"] e(1) by (simp add: upd_event_def)
  then have "touches b st c conn (?st2\<lparr>kern := k'\<rparr>)" "touches b st c conn (st1\<lparr>kern := k'\<rparr>)"
    using t by (simp_all add: touches_def timers_ok_def)
  then show ?thesis using a e(1) by auto
qed

lemma pool_inv_cong:
  assumes "pool_inv b (st, k) free" "conns st' = conns st" "events st' = events st" "theap st' = theap st" "ttree st' = ttree st"
    "free_connections st' = free_connections st" "free_connection_n st' = free_connection_n st"
  shows "pool_inv b (st', k') free"
  using assms(1) unfolding pool_inv_def pool_ok_def wf_conns_def idle_def timers_ok_def fst_conv assms(2-7) .

text \<open>Closing a connection does not touch what the state holds beyond the pool.\<close>

lemma more_io: "conn_state.more st = conn_state.more st' \<Longrightarrow> io_state.more st = io_state.more st'"
  by (cases st; cases st') simp

lemma del_if_active_more:
  "del_if_active ctl st k ev = Some (st', k') \<Longrightarrow> conn_state.more st' = conn_state.more st"
  by (auto simp: del_if_active_def event_del_def upd_event_def CLOSE_EVENT_def bind_eq_Some_conv split: if_splits option.splits)

lemma del_if_timer_more:
  "del_if_timer st ev = Some st' \<Longrightarrow> conn_state.more st' = conn_state.more st"
  by (auto simp: del_if_timer_def bind_eq_Some_conv split: if_splits dest: del_timer_frame)

lemma close_connection_more:
  assumes "close_connection ctl close st k c = Some (st', k')"
  shows "conn_state.more st' = conn_state.more st"
proof -
  obtain conn where conn: "conns st c = Some conn" using assms by (auto simp: close_connection_def bind_eq_Some_conv)
  show ?thesis
  proof (cases "c_fd conn = - 1")
    case True
    then show ?thesis using assms conn by (simp add: close_connection_def)
  next
    case False
    with assms conn obtain s1 k1 s2 k2 s3 s4 s5 x s6 where
      "del_if_active ctl st k (c_read conn) = Some (s1, k1)" "del_if_active ctl s1 k1 (c_write conn) = Some (s2, k2)"
      "del_if_timer s2 (c_read conn) = Some s3" "del_if_timer s3 (c_write conn) = Some s4"
      "free_connection s4 c = Some s5" "upd_conn s5 c (c_fd_update (\<lambda>_. - 1)) = Some s6" "st' = s6" "x = c_fd conn"
      by (auto simp: close_connection_def bind_eq_Some_conv)
    moreover have "free_connection s4 c = Some s5 \<Longrightarrow> conn_state.more s5 = conn_state.more s4"
      by (auto simp: free_connection_def upd_conn_def bind_eq_Some_conv split: option.splits)
    moreover have "upd_conn s5 c (c_fd_update (\<lambda>_. - 1)) = Some s6 \<Longrightarrow> conn_state.more s6 = conn_state.more s5"
      by (auto simp: upd_conn_def split: option.splits)
    ultimately show ?thesis using del_if_active_more del_if_timer_more by metis
  qed
qed

text \<open>A connection taken from the pool, and giving it back when a later step fails.\<close>

lemma take_touches:
  assumes inv: "pool_inv b (st, k) (c # free)" and fd: "fd \<noteq> - 1"
  obtains conn st1 where "get_connection st fd = Some (c, st1)" "pool_inv b (st1, k) free" "conns st1 c = Some conn"
    "c \<noteq> 0" "c \<notin> set free" "touches b st1 c conn st1" "clock st1 = clock st" "ticks st1 = ticks st" "conn_state.more st1 = conn_state.more st"
proof -
  obtain evs where ok: "pool_ok st (c # free)" "timers_ok b st evs" using inv by (auto simp: pool_inv_def)
  obtain conn st1 where g: "conns st c = Some conn" "get_connection st fd = Some (c, st1)" "pool_ok st1 free" "timers_ok b st1 evs"
    "conns st1 = (conns st)(c \<mapsto> zero_conn\<lparr>c_read := c_read conn, c_write := c_write conn, c_fd := fd\<rparr>)"
    "events st1 = (events st)(c_read conn \<mapsto> zero_event\<lparr>ev_data := c\<rparr>, c_write conn \<mapsto> zero_event\<lparr>ev_data := c\<rparr>)"
    by (rule get_connection_ok [OF ok])
  from pool_get_free [OF inv fd] g(2) have inv1: "pool_inv b (st1, k) free" by (auto simp: pool_get_def)
  have c: "c \<noteq> 0" "c \<notin> set free" using ok(1) by (auto simp: pool_ok_def)
  let ?conn = "zero_conn\<lparr>c_read := c_read conn, c_write := c_write conn, c_fd := fd\<rparr>"
  have t: "touches b st1 c ?conn st1" using g(4,5,6) by (auto simp: touches_def)
  have "clock st1 = clock st" "ticks st1 = ticks st" "conn_state.more st1 = conn_state.more st"
    using g(2) c(1) g(1)
    by (auto simp: get_connection_def zero_event_at_def upd_conn_def upd_event_def bind_eq_Some_conv split: if_splits option.splits)
  then show thesis using that g(2,5) inv1 c t by simp
qed

lemma give_back:
  fixes st1 st2 :: "('k, 'a) io_state_scheme"
  assumes inv: "pool_inv b (st1, k) free" and c: "conns st1 c = Some conn" "c \<notin> set free" and t: "touches b st1 c conn st2"
  shows "\<exists>st3. io_close ctl close st2 c = Some st3 \<and> pool_inv b (st3, kern st3) (c # free) \<and> io_state.more st3 = io_state.more st2"
proof -
  have inv2: "pool_inv b (st2, kern st2) free" by (rule pool_inv_touches [OF inv c t])
  have m: "c \<in> pool_members (st2, kern st2)" using t by (auto simp: touches_def pool_members_def)
  from pool_close_used [OF inv2 m c(2), of ctl close] obtain st' k' where
    g: "close_connection ctl close st2 (kern st2) c = Some (st', k')" "pool_inv b (st', k') (c # free)"
    by (auto simp: pool_close_def)
  have "io_state.more st' = io_state.more st2" by (rule more_io [OF close_connection_more [OF g(1)]])
  moreover have "pool_inv b (st'\<lparr>kern := k'\<rparr>, kern (st'\<lparr>kern := k'\<rparr>)) (c # free)" by (rule pool_inv_cong [OF g(2)]) simp_all
  ultimately show ?thesis using g(1) by (simp add: io_close_def)
qed

text \<open>Opening a client, on every outcome of the system calls.\<close>

definition opened :: "('k, 'a) http_state_scheme \<Rightarrow> addr \<Rightarrow> addr \<Rightarrow> http_client_s \<Rightarrow> bool" where
  "opened st a c cl \<longleftrightarrow> clients st a = Some (cl\<lparr>cl_connection := c, cl_status := HTTP_CONN_DONE\<rparr>) \<and>
     (case conns st c of None \<Rightarrow> False | Some conn \<Rightarrow> c_data conn = a \<and> c_recv conn = R_unix_recv \<and> c_send conn = S_unix_send \<and>
       map_option ev_handler (events st (c_write conn)) =
         Some (if cl_ssl_flag cl then H_ssl_handshake_handler else H_http_write_event_process))"

lemma http_conn_ok:
  fixes st :: "('k, 'a) http_state_scheme"
  assumes inv: "pool_inv b (st, kern st) free" and cl: "clients st a = Some cl"
    and t: "pos b (msec (clock st (ticks st)) + TIMEOUT_CONN) < 2 ^ 31"
  shows "\<exists>r st'. http_conn ctl close st a d = Some (r, st') \<and>
    (r = - 1 \<and> pool_inv b (st', kern st') free \<and> clients st' = clients st \<or>
     r = 0 \<and> (\<exists>c free'. free = c # free' \<and> pool_inv b (st', kern st') free' \<and> opened st' a c cl))"
proof -
  consider "d_fd d < 0" | "0 \<le> d_fd d" "free = []" | c free' where "0 \<le> d_fd d" "free = c # free'" by (cases free) force+
  then show ?thesis
  proof cases
    case 1
    then show ?thesis using inv by (simp add: http_conn_def)
  next
    case 2
    then have "get_connection st (d_fd d) = Some (0, st)"
      using inv by (simp add: pool_inv_def pool_ok_def get_connection_def)
    moreover have "pool_inv b (st\<lparr>kern := x\<rparr>, x) free" for x by (rule pool_inv_cong [OF inv]) simp_all
    ultimately show ?thesis using 2 by (simp add: http_conn_def)
  next
    case 3
    then have "pool_inv b (st, kern st) (c # free')" "d_fd d \<noteq> - 1" using inv by simp_all
    then obtain conn st1 where g: "get_connection st (d_fd d) = Some (c, st1)" "pool_inv b (st1, kern st) free'"
      "conns st1 c = Some conn" "c \<noteq> 0" "c \<notin> set free'" "touches b st1 c conn st1" "clock st1 = clock st" "ticks st1 = ticks st"
      "conn_state.more st1 = conn_state.more st"
      by (rule take_touches)
    have m1: "clients st1 = clients st" using g(9) by (cases st; cases st1) simp
    have restore: "\<exists>st3. io_close ctl close st2 c = Some st3 \<and> pool_inv b (st3, kern st3) free \<and> clients st3 = clients st"
      if "touches b st1 c conn st2" "clients st2 = clients st" for st2 :: "('k, 'a) http_state_scheme"
    proof -
      from give_back [OF g(2,3,5) that(1), of ctl close] obtain st3 where
        "io_close ctl close st2 c = Some st3" "pool_inv b (st3, kern st3) (c # free')" "io_state.more st3 = io_state.more st2" by blast
      moreover have "io_state.more st3 = io_state.more st2 \<Longrightarrow> clients st3 = clients st2" by (cases st2; cases st3) simp
      ultimately show ?thesis using that(2) 3(2) by auto
    qed
    let ?f1 = "\<lambda>x. x\<lparr>c_recv := R_unix_recv, c_send := S_unix_send\<rparr>"
    let ?h = "if cl_ssl_flag cl then H_ssl_handshake_handler else H_http_write_event_process"
    let ?w = "c_write conn"
    let ?conn = "conn\<lparr>c_recv := R_unix_recv, c_send := S_unix_send, c_data := a\<rparr>"
    obtain we where we: "events st1 ?w = Some we" using g(6) by (auto simp: touches_def)
    let ?st2 = "st1\<lparr>conns := (conns st1)(c \<mapsto> ?f1 conn)\<rparr>"
    let ?st3 = "?st2\<lparr>events := (events st1)(?w \<mapsto> we\<lparr>ev_handler := ?h\<rparr>)\<rparr>"
    let ?st4 = "?st3\<lparr>conns := (conns st1)(c \<mapsto> ?conn)\<rparr>"
    have u2: "upd_conn st1 c ?f1 = Some ?st2" using g(3) by (simp add: upd_conn_def)
    have u3: "upd_event ?st2 ?w (ev_handler_update (\<lambda>_. ?h)) = Some ?st3" using we by (simp add: upd_event_def)
    have u4: "upd_conn ?st3 c (c_data_update (\<lambda>_. a)) = Some ?st4" by (simp add: upd_conn_def)
    have t2: "touches b st1 c conn ?st2" using touches_conn [OF g(6), of ?f1] u2 by simp
    have t3: "touches b st1 c conn ?st3" using touches_event [OF t2, of ?w "ev_handler_update (\<lambda>_. ?h)"] u3 by simp
    have t4: "touches b st1 c conn ?st4" using touches_conn [OF t3, of "c_data_update (\<lambda>_. a)"] u4 by simp
    obtain r st5 where st5: "io_event_add ctl ?st4 ?w WRITE_EVENT CLEAR_EVENT = Some (r, st5)" "touches b st1 c conn st5" "r = 0 \<or> r = - 1"
      "io_state.more st5 = io_state.more ?st4" "conns st5 = conns ?st4" "clock st5 = clock ?st4" "ticks st5 = ticks ?st4"
      "\<forall>x. map_option ev_handler (events st5 x) = map_option ev_handler (events ?st4 x)"
      using touches_add [OF t4, of ?w ctl WRITE_EVENT CLEAR_EVENT] by blast
    have h5: "map_option ev_handler (events st5 ?w) = Some ?h" using st5(8) by simp
    have "io_state.more st5 = io_state.more ?st4 \<Longrightarrow> clients st5 = clients ?st4" by (cases st5; cases ?st4) simp
    then have m5: "clients st5 = clients st" using st5(4) m1 by simp
    have step: "http_conn ctl close st a d =
      (if d_nonblocking d < 0 then do { st \<leftarrow> io_close ctl close st1 c; Some (- 1, st) }
       else if r < 0 \<or> d_connect d \<noteq> 0 \<and> d_connect d \<noteq> EINPROGRESS then do { st \<leftarrow> io_close ctl close st5 c; Some (- 1, st) }
       else do { st \<leftarrow> (if d_connect d \<noteq> 0 then event_add_timer st5 ?w TIMEOUT_CONN else Some st5);
                 st \<leftarrow> upd_client st a (\<lambda>x. x\<lparr>cl_connection := c, cl_status := HTTP_CONN_DONE\<rparr>);
                 Some (0, st) })"
      using 3(1) g(1,3,4) u2 u3 u4 st5(1) cl m1 by (simp add: http_conn_def)
    consider "d_nonblocking d < 0" | "\<not> d_nonblocking d < 0" "r < 0 \<or> d_connect d \<noteq> 0 \<and> d_connect d \<noteq> EINPROGRESS"
      | "\<not> d_nonblocking d < 0" "\<not> (r < 0 \<or> d_connect d \<noteq> 0 \<and> d_connect d \<noteq> EINPROGRESS)" by blast
    then show ?thesis
    proof cases
      case 1
      from restore [OF g(6) m1] obtain st' where "io_close ctl close st1 c = Some st'" "pool_inv b (st', kern st') free" "clients st' = clients st"
        by blast
      then show ?thesis using step 1 by simp
    next
      case 2
      from restore [OF st5(2) m5] obtain st' where "io_close ctl close st5 c = Some st'" "pool_inv b (st', kern st') free" "clients st' = clients st"
        by blast
      then show ?thesis using step 2 by simp
    next
      case 3
      then have r: "r = 0" using st5(3) by auto
      obtain we5 where we5: "events st5 ?w = Some we5" "ev_handler we5 = ?h" using h5 by (cases "events st5 ?w") auto
      obtain evs where evs: "timers_ok b st5 evs" using st5(2) by (auto simp: touches_def)
      have k5: "pos b (msec (clock st5 (ticks st5)) + TIMEOUT_CONN) < 2 ^ 31" using t st5(6,7) g(7,8) by simp
      have "\<exists>st6. (if d_connect d \<noteq> 0 then event_add_timer st5 ?w TIMEOUT_CONN else Some st5) = Some st6 \<and>
          touches b st1 c conn st6 \<and> clients st6 = clients st \<and> conns st6 = conns ?st4 \<and>
          map_option ev_handler (events st6 ?w) = Some ?h"
      proof (cases "d_connect d = 0")
        case True
        then show ?thesis using st5(2,5) m5 we5 by simp
      next
        case False
        obtain st6 evs' where st6: "event_add_timer st5 ?w TIMEOUT_CONN = Some st6" "timers_ok b st6 evs'"
          using add_timer_ok [OF evs we5(1) refl k5] by blast
        obtain H tree n f where st6': "st6 = st5\<lparr>theap := H, ttree := tree, events := (events st5)(?w \<mapsto> we5\<lparr>ev_timer_set := f\<rparr>), ticks := n\<rparr>"
          using add_timer_frame [OF st6(1) we5(1)] by blast
        have "ev_data we5 = c" using st5(2) we5(1) by (auto simp: touches_def)
        then have "touches b st1 c conn st6" using st5(2) st6(2) by (auto simp: touches_def st6')
        then show ?thesis using False st6(1) st5(5) m5 we5(2) by (simp add: st6')
      qed
      then obtain st6 where st6: "(if d_connect d \<noteq> 0 then event_add_timer st5 ?w TIMEOUT_CONN else Some st5) = Some st6"
        "touches b st1 c conn st6" "clients st6 = clients st" "conns st6 = conns ?st4" "map_option ev_handler (events st6 ?w) = Some ?h"
        by blast
      let ?st7 = "st6\<lparr>clients := (clients st)(a \<mapsto> cl\<lparr>cl_connection := c, cl_status := HTTP_CONN_DONE\<rparr>)\<rparr>"
      have "http_conn ctl close st a d = Some (0, ?st7)"
        unfolding step if_not_P [OF 3(1)] if_not_P [OF 3(2)] using st6(1,3) cl by (simp add: upd_client_def)
      moreover have "touches b st1 c conn ?st7" using st6(2) by (simp add: touches_def timers_ok_def)
      then have "pool_inv b (?st7, kern ?st7) free'" by (rule pool_inv_touches [OF g(2,3,5)])
      moreover have "opened ?st7 a c cl" using st6(4,5) by (simp add: opened_def)
      ultimately show ?thesis using \<open>free = c # free'\<close> by blast
    qed
  qed
qed

lemma retrieve_ok:
  fixes st :: "('k, 'a) http_state_scheme"
  assumes inv: "pool_inv b (st, kern st) free" and cl: "clients st a = Some cl" "cl_connection cl = c" "c \<noteq> 0"
    and c: "conns st c = Some conn" "c \<notin> set free" "c_ssl conn \<noteq> 0 \<longrightarrow> ssls st (c_ssl conn) \<noteq> None"
  shows "\<exists>st'. http_client_retrieve ctl close st a = Some st' \<and> pool_inv b (st', kern st') (c # free) \<and> clients st' = (clients st)(a := None) \<and>
    (c_ssl conn \<noteq> 0 \<longrightarrow> ssls st' (c_ssl conn) = None)"
proof -
  define st1 where "st1 = (if c_ssl conn = 0 then st
    else st\<lparr>ssls := (ssls st)(c_ssl conn := None), conns := (conns st)(c \<mapsto> conn\<lparr>c_ssl := 0\<rparr>)\<rparr>)"
  have p: "\<exists>evs. timers_ok b st evs" "wf_conns st" using inv by (auto simp: pool_inv_def pool_ok_def)
  then obtain evs where "timers_ok b st evs" by blast
  then have t1: "timers_ok b st1 evs" by (simp add: st1_def timers_ok_def)
  have e: "events st (c_read conn) \<noteq> None" "events st (c_write conn) \<noteq> None" using p(2) c(1) unfolding wf_conns_def by blast+
  have "\<exists>conn'. conns st1 = (conns st)(c \<mapsto> conn') \<and> c_read conn' = c_read conn \<and> c_write conn' = c_write conn \<and> c_fd conn' = c_fd conn"
    using c(1) by (cases "c_ssl conn = 0") (auto simp: st1_def fun_upd_idem intro: exI [of _ conn])
  then obtain conn' where n: "conns st1 = (conns st)(c \<mapsto> conn')" "c_read conn' = c_read conn" "c_write conn' = c_write conn"
    "c_fd conn' = c_fd conn" by blast
  have s: "events st1 = events st" "free_connections st1 = free_connections st" "free_connection_n st1 = free_connection_n st"
    "clients st1 = clients st" "c_ssl conn \<noteq> 0 \<longrightarrow> ssls st1 (c_ssl conn) = None"
    by (simp_all add: st1_def)
  have inv1: "pool_inv b (st1, kern st1) free"
    by (rule pool_inv_change [OF inv c(1,2) n _ _ _ s(2,3) t1]) (use e s(1) in simp_all)
  have "c \<in> pool_members (st1, kern st1)" using n(1) by (simp add: pool_members_def)
  from pool_close_used [OF inv1 this c(2), of ctl close] obtain st' k' where
    g: "close_connection ctl close st1 (kern st1) c = Some (st', k')" "pool_inv b (st', k') (c # free)"
    by (auto simp: pool_close_def)
  have "conn_state.more st' = conn_state.more st1 \<Longrightarrow> clients st' = clients st1 \<and> ssls st' = ssls st1" by (cases st'; cases st1) simp
  then have m: "clients st' = clients st1" "ssls st' = ssls st1" using close_connection_more [OF g(1)] by simp_all
  let ?st2 = "st'\<lparr>kern := k', clients := (clients st')(a := None)\<rparr>"
  have "http_client_retrieve ctl close st a = Some ?st2"
    using cl c g(1) by (cases "c_ssl conn = 0") (auto simp: http_client_retrieve_def io_close_def st1_def upd_conn_def)
  moreover have "pool_inv b (?st2, kern ?st2) (c # free)" by (rule pool_inv_cong [OF g(2)]) simp_all
  ultimately show ?thesis using m s(4,5) by auto
qed

section \<open>Properties\<close>

lemma length_request: "length LINE0 + length LINE1 + length LINE2 + length (u_host url) + length (u_path url) + 1 = Suc (length (request_text url))"
  by (simp add: LINE0_def LINE1_def request_text_def cstr_def)

text \<open>
  \<open>pack_req_buf\<close> allocates exactly enough for the request text and its terminating zero byte,
  fills the buffer completely and leaves \<open>pos\<close> at its start; what is sent is the text followed by
  that zero byte.
\<close>

theorem pack_req_buf_exact:
  "\<exists>b. pack_req_buf cl [] = Some (0, cl\<lparr>cl_req := Some b\<rparr>, []) \<and> b_pos b = 0 \<and> b_last b = length (b_data b) \<and>
     filled b = request_text (cl_url cl) @ [0]"
proof -
  let ?t = "request_text (cl_url cl) @ [0]"
  have "pack_req_buf cl [] = Some (0, cl\<lparr>cl_req := Some \<lparr>b_data = ?t, b_last = length ?t, b_pos = 0\<rparr>\<rparr>, [])"
    unfolding pack_req_buf_def length_request by (simp add: create_temp_buf_def calloc_ok_def store_def)
  then show ?thesis by (intro exI [of _ "\<lparr>b_data = ?t, b_last = length ?t, b_pos = 0\<rparr>"]) (simp add: filled_def)
qed


definition ex_response :: response where
  "ex_response = \<lparr>r_version = cstr ''HTTP/1.1'', r_reason = cstr ''OK'', r_headers = [(cstr ''Transfer-Encoding'', cstr ''chunked'')],
     r_chunks = [([51], [1, 2, 3])], r_zero = [48], r_rest = [13, 10]\<rparr>"

definition ex_http :: "int list http_state" where
  "ex_http = \<lparr>theap = theap ex_state, ttree = ttree ex_state, events = [100 \<mapsto> ex_event True, 200 \<mapsto> ex_event False],
     clock = \<lambda>n. (1, 0), ticks = 0, conns = [0 \<mapsto> zero_conn\<lparr>c_data := 700, c_read := 200, c_write := 100, c_recv := R_unix_recv\<rparr>],
     free_connections = 0, free_connection_n = 0, ssls = Map.empty, err_queue = [],
     script = [Failed EINTR, Received (response_bytes ex_response), Failed EAGAIN], kern = [],
     clients = [700 \<mapsto> (ex_client [])\<lparr>cl_recv := None\<rparr>], mem_script = []\<rparr>"



lemma ex_http_pool:
  "\<exists>st :: int list http_state. pool_inv 0 (st, kern st) [1000, 1128] \<and> clients st = [700 \<mapsto> cl] \<and> clock st = (\<lambda>n. (1, 0)) \<and>
    ticks st = 0 \<and> ssls st = (\<lambda>s. Some zero_ssl)"
proof -
  obtain s :: conn_state where s: "pool_inv 0 (s, []) [1000, 1128]" using ex_pool_inv by (rule exE)
  let ?st = "\<lparr>theap = theap s, ttree = ttree s, events = events s, clock = \<lambda>n. (1, 0), ticks = 0, conns = conns s,
    free_connections = free_connections s, free_connection_n = free_connection_n s, ssls = \<lambda>s. Some zero_ssl, err_queue = [],
    script = [], kern = [], clients = [700 \<mapsto> cl], mem_script = []\<rparr> :: int list http_state"
  have "pool_inv 0 (?st, kern ?st) [1000, 1128]" by (rule pool_inv_cong [OF s]) simp_all
  then show ?thesis by (intro exI [of _ ?st]) simp
qed


text \<open>
  C28: \<open>http_client_retrieve\<close> gives everything back: the connection is free again (its timers disarmed,
  its events inactive, the pool invariant kept), the TLS object and the client are gone.
\<close>

theorem http_client_retrieve_releases:
  fixes st :: "('k, 'a) http_state_scheme"
  assumes "pool_inv b (st, kern st) free" "clients st a = Some cl" "cl_connection cl = c" "c \<noteq> 0"
    and "conns st c = Some conn" "c \<notin> set free" "c_ssl conn \<noteq> 0 \<longrightarrow> ssls st (c_ssl conn) \<noteq> None"
  shows "\<exists>st'. http_client_retrieve ctl close st a = Some st' \<and> pool_inv b (st', kern st') (c # free) \<and> clients st' = (clients st)(a := None) \<and>
    (c_ssl conn \<noteq> 0 \<longrightarrow> ssls st' (c_ssl conn) = None)"
  using assms by (rule retrieve_ok)

theorem http_client_retrieve_releases_witness:
  "\<exists>(st :: int list http_state) st'. http_client_retrieve ex_epoll ex_close st 700 = Some st' \<and> pool_inv 0 (st', kern st') [1000, 1128] \<and>
    clients st' 700 = None"
proof -
  let ?cl = "(ex_client [])\<lparr>cl_connection := 1000\<rparr>"
  obtain st0 :: "int list http_state" where st0: "pool_inv 0 (st0, kern st0) [1000, 1128]" "clients st0 = [700 \<mapsto> ?cl]"
    "ssls st0 = (\<lambda>s. Some zero_ssl)" using ex_http_pool by blast
  have "(5 :: int) \<noteq> - 1" by simp
  from take_touches [OF st0(1) this] obtain conn st where st: "pool_inv 0 (st, kern st0) [1128]" "conns st 1000 = Some conn"
    "conn_state.more st = conn_state.more st0" by metis
  have m: "clients st = clients st0" "ssls st = ssls st0" using st(3) by (cases st; cases st0; simp)+
  have i: "pool_inv 0 (st, kern st) [1128]" by (rule pool_inv_cong [OF st(1)]) simp_all
  have h: "clients st 700 = Some ?cl" "cl_connection ?cl = 1000" "(1000 :: addr) \<noteq> 0" "1000 \<notin> set [1128 :: addr]"
    "c_ssl conn \<noteq> 0 \<longrightarrow> ssls st (c_ssl conn) \<noteq> None" using m st0 by simp_all
  from http_client_retrieve_releases [OF i h(1,2,3) st(2) h(4,5), of ex_epoll ex_close] obtain st' where
    "http_client_retrieve ex_epoll ex_close st 700 = Some st'" "pool_inv 0 (st', kern st') [1000, 1128]"
    "clients st' = (clients st)(700 := None)" by blast
  then show ?thesis by (intro exI [of _ st] exI [of _ st']) simp
qed

text \<open>
  A request that cannot be sent at once is given up: when the socket takes only a part of it, the
  client's handler is called as for a failure, although the rest could be sent later.
\<close>

theorem partial_send_gives_up:
  fixes st :: "('k, 'a) http_state_scheme"
  assumes "events st wev = Some e" "\<not> ev_timedout e" "ev_ready e" "conns st (ev_data e) = Some conn" "clients st (c_data conn) = Some cl"
    and "cl_req cl = Some b" "cl_handler cl" "0 < n" "b_pos b + n < b_last b"
    and "conn_send ctl st (ev_data e) (b_last b - b_pos b) = Some (int n, st1)" "clients st1 = clients st"
  shows "http_write_event_process handler ctl st wev =
    handler (c_data conn) (st1\<lparr>clients := (clients st)(c_data conn \<mapsto> cl\<lparr>cl_req := Some (b\<lparr>b_pos := b_pos b + n\<rparr>)\<rparr>)\<rparr>)"
  using assms by (simp add: http_write_event_process_def upd_client_def call_handler_def io_consts)

theorem partial_send_gives_up_witness:
  "\<exists>st1. http_write_event_process (\<lambda>a st. Some st) ex_epoll (ex_http\<lparr>events := [100 \<mapsto> (ex_event True)\<lparr>ev_ready := True\<rparr>],
     conns := [0 \<mapsto> zero_conn\<lparr>c_data := 700, c_write := 100, c_send := S_unix_send\<rparr>],
     clients := [700 \<mapsto> (ex_client [])\<lparr>cl_req := Some \<lparr>b_data = [1, 2, 3], b_last = 3, b_pos = 0\<rparr>\<rparr>], script := [Sent 1]\<rparr>) 100 = Some st1 \<and>
     map_option cl_status (clients st1 700) = Some HTTP_REQ_DONE"
proof -
  let ?e = "(ex_event True)\<lparr>ev_ready := True\<rparr>" and ?conn = "zero_conn\<lparr>c_data := 700, c_write := 100, c_send := S_unix_send\<rparr>"
  let ?b = "\<lparr>b_data = [1, 2, 3], b_last = 3, b_pos = 0\<rparr>"
  let ?cl = "(ex_client [])\<lparr>cl_req := Some ?b\<rparr>"
  let ?st = "ex_http\<lparr>events := [100 \<mapsto> ?e], conns := [0 \<mapsto> ?conn], clients := [700 \<mapsto> ?cl], script := [Sent 1]\<rparr>"
  let ?st1 = "?st\<lparr>events := [100 \<mapsto> ?e\<lparr>ev_ready := False\<rparr>], conns := [0 \<mapsto> ?conn\<lparr>c_sent := 1\<rparr>], script := []\<rparr>"
  have e: "events ?st 100 = Some ?e" "\<not> ev_timedout ?e" "ev_ready ?e" "conns ?st (ev_data ?e) = Some ?conn"
    "clients ?st (c_data ?conn) = Some ?cl" "cl_req ?cl = Some ?b" "cl_handler ?cl" "0 < (1::nat)" "b_pos ?b + 1 < b_last ?b"
    "clients ?st1 = clients ?st"
    by (simp_all add: ex_event_def ex_client_def)
  have "conn_send ex_epoll ?st (ev_data ?e) (b_last ?b - b_pos ?b) = Some (int 1, ?st1)"
    by (simp add: conn_send_def upd_event_def upd_conn_def zero_conn_def ex_event_def)
  from partial_send_gives_up [where handler = "\<lambda>a st. Some st", OF e(1-9) this e(10)]
  show ?thesis by (simp add: ex_client_def)
qed

end
