(* ===== verification/Async_Dns.thy ===== *)
theory Async_Dns
  imports Dns_Packet Http_Client Queue
begin

text \<open>
  The resolver of \<^verbatim>\<open>src/async_dns.c\<close>: the cache of the fifty youngest answers, the queries under
  way, each with its timer, and what an answer or a timeout does to them. Both queues are intrusive
  lists in one heap of links; a cache entry or query is named by the address of its \<open>queue\<close> field.
  \<open>dns_mem\<close> scripts the results of \<open>calloc\<close> (an address or \<open>NULL\<close>), the script of socket answers is
  the one of \<open>Connection_Io\<close>, and the handlers an answer is delivered to are the parameter \<open>call\<close>.

  \<open>dns_ok\<close> is the invariant: the two queues hold exactly the live queries and at most fifty cache
  entries, and every query has its timeout armed. Queries and answers are proved to keep it, answers
  to reach the handler, and a query that is never answered to be dropped at its third timeout.
\<close>

section \<open>State\<close>

record dns_cache_s =
  dc_host :: bytes
  dc_addr :: u32

datatype dns_handler = NoDnsHandler | H_create_http_client

record dns_query_s =
  dq_url :: http_url_s
  dq_id :: u32
  dq_pkt :: bytes
  dq_len :: nat
  dq_trytimes :: int
  dq_handler :: dns_handler

record 'k dns_state = "'k http_state" +
  links :: qheap
  cache_queue :: addr
  query_queue :: addr
  caches :: "addr \<rightharpoonup> dns_cache_s"
  cache_count :: u32
  dns_id :: u16
  queries :: "addr \<rightharpoonup> dns_query_s"
  dns_conn :: addr
  dns_mem :: "addr option list"

type_synonym ('k, 'a) dns_call = "dns_handler \<Rightarrow> http_url_s \<Rightarrow> u32 \<Rightarrow> ('k, 'a) dns_state_scheme \<Rightarrow> (('k, 'a) dns_state_scheme) option"

text \<open>The event inside a query, from the query's \<open>queue\<close> field: \<open>offsetof(ev) - offsetof(queue)\<close>.\<close>

definition query_ev :: "addr \<Rightarrow> addr" where
  "query_ev q = q + 4120"

definition upd_query :: "('k, 'a) dns_state_scheme \<Rightarrow> addr \<Rightarrow> (dns_query_s \<Rightarrow> dns_query_s) \<Rightarrow> (('k, 'a) dns_state_scheme) option" where
  "upd_query st q f = (case queries st q of None \<Rightarrow> None | Some x \<Rightarrow> Some (st\<lparr>queries := (queries st)(q \<mapsto> f x)\<rparr>))"

definition DNS_TIMEOUT :: u32 where "DNS_TIMEOUT = 5000"

section \<open>The cache\<close>

definition find_cache :: "('k, 'a) dns_state_scheme \<Rightarrow> bytes \<Rightarrow> addr option option" where
  "find_cache st host =
     do { p \<leftarrow> get_next (links st) (cache_queue st);
          queue_search (links st) (cache_queue st) (\<lambda>p. map_option dc_host (caches st p) = Some host) p }"

text \<open>
  An entry is put at the head; beyond fifty the last one is unlinked (and its memory not freed).
\<close>

definition set_cache :: "('k, 'a) dns_state_scheme \<Rightarrow> bytes \<Rightarrow> u32 \<Rightarrow> (('k, 'a) dns_state_scheme) option" where
  "set_cache st host sin_addr =
     (case dns_mem st of
        [] \<Rightarrow> None
      | None # ms \<Rightarrow> Some (st\<lparr>dns_mem := ms\<rparr>)
      | Some a # ms \<Rightarrow>
          if length host \<ge> DNS_UDP_SIZE then None
          else do {
            st \<leftarrow> Some (st\<lparr>dns_mem := ms, caches := (caches st)(a \<mapsto> \<lparr>dc_host = host, dc_addr = sin_addr\<rparr>)\<rparr>);
            H \<leftarrow> queue_insert_head ((links st)(a \<mapsto> \<lparr>qprev = 0, qnext = 0\<rparr>)) (cache_queue st) a;
            st \<leftarrow> Some (st\<lparr>links := H, cache_count := cache_count st + 1\<rparr>);
            if cache_count st > 50
            then do { l \<leftarrow> queue_last (links st) (cache_queue st);
                      H \<leftarrow> queue_remove (links st) l;
                      Some (st\<lparr>links := H, cache_count := cache_count st - 1\<rparr>) }
            else Some st })"

section \<open>Queries\<close>

definition find_query :: "('k, 'a) dns_state_scheme \<Rightarrow> u16 \<Rightarrow> addr option option" where
  "find_query st qid =
     do { p \<leftarrow> get_next (links st) (query_queue st);
          queue_search (links st) (query_queue st) (\<lambda>p. map_option dq_id (queries st p) = Some (ucast qid)) p }"

definition calloc_query :: "addr \<Rightarrow> ('k, 'a) dns_state_scheme \<Rightarrow> ('k, 'a) dns_state_scheme" where
  "calloc_query q st =
     st\<lparr>links := (links st)(q \<mapsto> \<lparr>qprev = 0, qnext = 0\<rparr>),
        queries := (queries st)(q \<mapsto> \<lparr>dq_url = \<lparr>u_schema = [], u_host = [], u_port = 0, u_path = []\<rparr>, dq_id = 0,
          dq_pkt = replicate DNS_UDP_SIZE 0, dq_len = 0, dq_trytimes = 0, dq_handler = NoDnsHandler\<rparr>),
        events := (events st)(query_ev q \<mapsto> zero_event),
        theap := (theap st)(timer_node (query_ev q) \<mapsto> zero_node)\<rparr>"

text \<open>\<open>free(query)\<close>: the query with the link, the event and the timer node inside it.\<close>

definition free_query :: "('k, 'a) dns_state_scheme \<Rightarrow> addr \<Rightarrow> (('k, 'a) dns_state_scheme) option" where
  "free_query st q =
     (if queries st q = None then None
      else Some (st\<lparr>links := (links st)(q := None), queries := (queries st)(q := None),
                    events := (events st)(query_ev q := None), theap := (theap st)(timer_node (query_ev q) := None)\<rparr>))"

text \<open>\<open>unix_send\<close> of a query's packet.\<close>

definition send_query :: "('k, 'a) dns_state_scheme \<Rightarrow> nat \<Rightarrow> (int \<times> ('k, 'a) dns_state_scheme) option" where
  "send_query st len = do { (rc, st, sc) \<leftarrow> unix_send st (dns_conn st) len (script st); Some (rc, st\<lparr>script := sc\<rparr>) }"

definition resend_query :: "('k, 'a) dns_state_scheme \<Rightarrow> addr \<Rightarrow> (('k, 'a) dns_state_scheme) option" where
  "resend_query st q =
     do { dq \<leftarrow> queries st q;
          (rc, st) \<leftarrow> send_query st (dq_len dq);
          if rc < 0 then Some st else event_add_timer st (query_ev q) DNS_TIMEOUT }"

definition drop_query :: "('k, 'a) dns_state_scheme \<Rightarrow> addr \<Rightarrow> (('k, 'a) dns_state_scheme) option" where
  "drop_query st q =
     do { H \<leftarrow> queue_remove (links st) q;
          st \<leftarrow> event_del_timer (st\<lparr>links := H\<rparr>) (query_ev q);
          free_query st q }"

definition dns_query :: "('k, 'a) dns_call \<Rightarrow> ('k, 'a) dns_state_scheme \<Rightarrow> http_url_s \<Rightarrow> dns_handler \<Rightarrow>
    (int \<times> ('k, 'a) dns_state_scheme) option" where
  "dns_query call st url handler =
     (if length (u_host url) \<ge> DNS_UDP_SIZE - sizeof_dns_header then Some (- 1, st)
      else do {
        cache \<leftarrow> find_cache st (u_host url);
        case cache of
          Some p \<Rightarrow> do { c \<leftarrow> caches st p; st \<leftarrow> call handler url (dc_addr c) st; Some (0, st) }
        | None \<Rightarrow>
            (case dns_mem st of
               [] \<Rightarrow> None
             | None # ms \<Rightarrow> Some (- 1, st\<lparr>dns_mem := ms\<rparr>)
             | Some q # ms \<Rightarrow>
                 do { st \<leftarrow> Some (calloc_query q (st\<lparr>dns_mem := ms, dns_id := dns_id st + 1\<rparr>));
                      dq \<leftarrow> queries st q;
                      (pkt, len) \<leftarrow> pack_udp (dns_id st) (dq_pkt dq) (u_host url);
                      st \<leftarrow> upd_query st q (\<lambda>x. x\<lparr>dq_pkt := pkt, dq_id := ucast (dns_id st), dq_url := url,
                                                 dq_len := len, dq_handler := handler\<rparr>);
                      (rc, st) \<leftarrow> send_query st len;
                      if rc < 0 then do { st \<leftarrow> free_query st q; Some (- 1, st) }
                      else do {
                        st \<leftarrow> upd_event st (query_ev q) (\<lambda>e. e\<lparr>ev_data := q, ev_handler := H_dns_timeout_handler\<rparr>);
                        st \<leftarrow> event_add_timer st (query_ev q) DNS_TIMEOUT;
                        H \<leftarrow> queue_insert_tail (links st) (query_queue st) q;
                        Some (0, st\<lparr>links := H\<rparr>) } }) })"

section \<open>Timeouts and answers\<close>

definition dns_timeout_handler :: "('k, 'a) dns_state_scheme \<Rightarrow> addr \<Rightarrow> (('k, 'a) dns_state_scheme) option" where
  "dns_timeout_handler st ev =
     do { e \<leftarrow> events st ev;
          if \<not> ev_timedout e then Some st
          else do {
            q \<leftarrow> Some (ev_data e);
            dq \<leftarrow> queries st q;
            st \<leftarrow> upd_query st q (dq_trytimes_update (\<lambda>n. n + 1));
            if dq_trytimes dq > DNS_TRY_LIMIT
            then do { H \<leftarrow> queue_remove (links st) q; free_query (st\<lparr>links := H\<rparr>) q }
            else resend_query st q } }"

text \<open>The label \<open>failed\<close> of \<open>parse_udp\<close>, for the query found.\<close>

definition parse_failed :: "('k, 'a) dns_state_scheme \<Rightarrow> addr \<Rightarrow> (('k, 'a) dns_state_scheme) option" where
  "parse_failed st q =
     do { dq \<leftarrow> queries st q;
          st \<leftarrow> upd_query st q (dq_trytimes_update (\<lambda>n. n + 1));
          if dq_trytimes dq > DNS_TRY_LIMIT then drop_query st q else resend_query st q }"

text \<open>
  A packet that does not have one question jumps to \<open>failed\<close> before \<open>query\<close> is assigned and reads it
  there, which is undefined.
\<close>

definition parse_udp :: "('k, 'a) dns_call \<Rightarrow> ('k, 'a) dns_state_scheme \<Rightarrow> bytes \<Rightarrow> int \<Rightarrow> (('k, 'a) dns_state_scheme) option" where
  "parse_udp call st pkt len =
     do { qdcount \<leftarrow> ld 2 pkt 4;
          if htons qdcount \<noteq> 1 then None
          else do {
            qid \<leftarrow> ld 2 pkt 0;
            query \<leftarrow> find_query st qid;
            case query of
              None \<Rightarrow> Some st
            | Some q \<Rightarrow>
                do { answer \<leftarrow> parse_answer pkt len;
                     case answer of
                       Retry \<Rightarrow> parse_failed st q
                     | NoAddress \<Rightarrow> drop_query st q
                     | Address sin_addr \<Rightarrow>
                         do { dq \<leftarrow> queries st q;
                              st \<leftarrow> set_cache st (u_host (dq_url dq)) sin_addr;
                              st \<leftarrow> call (dq_handler dq) (dq_url dq) sin_addr st;
                              drop_query st q } } } }"

text \<open>The receive loop over the stack buffer \<open>pkt\<close>, whose old contents stay behind a shorter packet.\<close>

partial_function (option) dns_recv_loop :: "('k, 'a) dns_call \<Rightarrow> ('k, 'a) dns_state_scheme \<Rightarrow> addr \<Rightarrow> bytes \<Rightarrow>
    (('k, 'a) dns_state_scheme) option" where
  "dns_recv_loop call st c pkt =
     do { (n, bs, st, sc) \<leftarrow> unix_udp_recv st c DNS_UDP_SIZE (script st);
          st \<leftarrow> Some (st\<lparr>script := sc\<rparr>);
          if n < 0 then Some st
          else do { pkt \<leftarrow> store pkt 0 bs;
                    if n < int sizeof_dns_header then dns_recv_loop call st c pkt
                    else do { st \<leftarrow> parse_udp call st pkt n; dns_recv_loop call st c pkt } } }"

definition dns_process_event :: "('k, 'a) dns_call \<Rightarrow> ('k, 'a) dns_state_scheme \<Rightarrow> addr \<Rightarrow> bytes \<Rightarrow> (('k, 'a) dns_state_scheme) option" where
  "dns_process_event call st ev pkt = do { e \<leftarrow> events st ev; dns_recv_loop call st (ev_data e) pkt }"

section \<open>Initialisation\<close>

text \<open>\<open>sscanf(line, "nameserver %d.%d.%d.%d", ...)\<close>, successful when all four numbers were read.\<close>

definition isspace :: "u8 \<Rightarrow> bool" where
  "isspace c \<longleftrightarrow> c = 32 \<or> 9 \<le> c \<and> c \<le> 13"

definition scan_lit :: "bytes \<Rightarrow> bytes \<Rightarrow> bytes option" where
  "scan_lit lit s = (if take (length lit) s = lit then Some (drop (length lit) s) else None)"

definition scan_int :: "bytes \<Rightarrow> (int \<times> bytes) option" where
  "scan_int s =
     (let s = dropWhile isspace s;
          sgn = (case s of [] \<Rightarrow> [] | c # cs \<Rightarrow> if c = 45 \<or> c = 43 then [c] else []);
          ds = takeWhile digit (drop (length sgn) s)
      in if ds = [] then None else Some (atoi (sgn @ ds), drop (length sgn + length ds) s))"

definition scan_nameserver :: "bytes \<Rightarrow> u32 option" where
  "scan_nameserver line =
     do { s \<leftarrow> scan_lit (cstr ''nameserver'') line;
          (a, s) \<leftarrow> scan_int s; s \<leftarrow> scan_lit (cstr ''.'') s;
          (b, s) \<leftarrow> scan_int s; s \<leftarrow> scan_lit (cstr ''.'') s;
          (c, s) \<leftarrow> scan_int s; s \<leftarrow> scan_lit (cstr ''.'') s;
          (d, s) \<leftarrow> scan_int s;
          Some (htonl (push_bit 24 (word_of_int a) OR push_bit 16 (word_of_int b) OR push_bit 8 (word_of_int c) OR word_of_int d)) }"

text \<open>
  The loop over the lines of \<^verbatim>\<open>resolv.conf\<close>: the first name server's address, or nothing. From an
  empty file the code reads \<open>line\<close> without having set it, which is undefined.
\<close>

fun find_nameserver :: "bytes list \<Rightarrow> u32 option" where
  "find_nameserver [] = None"
| "find_nameserver (l # ls) = (case scan_nameserver l of Some a \<Rightarrow> Some a | None \<Rightarrow> find_nameserver ls)"

text \<open>
  \<open>dns_init\<close>: \<open>resolv\<close> is the file (\<open>None\<close> when it cannot be opened), \<open>fd\<close> the result of \<open>socket\<close>
  and \<open>connect\<close> the call that follows it.
\<close>

definition dns_init :: "'k epoll_ctl \<Rightarrow> (int \<Rightarrow> 'k \<Rightarrow> 'k) \<Rightarrow> ('k, 'a) dns_state_scheme \<Rightarrow> bytes list option \<Rightarrow> int \<Rightarrow> (int \<Rightarrow> u32 \<Rightarrow> int) \<Rightarrow>
    (int \<times> ('k, 'a) dns_state_scheme) option" where
  "dns_init ctl close st resolv fd connect =
     do { H \<leftarrow> queue_init (links st) (query_queue st);
          H \<leftarrow> queue_init H (cache_queue st);
          st \<leftarrow> Some (st\<lparr>links := H\<rparr>);
          case resolv of
            None \<Rightarrow> Some (- 1, st)
          | Some ls \<Rightarrow>
              if ls = [] then None
              else case find_nameserver ls of
                None \<Rightarrow> Some (- 1, st)
              | Some sa \<Rightarrow>
                  if fd = - 1 then Some (- 1, st)
                  else if connect fd sa = - 1 then Some (- 1, st)
                  else do {
                    (c, st) \<leftarrow> get_connection st fd;
                    st \<leftarrow> Some (st\<lparr>dns_conn := c\<rparr>);
                    if c = 0 then Some (- 1, st\<lparr>kern := close fd (kern st)\<rparr>)
                    else do {
                      conn \<leftarrow> conns st c;
                      st \<leftarrow> upd_event st (c_read conn) (ev_handler_update (\<lambda>_. H_dns_process_event));
                      (rc, st) \<leftarrow> io_event_add ctl st (c_read conn) READ_EVENT CLEAR_EVENT;
                      if rc = - 1 then do { st \<leftarrow> io_close ctl close st c; Some (- 1, st) }
                      else Some (0, st) } } }"

section \<open>Frames\<close>

text \<open>A timer tree does not depend on what is allocated or freed outside it.\<close>

lemma tt_rep_frame:
  assumes "tt_rep b (H, tree) xs" "\<forall>x\<in>insert (rbt_sentinel tree) (set xs). H' x = H x"
  shows "tt_rep b (H', tree) xs"
proof -
  obtain q T where r: "rep H (rbt_sentinel tree) (rbt_root tree) [] q T" "rbt_ok T" "inorder T = xs"
    using assms(1) by (auto simp: tt_rep_def is_rbtree_def)
  have "tr H' (rbt_sentinel tree) q T = tr H (rbt_sentinel tree) q T"
    by (rule tr_cong) (use assms(2) r(3) in auto)
  moreover have "black_at H' (rbt_sentinel tree) = black_at H (rbt_sentinel tree)"
    using assms(2) by (simp add: black_at_def)
  ultimately have "rep H' (rbt_sentinel tree) (rbt_root tree) [] q T" using r(1) by (simp add: rep_def)
  then have t: "is_rbtree H' tree xs" using r(2,3) by (auto simp: is_rbtree_def)
  have "key_of H' x = key_of H x" if "x \<in> set xs" for x using assms(2) that by (simp add: key_of_def)
  then have m: "map (\<lambda>x. pos b (key_of H' x)) xs = map (\<lambda>x. pos b (key_of H x)) xs"
    "\<forall>x\<in>set xs. pos b (key_of H' x) = pos b (key_of H x)" by auto
  show ?thesis using assms(1) t m(2) unfolding tt_rep_def prod.case m(1) by simp
qed

lemma timers_ok_upd:
  assumes ok: "timers_ok b st evs" and ev: "ev \<notin> set evs" "timer_node ev \<noteq> rbt_sentinel (ttree st)"
    and new: "eo = None \<and> no = None \<or> (\<exists>e. eo = Some e \<and> \<not> ev_timer_set e \<and> no \<noteq> None)"
  shows "timers_ok b (st\<lparr>events := (events st)(ev := eo), theap := (theap st)(timer_node ev := no)\<rparr>) evs"
proof -
  have "tt_rep b ((theap st)(timer_node ev := no), ttree st) (map timer_node evs)"
    by (rule tt_rep_frame [of b "theap st"]) (use ok ev in \<open>auto simp: timers_ok_def\<close>)
  then show ?thesis using ok ev new by (auto simp: timers_ok_def tt_live_def)
qed

text \<open>The stores of the queue macros: outside the queue and the new link nothing changes.\<close>

lemma set_frame: "set_prev H p v = Some H' \<Longrightarrow> a \<noteq> p \<Longrightarrow> H' a = H a" "set_next H p v = Some H' \<Longrightarrow> a \<noteq> p \<Longrightarrow> H' a = H a"
  by (auto simp: set_prev_def set_next_def split: option.splits)

lemma queue_neighbours:
  assumes "is_queue H h xs" "get_next H y = Some n" "y \<in> set (h # xs)"
  shows "n \<in> set (h # xs)"
proof (cases "y = h")
  case True
  then have "n = hd (xs @ [h])" using mq.nxt_head [OF assms(1)] assms(2) by simp
  then show ?thesis by (cases xs) auto
next
  case False
  then obtain ys zs where xs: "xs = ys @ y # zs" using assms(3) split_list by fastforce
  then have "n = hd (zs @ [h])" using mq.nxt_elem [of H h ys y zs] assms(1,2) by simp
  then show ?thesis using xs by (cases zs) auto
qed

lemma insert_head_frame:
  assumes q: "is_queue H h xs" and i: "queue_insert_head H h x = Some H'" and a: "a \<notin> set (h # x # xs)"
  shows "H' a = H a"
proof -
  obtain hn H1 xn H2 H3 where s: "get_next H h = Some hn" "set_next H x hn = Some H1" "get_next H1 x = Some xn"
    "set_prev H1 xn x = Some H2" "set_prev H2 x h = Some H3" "set_next H3 h x = Some H'"
    using i by (auto simp: queue_insert_head_def bind_eq_Some_conv)
  have "xn = hn" using s(2,3) by (auto simp: set_next_def get_next_def split: option.splits)
  moreover have "hn \<in> set (h # xs)" using queue_neighbours [OF q s(1)] by simp
  ultimately have "a \<noteq> xn" "a \<noteq> x" "a \<noteq> h" using a by auto
  then show ?thesis
    using set_frame(2) [OF s(2)] set_frame(1) [OF s(4)] set_frame(1) [OF s(5)] set_frame(2) [OF s(6)] by simp
qed

lemma queue_last_in: "is_queue H h xs \<Longrightarrow> get_prev H h = Some l \<Longrightarrow> l \<in> set (h # xs)"
  using is_queue_ends [of H h xs] by (cases xs rule: rev_cases) auto

lemma insert_tail_frame:
  assumes q: "is_queue H h xs" and i: "queue_insert_tail H h x = Some H'" and a: "a \<notin> set (h # x # xs)"
  shows "H' a = H a"
proof -
  obtain hp H1 xp H2 H3 where s: "get_prev H h = Some hp" "set_prev H x hp = Some H1" "get_prev H1 x = Some xp"
    "set_next H1 xp x = Some H2" "set_next H2 x h = Some H3" "set_prev H3 h x = Some H'"
    using i by (auto simp: queue_insert_tail_def bind_eq_Some_conv)
  have "xp = hp" using s(2,3) by (auto simp: set_prev_def get_prev_def split: option.splits)
  moreover have "hp \<in> set (h # xs)" using queue_last_in [OF q s(1)] by simp
  ultimately have "a \<noteq> xp" "a \<noteq> x" "a \<noteq> h" using a by auto
  then show ?thesis
    using set_frame(1) [OF s(2)] set_frame(2) [OF s(4)] set_frame(2) [OF s(5)] set_frame(1) [OF s(6)] by simp
qed

lemma queue_prev_in:
  assumes "is_queue H h xs" "x \<in> set xs" "get_prev H x = Some p"
  shows "p \<in> set (h # xs)"
proof -
  obtain ys zs where xs: "xs = ys @ x # zs" using assms(2) split_list by fastforce
  then have "p = last (h # ys)"
    using assms(1,3) by (cases ys rule: rev_cases) (auto simp: is_queue_def linked_split link_def)
  then show ?thesis using xs by (cases ys rule: rev_cases) auto
qed

lemma remove_frame:
  assumes q: "is_queue H h xs" and x: "x \<in> set xs" and i: "queue_remove H x = Some H'" and a: "a \<notin> set (h # xs)"
  shows "H' a = H a"
proof -
  obtain xn xp H1 xp' xn' where s: "get_next H x = Some xn" "get_prev H x = Some xp" "set_prev H xn xp = Some H1"
    "get_prev H1 x = Some xp'" "get_next H1 x = Some xn'" "set_next H1 xp' xn' = Some H'"
    using i by (auto simp: queue_remove_def bind_eq_Some_conv)
  have n: "xn \<in> set (h # xs)" using queue_neighbours [OF q s(1)] x by simp
  have p: "xp \<in> set (h # xs)" by (rule queue_prev_in [OF q x s(2)])
  have "xp' = xp \<or> xp' = (if xn = x then xp else xp)"
    using s(2,3,4) by (auto simp: set_prev_def get_prev_def split: option.splits if_splits)
  then have "xp' = xp" by simp
  moreover have "a \<noteq> xn" "a \<noteq> xp" using n p a by blast+
  ultimately show ?thesis using set_frame(1) [OF s(3)] set_frame(2) [OF s(6)] by simp
qed

text \<open>
  The cache's insertion with its bound, over the contract of the queue, leaves other queues in place.
\<close>

lemma bounded_push_queue:
  assumes q: "is_queue H h xs" and x: "x \<in> dom H" "x \<notin> set (h # xs)" and k: "length xs \<le> k"
  obtains H1 H2 where "queue_insert_head H h x = Some H1"
    "k < Suc (length xs) \<Longrightarrow> (do { l \<leftarrow> queue_last H1 h; queue_remove H1 l }) = Some H2"
    "\<not> k < Suc (length xs) \<Longrightarrow> H2 = H1" "is_queue H2 h (take k (x # xs))" "dom H2 = dom H"
    "\<And>a. a \<notin> set (h # x # xs) \<Longrightarrow> H2 a = H a"
proof -
  obtain H1 where h1: "queue_insert_head H h x = Some H1" "is_queue H1 h (x # xs)"
    using mq.ins_head_rep [OF q x] by blast
  have f1: "\<And>a. a \<notin> set (h # x # xs) \<Longrightarrow> H1 a = H a" by (rule insert_head_frame [OF q h1(1)])
  obtain H2 where h2: "(do { m \<leftarrow> queue_insert_head H h x;
      if k < Suc (length xs) then do { l \<leftarrow> queue_last m h; queue_remove m l } else Some m }) = Some H2"
    "dom H2 = dom H" "is_queue H2 h (take k (x # xs))" using mq.bounded_push [OF q x k] by blast
  have r: "(if k < Suc (length xs) then do { l \<leftarrow> queue_last H1 h; queue_remove H1 l } else Some H1) = Some H2"
    using h2(1) h1(1) by simp
  have "H2 a = H a" if a: "a \<notin> set (h # x # xs)" for a
  proof (cases "k < Suc (length xs)")
    case True
    then obtain l where l: "queue_last H1 h = Some l" "queue_remove H1 l = Some H2"
      using r by (auto simp: bind_eq_Some_conv)
    then have "l = last (x # xs)" using mq.lst_head [OF h1(2)] by simp
    then have "l \<in> set (x # xs)" using last_in_set [of "x # xs"] by simp
    from remove_frame [OF h1(2) this l(2)] a f1 [OF a] show ?thesis by simp
  next
    case False
    then show ?thesis using r f1 [OF a] by simp
  qed
  then show thesis using that [OF h1(1), of H2] r h2(2,3) by (cases "k < Suc (length xs)") auto
qed

section \<open>The invariant\<close>

text \<open>The event of a query that is under way.\<close>

definition query_event :: "('k, 'a) dns_state_scheme \<Rightarrow> addr \<Rightarrow> bool" where
  "query_event st q \<longleftrightarrow> (case events st (query_ev q) of None \<Rightarrow> False
     | Some e \<Rightarrow> ev_data e = q \<and> ev_handler e = H_dns_timeout_handler)"

text \<open>
  \<open>U\<close> are the queries whose timeout is not armed: none between two events, the one whose timeout has
  just fired while its handler runs.
\<close>

definition dns_inv :: "u32 \<Rightarrow> ('k, 'a) dns_state_scheme \<Rightarrow> addr set \<Rightarrow> addr list \<Rightarrow> addr list \<Rightarrow> addr list \<Rightarrow> bool" where
  "dns_inv b st U qs cs evs \<longleftrightarrow> timers_ok b st evs \<and>
     is_queue (links st) (query_queue st) qs \<and> is_queue (links st) (cache_queue st) cs \<and>
     set (query_queue st # qs) \<inter> set (cache_queue st # cs) = {} \<and>
     length cs = unat (cache_count st) \<and> length cs \<le> 50 \<and> set cs \<subseteq> dom (caches st) \<and> dom (queries st) = set qs \<and>
     (\<forall>q\<in>set qs. query_event st q \<and> (query_ev q \<in> set evs \<longleftrightarrow> q \<notin> U))"

abbreviation dns_ok :: "u32 \<Rightarrow> ('k, 'a) dns_state_scheme \<Rightarrow> addr list \<Rightarrow> addr list \<Rightarrow> addr list \<Rightarrow> bool" where
  "dns_ok b st qs cs evs \<equiv> dns_inv b st {} qs cs evs"

text \<open>What the cache says, youngest entry first.\<close>

definition cache_list :: "('k, 'a) dns_state_scheme \<Rightarrow> addr list \<Rightarrow> (bytes \<times> u32) list" where
  "cache_list st cs = map (\<lambda>a. case caches st a of None \<Rightarrow> ([], 0) | Some c \<Rightarrow> (dc_host c, dc_addr c)) cs"

lemma query_ev_inj [simp]: "query_ev p = query_ev q \<longleftrightarrow> p = q"
  by (simp add: query_ev_def)

lemma dns_inv_timers: "dns_inv b st U qs cs evs \<Longrightarrow> timers_ok b st evs"
  by (simp add: dns_inv_def)

lemma set_cache_ok:
  assumes inv: "dns_inv b st U qs cs evs" and m: "dns_mem st = Some a # ms" and a: "links st a = None"
    and host: "length host < DNS_UDP_SIZE"
  shows "\<exists>H n. set_cache st host ad = Some (st\<lparr>dns_mem := ms, caches := (caches st)(a \<mapsto> \<lparr>dc_host = host, dc_addr = ad\<rparr>),
      links := H, cache_count := n\<rparr>) \<and>
    dns_inv b (st\<lparr>dns_mem := ms, caches := (caches st)(a \<mapsto> \<lparr>dc_host = host, dc_addr = ad\<rparr>), links := H, cache_count := n\<rparr>)
      U qs (take 50 (a # cs)) evs \<and>
    cache_list (st\<lparr>dns_mem := ms, caches := (caches st)(a \<mapsto> \<lparr>dc_host = host, dc_addr = ad\<rparr>), links := H, cache_count := n\<rparr>)
      (take 50 (a # cs)) = take 50 ((host, ad) # cache_list st cs)"
proof -
  let ?H = "(links st)(a \<mapsto> \<lparr>qprev = 0, qnext = 0\<rparr>)"
  have q: "is_queue (links st) (query_queue st) qs" "is_queue (links st) (cache_queue st) cs"
    "set (query_queue st # qs) \<inter> set (cache_queue st # cs) = {}" "length cs = unat (cache_count st)" "length cs \<le> 50"
    "set cs \<subseteq> dom (caches st)" using inv by (auto simp: dns_inv_def)
  have n: "a \<notin> set (query_queue st # qs)" "a \<notin> set (cache_queue st # cs)"
    using is_queue_dom [OF q(1)] is_queue_dom [OF q(2)] a by auto
  have q1: "is_queue ?H (query_queue st) qs" "is_queue ?H (cache_queue st) cs"
    by (rule is_queue_frame [OF q(1)], use n in auto) (rule is_queue_frame [OF q(2)], use n in auto)
  obtain H1 H2 where h: "queue_insert_head ?H (cache_queue st) a = Some H1"
    "50 < Suc (length cs) \<Longrightarrow> (do { l \<leftarrow> queue_last H1 (cache_queue st); queue_remove H1 l }) = Some H2"
    "\<not> 50 < Suc (length cs) \<Longrightarrow> H2 = H1" "is_queue H2 (cache_queue st) (take 50 (a # cs))"
    "\<And>x. x \<notin> set (cache_queue st # a # cs) \<Longrightarrow> H2 x = ?H x"
    by (rule bounded_push_queue [OF q1(2) _ n(2) q(5)]) (simp, blast)
  have "is_queue H2 (query_queue st) qs"
  proof (rule is_queue_frame [OF q1(1)], rule ballI)
    fix x assume "x \<in> set (query_queue st # qs)"
    then have "x \<notin> set (cache_queue st # a # cs)" using n(1) q(3) by auto
    then show "H2 x = ?H x" by (rule h(5))
  qed
  have u: "unat (cache_count st + 1) = Suc (length cs)"
    using q(4,5) by (simp add: unat_word_ariths)
  then have g: "cache_count st + 1 > 50 \<longleftrightarrow> 50 < Suc (length cs)" by (simp add: word_less_nat_alt)
  define n where "n = (if 50 < Suc (length cs) then cache_count st else cache_count st + 1)"
  let ?st = "st\<lparr>dns_mem := ms, caches := (caches st)(a \<mapsto> \<lparr>dc_host = host, dc_addr = ad\<rparr>), links := H2, cache_count := n\<rparr>"
  have "set_cache st host ad = Some ?st"
  proof (cases "50 < Suc (length cs)")
    case True
    then obtain l where "queue_last H1 (cache_queue st) = Some l" "queue_remove H1 l = Some H2"
      using h(2) by (auto simp: bind_eq_Some_conv)
    then show ?thesis using m host h(1) True g by (simp add: set_cache_def n_def)
  next
    case False
    then show ?thesis using m host h(1,3) g by (simp add: set_cache_def n_def)
  qed
  moreover have "length (take 50 (a # cs)) = unat n" using u q(4,5) by (auto simp: n_def min_def)
  then have "dns_inv b ?st U qs (take 50 (a # cs)) evs"
    using inv h(4) \<open>is_queue H2 (query_queue st) qs\<close> n q(3,6)
    by (auto simp: dns_inv_def timers_ok_def query_event_def dest!: in_set_takeD split: option.splits)
  moreover have "cache_list ?st (take 50 (a # cs)) = take 50 ((host, ad) # cache_list st cs)"
    using n(2) by (auto simp: cache_list_def take_map intro!: map_cong dest!: in_set_takeD)
  ultimately show ?thesis by blast
qed

section \<open>Lookups\<close>

lemma search_whole:
  assumes "is_queue H h xs"
  shows "do { p \<leftarrow> get_next H h; queue_search H h P p } = Some (find P xs)"
  using queue_search_correct [of H h "[]" xs P] mq.nxt_head [OF assms] assms by simp

lemma find_query_ok:
  assumes "dns_inv b st U qs cs evs"
  shows "find_query st qid = Some (find (\<lambda>p. map_option dq_id (queries st p) = Some (ucast qid)) qs)"
  unfolding find_query_def by (rule search_whole) (use assms in \<open>simp add: dns_inv_def\<close>)

text \<open>The cache is an association list: the youngest entry for the host counts.\<close>

lemma find_cache_ok:
  assumes "dns_inv b st U qs cs evs"
  shows "case map_of (cache_list st cs) host of
     None \<Rightarrow> find_cache st host = Some None
   | Some ad \<Rightarrow> \<exists>p c. find_cache st host = Some (Some p) \<and> caches st p = Some c \<and> dc_addr c = ad"
proof -
  have f: "find_cache st host = Some (find (\<lambda>p. map_option dc_host (caches st p) = Some host) cs)"
    unfolding find_cache_def by (rule search_whole) (use assms in \<open>simp add: dns_inv_def\<close>)
  have "set cs \<subseteq> dom (caches st)" using assms by (simp add: dns_inv_def)
  then show ?thesis unfolding f
  proof (induction cs)
    case (Cons a cs)
    then obtain c where c: "caches st a = Some c" by auto
    have l: "cache_list st (a # cs) = (dc_host c, dc_addr c) # cache_list st cs" by (simp add: cache_list_def c)
    show ?case
    proof (cases "dc_host c = host")
      case True
      then show ?thesis by (simp add: l c)
    next
      case False
      then have f: "find (\<lambda>p. map_option dc_host (caches st p) = Some host) (a # cs) =
          find (\<lambda>p. map_option dc_host (caches st p) = Some host) cs" by (simp add: c)
      have m: "map_of (cache_list st (a # cs)) host = map_of (cache_list st cs) host" using False by (simp add: l)
      show ?thesis unfolding f m using Cons by simp
    qed
  qed (simp add: cache_list_def)
qed

section \<open>Dropping a query\<close>

lemma dns_inv_D:
  assumes "dns_inv b st U qs cs evs"
  shows "distinct qs" "query_queue st \<notin> set qs" "q \<in> set qs \<Longrightarrow> queries st q \<noteq> None"
    "q \<in> set qs \<Longrightarrow> \<exists>e. events st (query_ev q) = Some e \<and> ev_data e = q \<and> ev_handler e = H_dns_timeout_handler"
    "q \<in> set qs \<Longrightarrow> timer_node (query_ev q) \<noteq> rbt_sentinel (ttree st)"
proof -
  have "distinct (query_queue st # qs)" using assms mq.rep_distinct by (auto simp: dns_inv_def)
  then show "distinct qs" "query_queue st \<notin> set qs" by simp_all
  show "q \<in> set qs \<Longrightarrow> queries st q \<noteq> None" using assms by (auto simp: dns_inv_def)
  show e: "q \<in> set qs \<Longrightarrow> \<exists>e. events st (query_ev q) = Some e \<and> ev_data e = q \<and> ev_handler e = H_dns_timeout_handler"
    using assms by (auto simp: dns_inv_def query_event_def split: option.splits)
  show "q \<in> set qs \<Longrightarrow> timer_node (query_ev q) \<noteq> rbt_sentinel (ttree st)"
    using assms e by (auto simp: dns_inv_def timers_ok_def tt_live_def)
qed

text \<open>A query out of its queue and without a timer is freed.\<close>

lemma unlink_free_ok:
  assumes inv: "dns_inv b st U qs cs evs" and q: "q \<in> set qs" "q \<in> U"
  shows "\<exists>H st'. queue_remove (links st) q = Some H \<and> free_query (st\<lparr>links := H\<rparr>) q = Some st' \<and>
    dns_inv b st' (U - {q}) (remove1 q qs) cs evs \<and> cache_list st' cs = cache_list st cs \<and>
    (\<exists>L. st' = st\<lparr>links := L, queries := (queries st)(q := None), events := (events st)(query_ev q := None),
       theap := (theap st)(timer_node (query_ev q) := None)\<rparr>)"
proof -
  have i: "timers_ok b st evs" "is_queue (links st) (query_queue st) qs" "is_queue (links st) (cache_queue st) cs"
    "set (query_queue st # qs) \<inter> set (cache_queue st # cs) = {}" "query_ev q \<notin> set evs" "dom (queries st) = set qs"
    using inv q by (auto simp: dns_inv_def)
  note d = dns_inv_D [OF inv]
  obtain H where h: "queue_remove (links st) q = Some H" "is_queue H (query_queue st) (remove1 q qs)"
    using mq.unlink_member [OF i(2) q(1)] by blast
  let ?L = "H(q := None)"
  let ?st = "st\<lparr>links := ?L, queries := (queries st)(q := None), events := (events st)(query_ev q := None),
       theap := (theap st)(timer_node (query_ev q) := None)\<rparr>"
  have f: "free_query (st\<lparr>links := H\<rparr>) q = Some ?st"
    using d(3) [OF q(1)] by (simp add: free_query_def)
  have qq: "is_queue ?L (query_queue st) (remove1 q qs)"
    by (rule is_queue_frame [OF h(2)]) (use d(1,2) q in auto)
  have qc: "is_queue ?L (cache_queue st) cs"
  proof (rule is_queue_frame [OF i(3)], rule ballI)
    fix x assume "x \<in> set (cache_queue st # cs)"
    then have x: "x \<notin> set (query_queue st # qs)" using i(4) by blast
    then have "H x = links st x" by (rule remove_frame [OF i(2) q(1) h(1)])
    then show "?L x = links st x" using x q(1) by auto
  qed
  have "timers_ok b (st\<lparr>events := (events st)(query_ev q := None), theap := (theap st)(timer_node (query_ev q) := None)\<rparr>) evs"
    by (rule timers_ok_upd [OF i(1,5) d(5) [OF q(1)]]) simp
  then have t: "timers_ok b ?st evs" by (simp add: timers_ok_def)
  have "set (remove1 q qs) = set qs - {q}" using d(1) by simp
  then have "dns_inv b ?st (U - {q}) (remove1 q qs) cs evs"
    using inv t qq qc i(4) by (auto simp: dns_inv_def query_event_def)
  then show ?thesis using h(1) f by (auto simp: cache_list_def)
qed

lemma drop_query_ok:
  assumes inv: "dns_inv b st U qs cs evs" and q: "q \<in> set qs" "q \<notin> U"
  shows "\<exists>st'. drop_query st q = Some st' \<and> dns_inv b st' U (remove1 q qs) cs (remove1 (query_ev q) evs) \<and>
    cache_list st' cs = cache_list st cs \<and>
    (\<exists>L H T. st' = st\<lparr>links := L, queries := (queries st)(q := None), events := (events st)(query_ev q := None),
       theap := H, ttree := T\<rparr>)"
proof -
  have i: "timers_ok b st evs" "query_ev q \<in> set evs" using inv q by (auto simp: dns_inv_def)
  obtain e where e: "events st (query_ev q) = Some e" using dns_inv_D(4) [OF inv q(1)] by blast
  let ?evs = "remove1 (query_ev q) evs"
  obtain TH TT st1 where st1: "event_del_timer st (query_ev q) = Some st1"
    "st1 = st\<lparr>theap := TH, ttree := TT, events := (events st)(query_ev q \<mapsto> e\<lparr>ev_timer_set := False\<rparr>)\<rparr>"
    "timers_ok b st1 ?evs"
    using del_timer_ok [OF i e] by metis
  have se: "set ?evs = set evs - {query_ev q}" using timers_ok_order(1) [OF i(1)] by simp
  have inv1: "dns_inv b st1 (insert q U) qs cs ?evs"
    using inv st1(3) e dns_inv_D(4) [OF inv q(1)] se unfolding dns_inv_def by (auto simp: st1(2) query_event_def)
  from unlink_free_ok [OF inv1 q(1)] obtain H st2 L where
    h: "queue_remove (links st1) q = Some H" "free_query (st1\<lparr>links := H\<rparr>) q = Some st2"
    "dns_inv b st2 (insert q U - {q}) (remove1 q qs) cs ?evs" "cache_list st2 cs = cache_list st1 cs"
    "st2 = st1\<lparr>links := L, queries := (queries st1)(q := None), events := (events st1)(query_ev q := None),
       theap := (theap st1)(timer_node (query_ev q) := None)\<rparr>" by auto
  have l: "links st1 = links st" by (simp add: st1(2))
  have "event_del_timer (st\<lparr>links := H\<rparr>) (query_ev q) = Some (st1\<lparr>links := H\<rparr>)"
    using st1(1) by (auto simp: event_del_timer_def upd_event_def bind_eq_Some_conv split: option.splits)
  then have "drop_query st q = Some st2" using h(1,2) by (simp add: drop_query_def l)
  moreover have "insert q U - {q} = U" using q(2) by simp
  moreover have "st2 = st\<lparr>links := L, queries := (queries st)(q := None), events := (events st)(query_ev q := None),
      theap := TH(timer_node (query_ev q) := None), ttree := TT\<rparr>"
    unfolding h(5) st1(2) by (cases st) simp
  ultimately show ?thesis using h(3,4) by (auto simp: st1(2) cache_list_def)
qed

section \<open>Sending again\<close>

text \<open>Sending changes no more of the events than their readiness and error flags.\<close>

definition same_evs :: "(addr \<rightharpoonup> event_s) \<Rightarrow> (addr \<rightharpoonup> event_s) \<Rightarrow> bool" where
  "same_evs M N \<longleftrightarrow> (\<forall>x. map_option (\<lambda>e. e\<lparr>ev_ready := False, ev_error := False\<rparr>) (N x) =
     map_option (\<lambda>e. e\<lparr>ev_ready := False, ev_error := False\<rparr>) (M x))"

lemma same_evsD:
  assumes "same_evs M N" "M x = Some e"
  shows "\<exists>e'. N x = Some e' \<and> ev_data e' = ev_data e \<and> ev_handler e' = ev_handler e \<and> ev_timer_set e' = ev_timer_set e \<and>
    ev_timedout e' = ev_timedout e"
proof -
  have "map_option (\<lambda>e. e\<lparr>ev_ready := False, ev_error := False\<rparr>) (N x) = Some (e\<lparr>ev_ready := False, ev_error := False\<rparr>)"
    using assms by (simp add: same_evs_def)
  then obtain e' where e': "N x = Some e'" "e'\<lparr>ev_ready := False, ev_error := False\<rparr> = e\<lparr>ev_ready := False, ev_error := False\<rparr>"
    by auto
  from e'(2) show ?thesis using e'(1) by (cases e; cases e') simp
qed

lemma same_evs_sym: "same_evs M N \<Longrightarrow> same_evs N M"
  by (simp add: same_evs_def)

lemma same_evs_refl [simp]: "same_evs M M"
  by (simp add: same_evs_def)

lemma same_evs_upd:
  "same_evs M N \<Longrightarrow> N x = Some e \<Longrightarrow> e'\<lparr>ev_ready := False, ev_error := False\<rparr> = e\<lparr>ev_ready := False, ev_error := False\<rparr> \<Longrightarrow>
    same_evs M (N(x \<mapsto> e'))"
  unfolding same_evs_def by (metis fun_upd_apply option.simps(9))

lemma timers_ok_evs:
  assumes ok: "timers_ok b st evs" and s: "same_evs (events st) E"
  shows "timers_ok b (st\<lparr>conns := C, events := E\<rparr>) evs"
proof -
  have "\<exists>e. events st x = Some e \<and> ev_timer_set e = ev_timer_set e'" if "E x = Some e'" for x e'
    using same_evsD [OF same_evs_sym [OF s] that] by auto
  then have "\<forall>x e'. E x = Some e' \<longrightarrow> tt_live (theap st, ttree st) (timer_node x) \<and> (ev_timer_set e' \<longleftrightarrow> x \<in> set evs)"
    using ok by (fastforce simp: timers_ok_def)
  moreover have "set evs \<subseteq> dom E"
  proof
    fix x assume "x \<in> set evs"
    then obtain e where "events st x = Some e" using ok by (auto simp: timers_ok_def)
    then show "x \<in> dom E" using same_evsD [OF s] by blast
  qed
  ultimately show ?thesis using ok by (simp add: timers_ok_def)
qed

lemma dns_inv_evs:
  assumes inv: "dns_inv b st U qs cs evs" and s: "same_evs (events st) E"
  shows "dns_inv b (st\<lparr>conns := C, events := E, script := sc\<rparr>) U qs cs evs"
proof -
  have "query_event (st\<lparr>conns := C, events := E, script := sc\<rparr>) q" if q: "q \<in> set qs" for q
  proof -
    obtain e where "events st (query_ev q) = Some e" "ev_data e = q" "ev_handler e = H_dns_timeout_handler"
      using dns_inv_D(4) [OF inv q] by blast
    then show ?thesis using same_evsD [OF s] by (fastforce simp: query_event_def)
  qed
  moreover have "timers_ok b (st\<lparr>conns := C, events := E, script := sc\<rparr>) evs"
    using timers_ok_evs [OF dns_inv_timers [OF inv] s, of C] by (simp add: timers_ok_def)
  ultimately show ?thesis using inv by (simp add: dns_inv_def)
qed

text \<open>
  The resolver's socket and its answer to the next call of \<open>send\<close>, after any interrupted ones:
  \<open>dns_socket st sz a rest\<close> says that the connection is there and that \<open>a\<close> is that answer.
\<close>

definition dns_live :: "('k, 'a) dns_state_scheme \<Rightarrow> bool" where
  "dns_live st \<longleftrightarrow> (\<exists>conn we. conns st (dns_conn st) = Some conn \<and> events st (c_write conn) = Some we)"

fun sendable :: "nat \<Rightarrow> answer \<Rightarrow> bool" where
  "sendable sz (Sent n) \<longleftrightarrow> n \<le> sz"
| "sendable sz (Failed err) \<longleftrightarrow> True"
| "sendable sz a \<longleftrightarrow> False"

fun send_result :: "answer \<Rightarrow> int" where
  "send_result (Sent n) = int n"
| "send_result (Failed err) = (if err = EAGAIN then - EAGAIN else - 1)"
| "send_result a = - 1"

definition dns_socket :: "('k, 'a) dns_state_scheme \<Rightarrow> nat \<Rightarrow> answer \<Rightarrow> answer list \<Rightarrow> bool" where
  "dns_socket st sz a rest \<longleftrightarrow> dns_live st \<and> dropWhile eintr (script st) = a # rest \<and> sendable sz a"

lemma send_query_run:
  assumes "dns_socket st sz a rest"
  obtains C E where "send_query st sz = Some (send_result a, st\<lparr>conns := C, events := E, script := rest\<rparr>)"
    "same_evs (events st) E" "dns_live (st\<lparr>conns := C, events := E, script := rest\<rparr>)"
    "\<And>cn. conns st (dns_conn st) = Some cn \<Longrightarrow> \<exists>cn'. C (dns_conn st) = Some cn' \<and> c_write cn' = c_write cn"
proof -
  obtain conn we where c: "conns st (dns_conn st) = Some conn" "events st (c_write conn) = Some we"
    using assms by (auto simp: dns_socket_def dns_live_def)
  have a: "dropWhile eintr (script st) = a # rest" "sendable sz a" using assms by (simp_all add: dns_socket_def)
  define e where "e = (if script st = a # rest then we else we\<lparr>ev_ready := False\<rparr>)"
  have r: "unix_send st (dns_conn st) sz (script st) = map_option (\<lambda>(n, st). (n, st, rest)) (send_ref st (dns_conn st) conn e sz a)"
    unfolding e_def by (rule unix_send_ref [OF c a(1)])
  have e: "e\<lparr>ev_ready := False, ev_error := False\<rparr> = we\<lparr>ev_ready := False, ev_error := False\<rparr>" by (simp add: e_def)
  obtain conn' e' where f: "send_ref st (dns_conn st) conn e sz a =
      Some (send_result a, st\<lparr>conns := (conns st)(dns_conn st \<mapsto> conn'), events := (events st)(c_write conn \<mapsto> e')\<rparr>)"
    "c_write conn' = c_write conn" "e'\<lparr>ev_ready := False, ev_error := False\<rparr> = we\<lparr>ev_ready := False, ev_error := False\<rparr>"
  proof (cases a)
    case (Sent n)
    show ?thesis
    proof (cases "n = 0")
      case True
      then show ?thesis using that [of "e\<lparr>ev_ready := False\<rparr>" conn] Sent c e by (simp add: send_ref_def fun_upd_idem)
    next
      case False
      then show ?thesis using that [of "if n < sz then e\<lparr>ev_ready := False\<rparr> else e" "c_sent_update (\<lambda>x. x + int n) conn"] Sent a(2) e
        by (simp add: send_ref_def)
    qed
  next
    case (Failed err)
    then show ?thesis using that [of "if err = EAGAIN then e\<lparr>ev_ready := False\<rparr> else e\<lparr>ev_error := True\<rparr>" conn] c e
      by (simp add: send_ref_def fun_upd_idem)
  qed (use a(2) in simp_all)
  let ?C = "(conns st)(dns_conn st \<mapsto> conn')" and ?E = "(events st)(c_write conn \<mapsto> e')"
  have "send_query st sz = Some (send_result a, st\<lparr>conns := ?C, events := ?E, script := rest\<rparr>)"
    using r f(1) by (simp add: send_query_def)
  moreover have "same_evs (events st) ?E"
    by (rule same_evs_upd [OF same_evs_refl, where e = we]) (use c(2) f(3) in simp_all)
  moreover have "dns_live (st\<lparr>conns := ?C, events := ?E, script := rest\<rparr>)" using f(2) by (simp add: dns_live_def)
  moreover have "\<exists>cn'. ?C (dns_conn st) = Some cn' \<and> c_write cn' = c_write cn" if "conns st (dns_conn st) = Some cn" for cn
    using f(2) c(1) that by simp
  ultimately show thesis by (rule that)
qed

text \<open>Arming a query's timeout.\<close>

lemma arm_ok:
  assumes inv: "dns_inv b st U qs cs evs" and q: "q \<in> set qs"
    and k: "k = msec (clock st (ticks st)) + t" "pos b k < 2 ^ 31"
  shows "\<exists>st' evs'. event_add_timer st (query_ev q) t = Some st' \<and> dns_inv b st' (U - {q}) qs cs evs' \<and>
    set evs' = insert (query_ev q) (set evs) \<and> (q \<in> U \<longrightarrow> expiry st' (query_ev q) = k) \<and>
    (\<exists>H T E n. st' = st\<lparr>theap := H, ttree := T, events := E, ticks := n\<rparr> \<and> (\<forall>x. x \<noteq> query_ev q \<longrightarrow> E x = events st x))"
proof -
  obtain e where e: "events st (query_ev q) = Some e" "ev_data e = q" "ev_handler e = H_dns_timeout_handler"
    using dns_inv_D(4) [OF inv q] by blast
  obtain st' evs' where a: "event_add_timer st (query_ev q) t = Some st'" "timers_ok b st' evs'" "set evs' = insert (query_ev q) (set evs)"
    "expiry st' (query_ev q) = (if query_ev q \<in> set evs \<and> \<bar>int (pos b k) - int (pos b (expiry st (query_ev q)))\<bar> < 300
       then expiry st (query_ev q) else k)"
    using add_timer_ok [OF dns_inv_timers [OF inv] e(1) k] by blast
  obtain H T n f where s: "st' = st\<lparr>theap := H, ttree := T, events := (events st)(query_ev q \<mapsto> e\<lparr>ev_timer_set := f\<rparr>), ticks := n\<rparr>"
    using add_timer_frame [OF a(1) e(1)] by blast
  have "query_event st' x" if "x \<in> set qs" for x
  proof -
    have "query_event st x" using inv that by (simp add: dns_inv_def)
    then show ?thesis using e by (auto simp: s query_event_def)
  qed
  moreover have "query_ev x \<in> set evs' \<longleftrightarrow> x \<notin> U - {q}" if "x \<in> set qs" for x
    using inv that a(3) by (auto simp: dns_inv_def)
  ultimately have "dns_inv b st' (U - {q}) qs cs evs'"
    using inv a(2) unfolding dns_inv_def by (simp add: s)
  moreover have "q \<in> U \<longrightarrow> expiry st' (query_ev q) = k" using inv q a(4) by (simp add: dns_inv_def)
  moreover have "\<exists>H T E n. st' = st\<lparr>theap := H, ttree := T, events := E, ticks := n\<rparr> \<and> (\<forall>x. x \<noteq> query_ev q \<longrightarrow> E x = events st x)"
    unfolding s by (intro exI [of _ H] exI [of _ T] exI [of _ "(events st)(query_ev q \<mapsto> e\<lparr>ev_timer_set := f\<rparr>)"] exI [of _ n]) simp
  ultimately show ?thesis using a(1,3) by blast
qed

lemma upd_query_ok:
  assumes inv: "dns_inv b st U qs cs evs" and q: "queries st q = Some dq"
  shows "upd_query st q f = Some (st\<lparr>queries := (queries st)(q \<mapsto> f dq)\<rparr>)"
    "dns_inv b (st\<lparr>queries := (queries st)(q \<mapsto> f dq)\<rparr>) U qs cs evs"
proof -
  show "upd_query st q f = Some (st\<lparr>queries := (queries st)(q \<mapsto> f dq)\<rparr>)" using q by (simp add: upd_query_def)
  have "q \<in> set qs" using inv q by (auto simp: dns_inv_def)
  then show "dns_inv b (st\<lparr>queries := (queries st)(q \<mapsto> f dq)\<rparr>) U qs cs evs"
    using inv by (auto simp: dns_inv_def timers_ok_def query_event_def)
qed

text \<open>Sending a query again, on both outcomes.\<close>

lemma resend_query_ok:
  assumes inv: "dns_inv b st U qs cs evs" and q: "q \<in> set qs" "queries st q = Some dq"
    and s: "dns_socket st (dq_len dq) a rest"
    and k: "k = msec (clock st (ticks st)) + DNS_TIMEOUT" "pos b k < 2 ^ 31"
  shows "\<exists>st' evs'. resend_query st q = Some st' \<and> dns_inv b st' (if send_result a < 0 then U else U - {q}) qs cs evs' \<and>
    (send_result a \<ge> 0 \<and> q \<in> U \<longrightarrow> expiry st' (query_ev q) = k) \<and> queries st' = queries st \<and> script st' = rest \<and> clock st' = clock st \<and>
    caches st' = caches st \<and> dns_live st' \<and> (send_result a < 0 \<longrightarrow> theap st' = theap st \<and> ttree st' = ttree st)"
proof -
  obtain C E where r: "send_query st (dq_len dq) = Some (send_result a, st\<lparr>conns := C, events := E, script := rest\<rparr>)"
    "same_evs (events st) E" "dns_live (st\<lparr>conns := C, events := E, script := rest\<rparr>)"
    by (rule send_query_run [OF s])
  let ?st1 = "st\<lparr>conns := C, events := E, script := rest\<rparr>"
  have inv1: "dns_inv b ?st1 U qs cs evs" by (rule dns_inv_evs [OF inv r(2)])
  show ?thesis
  proof (cases "send_result a < 0")
    case True
    then have "resend_query st q = Some ?st1" using q(2) r(1) by (simp add: resend_query_def)
    then show ?thesis using True inv1 r(3) by (intro exI [of _ ?st1] exI [of _ evs]) simp
  next
    case False
    have k1: "k = msec (clock ?st1 (ticks ?st1)) + DNS_TIMEOUT" using k(1) by simp
    obtain st' evs' H T E' n where a: "event_add_timer ?st1 (query_ev q) DNS_TIMEOUT = Some st'" "dns_inv b st' (U - {q}) qs cs evs'"
      "q \<in> U \<longrightarrow> expiry st' (query_ev q) = k"
      "st' = ?st1\<lparr>theap := H, ttree := T, events := E', ticks := n\<rparr>" "\<forall>x. x \<noteq> query_ev q \<longrightarrow> E' x = events ?st1 x"
      using arm_ok [OF inv1 q(1) k1 k(2)] by blast
    have "resend_query st q = Some st'" using False q(2) r(1) a(1) by (simp add: resend_query_def)
    moreover have "query_event st' q" using a(2) q(1) by (simp add: dns_inv_def)
    then have "E' (query_ev q) \<noteq> None" by (auto simp: query_event_def a(4) split: option.splits)
    then have "dns_live st'" using r(3) a(5) by (auto simp: a(4) dns_live_def) metis
    ultimately show ?thesis using False a(2,3) by (intro exI [of _ st'] exI [of _ evs']) (simp add: a(4))
  qed
qed

section \<open>Timeouts\<close>

text \<open>
  The handler of a timeout that has fired, on every branch: the query is sent again, or dropped when
  it has been sent three times; when sending fails it stays without a timeout.
\<close>

lemma timeout_ok:
  assumes inv: "dns_inv b st {q} qs cs evs" and q: "q \<in> set qs" "queries st q = Some dq"
    and e: "events st (query_ev q) = Some e" "ev_timedout e"
    and s: "dq_trytimes dq \<le> 1 \<longrightarrow> dns_socket st (dq_len dq) a rest"
    and k: "k = msec (clock st (ticks st)) + DNS_TIMEOUT" "pos b k < 2 ^ 31"
  shows "\<exists>st' evs'. dns_timeout_handler st (query_ev q) = Some st' \<and> clock st' = clock st \<and> caches st' = caches st \<and>
    (if dq_trytimes dq > 1
     then dns_ok b st' (remove1 q qs) cs evs' \<and> queries st' = (queries st)(q := None) \<and> script st' = script st
     else script st' = rest \<and> dns_live st' \<and> queries st' = (queries st)(q \<mapsto> dq\<lparr>dq_trytimes := dq_trytimes dq + 1\<rparr>) \<and>
       dns_inv b st' (if send_result a < 0 then {q} else {}) qs cs evs' \<and> (send_result a \<ge> 0 \<longrightarrow> expiry st' (query_ev q) = k) \<and>
       (send_result a < 0 \<longrightarrow> theap st' = theap st \<and> ttree st' = ttree st))"
proof -
  have d: "ev_data e = q" using dns_inv_D(4) [OF inv q(1)] e(1) by auto
  let ?dq = "dq\<lparr>dq_trytimes := dq_trytimes dq + 1\<rparr>"
  let ?st = "st\<lparr>queries := (queries st)(q \<mapsto> ?dq)\<rparr>"
  have "dq_trytimes_update (\<lambda>n. n + 1) dq = ?dq" by (cases dq) simp
  then have u: "upd_query st q (dq_trytimes_update (\<lambda>n. n + 1)) = Some ?st" unfolding upd_query_def q(2) option.case by (rule arg_cong)
  have inv1: "dns_inv b ?st {q} qs cs evs" using upd_query_ok(2) [OF inv q(2), of "\<lambda>_. ?dq"] .
  have h: "dns_timeout_handler st (query_ev q) =
      (if dq_trytimes dq > 1 then do { H \<leftarrow> queue_remove (links ?st) q; free_query (?st\<lparr>links := H\<rparr>) q } else resend_query ?st q)"
    using e d q(2) u by (simp add: dns_timeout_handler_def DNS_TRY_LIMIT_def)
  show ?thesis
  proof (cases "dq_trytimes dq > 1")
    case True
    from unlink_free_ok [OF inv1 q(1)] obtain H st' L where f: "queue_remove (links ?st) q = Some H"
      "free_query (?st\<lparr>links := H\<rparr>) q = Some st'" "dns_inv b st' ({q} - {q}) (remove1 q qs) cs evs"
      "st' = ?st\<lparr>links := L, queries := (queries ?st)(q := None), events := (events ?st)(query_ev q := None),
         theap := (theap ?st)(timer_node (query_ev q) := None)\<rparr>" by auto
    then show ?thesis using h True by (intro exI [of _ st'] exI [of _ evs]) simp
  next
    case False
    then have s1: "dns_socket ?st (dq_len ?dq) a rest" using s by (simp add: dns_socket_def dns_live_def)
    have k1: "k = msec (clock ?st (ticks ?st)) + DNS_TIMEOUT" using k(1) by simp
    from resend_query_ok [OF inv1 q(1) _ s1 k1 k(2)] obtain st' evs' where r: "resend_query ?st q = Some st'"
      "dns_inv b st' (if send_result a < 0 then {q} else {q} - {q}) qs cs evs'" "send_result a \<ge> 0 \<longrightarrow> expiry st' (query_ev q) = k"
      "queries st' = queries ?st" "script st' = rest" "clock st' = clock st" "caches st' = caches st" "dns_live st'" "send_result a < 0 \<longrightarrow> theap st' = theap st \<and> ttree st' = ttree st" by auto
    then show ?thesis using h False by (intro exI [of _ st'] exI [of _ evs']) (auto split: if_splits)
  qed
qed

section \<open>Asking\<close>

text \<open>What \<open>calloc\<close> returns for a query overlaps nothing that is in use.\<close>

definition fresh_query :: "('k, 'a) dns_state_scheme \<Rightarrow> addr \<Rightarrow> bool" where
  "fresh_query st q \<longleftrightarrow> links st q = None \<and> events st (query_ev q) = None \<and> timer_node (query_ev q) \<noteq> rbt_sentinel (ttree st)"

lemma dns_inv_queues:
  assumes "dns_inv b st U qs cs evs"
  shows "is_queue (links st) (query_queue st) qs" "is_queue (links st) (cache_queue st) cs"
    "set (query_queue st # qs) \<inter> set (cache_queue st # cs) = {}" "dom (queries st) = set qs"
    "q \<in> set qs \<Longrightarrow> query_ev q \<in> set evs \<longleftrightarrow> q \<notin> U" "q \<in> set qs \<Longrightarrow> query_event st q"
  using assms by (auto simp: dns_inv_def)

text \<open>A new link at the tail of the query queue leaves the cache queue in place.\<close>

lemma enqueue_query:
  assumes inv: "dns_inv b st U qs cs evs" and q: "links st q = None"
  obtains H where "queue_insert_tail ((links st)(q \<mapsto> n)) (query_queue st) q = Some H"
    "is_queue H (query_queue st) (qs @ [q])" "is_queue H (cache_queue st) cs" "q \<notin> set (query_queue st # qs)"
    "q \<notin> set (cache_queue st # cs)"
proof -
  note i = dns_inv_queues [OF inv]
  have n: "q \<notin> set (query_queue st # qs)" "q \<notin> set (cache_queue st # cs)"
    using is_queue_dom [OF i(1)] is_queue_dom [OF i(2)] q by auto
  let ?L = "(links st)(q \<mapsto> n)"
  have f: "is_queue ?L (query_queue st) qs" "is_queue ?L (cache_queue st) cs"
    by (rule is_queue_frame [OF i(1)], use n in auto) (rule is_queue_frame [OF i(2)], use n in auto)
  obtain H where h: "queue_insert_tail ?L (query_queue st) q = Some H" "is_queue H (query_queue st) (qs @ [q])"
    using mq.ins_tail_rep [OF f(1) _ n(1)] by auto
  have "is_queue H (cache_queue st) cs"
  proof (rule is_queue_frame [OF f(2)], rule ballI)
    fix x assume "x \<in> set (cache_queue st # cs)"
    then have "x \<notin> set (query_queue st # q # qs)" using i(3) n(2) by auto
    then show "H x = ?L x" by (rule insert_tail_frame [OF f(1) h(1)])
  qed
  then show thesis using that h n by blast
qed

lemma calloc_query_timers:
  assumes ok: "timers_ok b st evs" and q: "fresh_query st q"
  shows "query_ev q \<notin> set evs" "timers_ok b (calloc_query q st) evs"
proof -
  show n: "query_ev q \<notin> set evs" using ok q by (auto simp: timers_ok_def fresh_query_def)
  have "timers_ok b (st\<lparr>events := (events st)(query_ev q \<mapsto> zero_event), theap := (theap st)(timer_node (query_ev q) \<mapsto> zero_node)\<rparr>) evs"
    by (rule timers_ok_upd [OF ok n]) (use q in \<open>simp_all add: fresh_query_def zero_event_def\<close>)
  then show "timers_ok b (calloc_query q st) evs" by (simp add: timers_ok_def calloc_query_def)
qed

text \<open>The query as it stands before its packet is sent.\<close>

definition prepared :: "http_url_s \<Rightarrow> u16 \<Rightarrow> bytes \<Rightarrow> dns_handler \<Rightarrow> dns_query_s" where
  "prepared url qid pkt handler = \<lparr>dq_url = url, dq_id = ucast qid, dq_pkt = pkt, dq_len = length (u_host url) + 18,
     dq_trytimes = 0, dq_handler = handler\<rparr>"

definition prepare :: "('k, 'a) dns_state_scheme \<Rightarrow> addr \<Rightarrow> addr option list \<Rightarrow> dns_query_s \<Rightarrow> ('k, 'a) dns_state_scheme" where
  "prepare st q ms dq = (calloc_query q (st\<lparr>dns_mem := ms, dns_id := dns_id st + 1\<rparr>))\<lparr>queries := (queries st)(q \<mapsto> dq)\<rparr>"

lemma prepare_fields:
  "links (prepare st q ms dq) = (links st)(q \<mapsto> \<lparr>qprev = 0, qnext = 0\<rparr>)" "queries (prepare st q ms dq) = (queries st)(q \<mapsto> dq)"
  "events (prepare st q ms dq) = (events st)(query_ev q \<mapsto> zero_event)" "dns_conn (prepare st q ms dq) = dns_conn st"
  "conns (prepare st q ms dq) = conns st" "script (prepare st q ms dq) = script st" "dns_mem (prepare st q ms dq) = ms"
  "theap (prepare st q ms dq) = (theap st)(timer_node (query_ev q) \<mapsto> zero_node)" "ttree (prepare st q ms dq) = ttree st"
  "clock (prepare st q ms dq) = clock st" "ticks (prepare st q ms dq) = ticks st" "caches (prepare st q ms dq) = caches st"
  "cache_count (prepare st q ms dq) = cache_count st" "query_queue (prepare st q ms dq) = query_queue st"
  "cache_queue (prepare st q ms dq) = cache_queue st" "dns_id (prepare st q ms dq) = dns_id st + 1"
  by (simp_all add: prepare_def calloc_query_def)

lemma dns_query_prefix:
  assumes inv: "dns_inv b st U qs cs evs" and host: "0 \<notin> set (u_host url)" "length (u_host url) + 18 \<le> DNS_UDP_SIZE"
    and miss: "map_of (cache_list st cs) (u_host url) = None" and m: "dns_mem st = Some q # ms"
  obtains pkt where "take (length (u_host url) + 18) pkt = query_bytes (dns_id st + 1) (u_host url)"
    "dns_query call st url handler =
       do { (rc, st) \<leftarrow> send_query (prepare st q ms (prepared url (dns_id st + 1) pkt handler)) (length (u_host url) + 18);
            if rc < 0 then do { st \<leftarrow> free_query st q; Some (- 1, st) }
            else do {
              st \<leftarrow> upd_event st (query_ev q) (\<lambda>e. e\<lparr>ev_data := q, ev_handler := H_dns_timeout_handler\<rparr>);
              st \<leftarrow> event_add_timer st (query_ev q) DNS_TIMEOUT;
              H \<leftarrow> queue_insert_tail (links st) (query_queue st) q;
              Some (0, st\<lparr>links := H\<rparr>) } }"
proof -
  obtain r where pk: "pack_udp (dns_id st + 1) (replicate DNS_UDP_SIZE 0) (u_host url) =
      Some (query_bytes (dns_id st + 1) (u_host url) @ r, length (u_host url) + 18)"
    "length (query_bytes (dns_id st + 1) (u_host url)) = length (u_host url) + 18"
    using pack_udp_ok [OF host] by blast
  have c: "find_cache st (u_host url) = Some None" using find_cache_ok [OF inv, of "u_host url"] miss by simp
  have l: "\<not> DNS_UDP_SIZE - sizeof_dns_header \<le> length (u_host url)"
    using host(2) by (simp add: DNS_UDP_SIZE_def sizeof_dns_header_def)
  show thesis
    by (rule that [of "query_bytes (dns_id st + 1) (u_host url) @ r"])
      (use pk c l m in \<open>simp_all add: dns_query_def calloc_query_def upd_query_def prepare_def prepared_def\<close>)
qed

lemma dns_query_sent:
  assumes inv: "dns_ok b st qs cs evs" and host: "0 \<notin> set (u_host url)" "length (u_host url) + 18 \<le> DNS_UDP_SIZE"
    and miss: "map_of (cache_list st cs) (u_host url) = None" and m: "dns_mem st = Some q # ms" "fresh_query st q"
    and s: "dns_socket st (length (u_host url) + 18) a rest"
    and k: "k = msec (clock st (ticks st)) + DNS_TIMEOUT" "pos b k < 2 ^ 31"
  shows "\<exists>st' evs' dq. dns_query call st url handler = Some (if send_result a < 0 then - 1 else 0, st') \<and>
    script st' = rest \<and> dns_mem st' = ms \<and> caches st' = caches st \<and> dns_id st' = dns_id st + 1 \<and> dns_live st' \<and>
    (if send_result a < 0 then dns_ok b st' qs cs evs \<and> queries st' = queries st
     else dns_ok b st' (qs @ [q]) cs evs' \<and> expiry st' (query_ev q) = k \<and> queries st' = (queries st)(q \<mapsto> dq) \<and>
       dq_url dq = url \<and> dq_id dq = ucast (dns_id st + 1) \<and> dq_trytimes dq = 0 \<and> dq_handler dq = handler \<and>
       take (dq_len dq) (dq_pkt dq) = query_bytes (dns_id st + 1) (u_host url))"
proof -
  obtain pkt where pkt: "take (length (u_host url) + 18) pkt = query_bytes (dns_id st + 1) (u_host url)" and
    run: "dns_query call st url handler =
       do { (rc, st) \<leftarrow> send_query (prepare st q ms (prepared url (dns_id st + 1) pkt handler)) (length (u_host url) + 18);
            if rc < 0 then do { st \<leftarrow> free_query st q; Some (- 1, st) }
            else do {
              st \<leftarrow> upd_event st (query_ev q) (\<lambda>e. e\<lparr>ev_data := q, ev_handler := H_dns_timeout_handler\<rparr>);
              st \<leftarrow> event_add_timer st (query_ev q) DNS_TIMEOUT;
              H \<leftarrow> queue_insert_tail (links st) (query_queue st) q;
              Some (0, st\<lparr>links := H\<rparr>) } }"
    by (rule dns_query_prefix [OF inv host miss m(1)])
  let ?dq = "prepared url (dns_id st + 1) pkt handler"
  let ?st1 = "prepare st q ms ?dq"
  note P = prepare_fields
  have evq: "events st (query_ev q) = None" and lq: "links st q = None" using m(2) by (auto simp: fresh_query_def)
  have s1: "dns_socket ?st1 (length (u_host url) + 18) a rest"
    using s evq by (auto simp: dns_socket_def dns_live_def P)
  obtain C E where r: "send_query ?st1 (length (u_host url) + 18) = Some (send_result a, ?st1\<lparr>conns := C, events := E, script := rest\<rparr>)"
    "same_evs (events ?st1) E" "dns_live (?st1\<lparr>conns := C, events := E, script := rest\<rparr>)"
    "\<And>cn. conns ?st1 (dns_conn ?st1) = Some cn \<Longrightarrow> \<exists>cn'. C (dns_conn ?st1) = Some cn' \<and> c_write cn' = c_write cn"
    by (rule send_query_run [OF s1]) blast
  let ?st2 = "?st1\<lparr>conns := C, events := E, script := rest\<rparr>"
  have t0: "query_ev q \<notin> set evs" "timers_ok b ?st1 evs"
    using calloc_query_timers [OF dns_inv_timers [OF inv] m(2)] by (simp_all add: timers_ok_def prepare_def calloc_query_def)
  have t2: "timers_ok b ?st2 evs"
    using timers_ok_evs [OF t0(2) r(2), of C] by (simp add: timers_ok_def)
  note Q = dns_inv_queues [OF inv]
  obtain H where H: "queue_insert_tail ((links st)(q \<mapsto> \<lparr>qprev = 0, qnext = 0\<rparr>)) (query_queue st) q = Some H"
    "is_queue H (query_queue st) (qs @ [q])" "is_queue H (cache_queue st) cs" "q \<notin> set (query_queue st # qs)"
    "q \<notin> set (cache_queue st # cs)"
    by (rule enqueue_query [OF inv lq])
  have old: "\<exists>e. E (query_ev x) = Some e \<and> ev_data e = x \<and> ev_handler e = H_dns_timeout_handler" if x: "x \<in> set qs" for x
  proof -
    have "x \<noteq> q" using x H(4) by auto
    then show ?thesis using dns_inv_D(4) [OF inv x] same_evsD [OF r(2), of "query_ev x"] by (auto simp: P)
  qed
  obtain e where e: "E (query_ev q) = Some e" "\<not> ev_timer_set e"
    using same_evsD [OF r(2), of "query_ev q"] by (auto simp: P zero_event_def)
  have old': "case E (query_ev x) of None \<Rightarrow> False | Some e \<Rightarrow> ev_data e = x \<and> ev_handler e = H_dns_timeout_handler"
    if "x \<in> set qs" for x using old [OF that] by auto
  have live: "\<exists>conn we. C (dns_conn st) = Some conn \<and> E (c_write conn) = Some we \<and> c_write conn \<noteq> query_ev q"
  proof -
    obtain cn we where cn: "conns st (dns_conn st) = Some cn" "events st (c_write cn) = Some we"
      using s by (auto simp: dns_socket_def dns_live_def)
    have n: "c_write cn \<noteq> query_ev q" using cn(2) evq by auto
    obtain cn' where "C (dns_conn st) = Some cn'" "c_write cn' = c_write cn" using r(4) [of cn] cn(1) by (auto simp: P)
    moreover have "\<exists>we. E (c_write cn) = Some we" using same_evsD [OF r(2), of "c_write cn"] cn(2) n by (auto simp: P)
    ultimately show ?thesis using n by auto
  qed
  have qn: "queries st q = None" using Q(4) H(4) by auto
  show ?thesis
  proof (cases "send_result a < 0")
    case True
    let ?st3 = "?st2\<lparr>links := (links ?st2)(q := None), queries := (queries ?st2)(q := None),
        events := E(query_ev q := None), theap := (theap ?st2)(timer_node (query_ev q) := None)\<rparr>"
    have "dns_query call st url handler = Some (- 1, ?st3)"
      using run r(1) True by (simp add: free_query_def P)
    moreover have "timers_ok b (?st2\<lparr>events := (events ?st2)(query_ev q := None), theap := (theap ?st2)(timer_node (query_ev q) := None)\<rparr>) evs"
      by (rule timers_ok_upd [OF t2 t0(1)]) (use m(2) in \<open>simp_all add: fresh_query_def P\<close>)
    then have "dns_ok b ?st3 qs cs evs"
      using inv old' H(4) lq qn
      by (auto simp: dns_inv_def timers_ok_def P query_event_def fun_upd_idem)
    moreover have "dns_live ?st3" using live by (auto simp: P dns_live_def)
    ultimately show ?thesis using True qn
      by (intro exI [of _ ?st3] exI [of _ evs] exI [of _ ?dq]) (simp add: P fun_upd_idem)
  next
    case False
    let ?e = "e\<lparr>ev_data := q, ev_handler := H_dns_timeout_handler\<rparr>"
    let ?st3 = "?st2\<lparr>events := E(query_ev q \<mapsto> ?e)\<rparr>"
    have u: "upd_event ?st2 (query_ev q) (\<lambda>e. e\<lparr>ev_data := q, ev_handler := H_dns_timeout_handler\<rparr>) = Some ?st3"
      using e by (simp add: upd_event_def)
    have e2: "events ?st2 (query_ev q) = Some e" using e(1) by simp
    have t3: "timers_ok b ?st3 evs" using timers_ok_event [OF t2 e2, of ?e] by simp
    have e3: "events ?st3 (query_ev q) = Some ?e" by simp
    have k3: "k = msec (clock ?st3 (ticks ?st3)) + DNS_TIMEOUT" using k(1) by (simp add: P)
    obtain st4 evs' where a4: "event_add_timer ?st3 (query_ev q) DNS_TIMEOUT = Some st4" "timers_ok b st4 evs'"
      "set evs' = insert (query_ev q) (set evs)" "expiry st4 (query_ev q) = k"
      using add_timer_ok [OF t3 e3 k3 k(2)] t0(1) by auto
    obtain TH TT n f where f: "st4 = ?st3\<lparr>theap := TH, ttree := TT, events := (events ?st3)(query_ev q \<mapsto> ?e\<lparr>ev_timer_set := f\<rparr>), ticks := n\<rparr>"
      using add_timer_frame [OF a4(1) e3] by blast
    let ?st5 = "st4\<lparr>links := H\<rparr>"
    have l4: "links st4 = (links st)(q \<mapsto> \<lparr>qprev = 0, qnext = 0\<rparr>)" "query_queue st4 = query_queue st" by (simp_all add: f P)
    have "dns_query call st url handler = Some (0, ?st5)"
      using run r(1) False u a4(1) H(1) by (simp add: l4)
    moreover have "timers_ok b ?st5 evs'" using a4(2) by (simp add: timers_ok_def)
    then have "dns_ok b ?st5 (qs @ [q]) cs evs'"
      using inv old' H a4(3) Q(5)
      by (auto simp: dns_inv_def f P query_event_def)
    moreover have "dns_live ?st5" using live e(1) by (auto simp: f P dns_live_def)
    moreover have "expiry ?st5 (query_ev q) = k" using a4(4) by (simp add: expiry_def)
    ultimately show ?thesis using False pkt
      by (intro exI [of _ ?st5] exI [of _ evs'] exI [of _ ?dq]) (simp add: f P prepared_def)
  qed
qed

text \<open>A cached host is answered at once, by the handler itself.\<close>

lemma dns_query_hit:
  assumes inv: "dns_inv b st U qs cs evs" and c: "map_of (cache_list st cs) (u_host url) = Some ad"
    and l: "length (u_host url) < DNS_UDP_SIZE - sizeof_dns_header"
  shows "dns_query call st url handler = do { st \<leftarrow> call handler url ad st; Some (0, st) }"
proof -
  obtain p c where "find_cache st (u_host url) = Some (Some p)" "caches st p = Some c" "dc_addr c = ad"
    using find_cache_ok [OF inv, of "u_host url"] c by auto
  then show ?thesis using l by (simp add: dns_query_def)
qed

section \<open>Answers\<close>

text \<open>What the resolver relies on in the handlers it calls: they keep its data and the timers of its queries.\<close>

definition client_ok :: "u32 \<Rightarrow> ('k, 'a) dns_call \<Rightarrow> bool" where
  "client_ok b call \<longleftrightarrow> (\<forall>h url ad st U qs cs evs. dns_inv b st U qs cs evs \<longrightarrow>
     (\<exists>st' evs'. call h url ad st = Some st' \<and> dns_inv b st' U qs cs evs' \<and> queries st' = queries st \<and> caches st' = caches st))"

lemma client_okD:
  assumes "client_ok b call" "dns_inv b st U qs cs evs"
  obtains st' evs' where "call h url ad st = Some st'" "dns_inv b st' U qs cs evs'" "queries st' = queries st" "caches st' = caches st"
proof -
  have "\<exists>st' evs'. call h url ad st = Some st' \<and> dns_inv b st' U qs cs evs' \<and> queries st' = queries st \<and> caches st' = caches st"
    using assms(1) unfolding client_ok_def using assms(2) by blast
  then show thesis using that by blast
qed

text \<open>The query an answer belongs to.\<close>

definition asked :: "('k, 'a) dns_state_scheme \<Rightarrow> addr list \<Rightarrow> u16 \<Rightarrow> addr option" where
  "asked st qs qid = find (\<lambda>p. map_option dq_id (queries st p) = Some (ucast qid)) qs"

lemma askedD:
  assumes "asked st qs qid = Some q"
  shows "q \<in> set qs" "\<exists>dq. queries st q = Some dq \<and> dq_id dq = ucast qid"
  using assms find_Some_iff [of _ qs q] by (auto simp: asked_def dest: nth_mem)

definition packet_for :: "bytes \<Rightarrow> u16 \<Rightarrow> bool" where
  "packet_for pkt qid \<longleftrightarrow> ld 2 pkt 4 = Some (htons 1) \<and> ld 2 pkt 0 = Some qid"

lemma parse_udp_step:
  assumes inv: "dns_inv b st U qs cs evs" and p: "packet_for pkt qid"
  shows "parse_udp call st pkt len = (case asked st qs qid of None \<Rightarrow> Some st
     | Some q \<Rightarrow> do { answer \<leftarrow> parse_answer pkt len;
                     case answer of
                       Retry \<Rightarrow> parse_failed st q
                     | NoAddress \<Rightarrow> drop_query st q
                     | Address sin_addr \<Rightarrow>
                         do { dq \<leftarrow> queries st q;
                              st \<leftarrow> set_cache st (u_host (dq_url dq)) sin_addr;
                              st \<leftarrow> call (dq_handler dq) (dq_url dq) sin_addr st;
                              drop_query st q } })"
  using p find_query_ok [OF inv, of qid] by (simp add: parse_udp_def packet_for_def htons_htons asked_def)

lemma parse_failed_ok:
  assumes inv: "dns_ok b st qs cs evs" and q: "q \<in> set qs" "queries st q = Some dq"
    and s: "dq_trytimes dq \<le> 1 \<longrightarrow> dns_socket st (dq_len dq) a rest"
    and k: "k = msec (clock st (ticks st)) + DNS_TIMEOUT" "pos b k < 2 ^ 31"
  shows "\<exists>st' evs'. parse_failed st q = Some st' \<and> caches st' = caches st \<and>
    (if dq_trytimes dq > 1
     then dns_ok b st' (remove1 q qs) cs evs' \<and> queries st' = (queries st)(q := None)
     else dns_ok b st' qs cs evs' \<and> queries st' = (queries st)(q \<mapsto> dq\<lparr>dq_trytimes := dq_trytimes dq + 1\<rparr>) \<and>
       script st' = rest \<and> dns_live st')"
proof -
  let ?dq = "dq\<lparr>dq_trytimes := dq_trytimes dq + 1\<rparr>"
  let ?st = "st\<lparr>queries := (queries st)(q \<mapsto> ?dq)\<rparr>"
  have "dq_trytimes_update (\<lambda>n. n + 1) dq = ?dq" by (cases dq) simp
  then have u: "upd_query st q (dq_trytimes_update (\<lambda>n. n + 1)) = Some ?st" unfolding upd_query_def q(2) option.case by (rule arg_cong)
  have inv1: "dns_ok b ?st qs cs evs" using upd_query_ok(2) [OF inv q(2), of "\<lambda>_. ?dq"] .
  have h: "parse_failed st q = (if dq_trytimes dq > 1 then drop_query ?st q else resend_query ?st q)"
    using q(2) u by (simp add: parse_failed_def DNS_TRY_LIMIT_def)
  show ?thesis
  proof (cases "dq_trytimes dq > 1")
    case True
    from drop_query_ok [OF inv1 q(1)] obtain st' L H T where d: "drop_query ?st q = Some st'"
      "dns_ok b st' (remove1 q qs) cs (remove1 (query_ev q) evs)"
      "st' = ?st\<lparr>links := L, queries := (queries ?st)(q := None), events := (events ?st)(query_ev q := None), theap := H, ttree := T\<rparr>" by auto
    then show ?thesis using h True by (intro exI [of _ st'] exI [of _ "remove1 (query_ev q) evs"]) simp
  next
    case False
    then have s1: "dns_socket ?st (dq_len ?dq) a rest" using s by (simp add: dns_socket_def dns_live_def)
    have k1: "k = msec (clock ?st (ticks ?st)) + DNS_TIMEOUT" using k(1) by simp
    from resend_query_ok [OF inv1 q(1) _ s1 k1 k(2)] obtain st' evs' where r: "resend_query ?st q = Some st'"
      "dns_ok b st' qs cs evs'" "queries st' = queries ?st" "script st' = rest" "caches st' = caches st" "dns_live st'" by (auto split: if_splits)
    then show ?thesis using h False by (intro exI [of _ st'] exI [of _ evs']) simp
  qed
qed

text \<open>
  An answer with an address: it is cached and handed to the query's handler, and the query is over.
  When the cache has no memory only the caching is left out.
\<close>

definition cached_as :: "('k, 'a) dns_state_scheme \<Rightarrow> addr list \<Rightarrow> bytes \<Rightarrow> u32 \<Rightarrow> addr list \<Rightarrow> ('k, 'a) dns_state_scheme \<Rightarrow> bool" where
  "cached_as st cs host ad cs' st' \<longleftrightarrow> (case dns_mem st of
     Some a # ms \<Rightarrow> cs' = take 50 (a # cs) \<and> cache_list st' cs' = take 50 ((host, ad) # cache_list st cs)
   | _ \<Rightarrow> cs' = cs \<and> cache_list st' cs' = cache_list st cs)"

lemma cache_list_cong: "caches st' = caches st \<Longrightarrow> cache_list st' cs = cache_list st cs"
  by (simp add: cache_list_def)

lemma address_ok:
  assumes inv: "dns_ok b st qs cs evs" and call: "client_ok b call" and p: "packet_for pkt qid" "asked st qs qid = Some q"
    and q: "queries st q = Some dq" "length (u_host (dq_url dq)) < DNS_UDP_SIZE"
    and ans: "parse_answer pkt len = Some (Address ad)"
    and m: "dns_mem st = ao # ms" "\<forall>a. ao = Some a \<longrightarrow> links st a = None"
  shows "\<exists>st1 st2 st' cs' evs'. call (dq_handler dq) (dq_url dq) ad st1 = Some st2 \<and> parse_udp call st pkt len = Some st' \<and>
    dns_ok b st' (remove1 q qs) cs' evs' \<and> queries st' = (queries st)(q := None) \<and> cached_as st cs (u_host (dq_url dq)) ad cs' st'"
proof -
  let ?host = "u_host (dq_url dq)"
  obtain st1 cs' where s: "set_cache st ?host ad = Some st1" "dns_ok b st1 qs cs' evs" "queries st1 = queries st"
    "cached_as st cs ?host ad cs' st1"
  proof (cases ao)
    case None
    have "set_cache st ?host ad = Some (st\<lparr>dns_mem := ms\<rparr>)" using None m by (simp add: set_cache_def)
    moreover have "dns_ok b (st\<lparr>dns_mem := ms\<rparr>) qs cs evs" using inv by (auto simp: dns_inv_def timers_ok_def query_event_def)
    moreover have "cached_as st cs ?host ad cs (st\<lparr>dns_mem := ms\<rparr>)" using None m by (simp add: cached_as_def cache_list_def)
    ultimately show ?thesis using that by simp
  next
    case (Some a)
    have ms: "dns_mem st = Some a # ms" using m(1) Some by simp
    have la: "links st a = None" using m(2) Some by simp
    from set_cache_ok [OF inv ms la q(2), of ad] obtain st1 where "set_cache st ?host ad = Some st1"
      "dns_ok b st1 qs (take 50 (a # cs)) evs" "cache_list st1 (take 50 (a # cs)) = take 50 ((?host, ad) # cache_list st cs)"
      "queries st1 = queries st" by auto
    then show ?thesis using that ms by (simp add: cached_as_def)
  qed
  obtain st2 evs2 where c: "call (dq_handler dq) (dq_url dq) ad st1 = Some st2" "dns_ok b st2 qs cs' evs2"
    "queries st2 = queries st1" "caches st2 = caches st1" by (rule client_okD [OF call s(2)])
  obtain st' L H T where d: "drop_query st2 q = Some st'" "dns_ok b st' (remove1 q qs) cs' (remove1 (query_ev q) evs2)"
    "st' = st2\<lparr>links := L, queries := (queries st2)(q := None), events := (events st2)(query_ev q := None), theap := H, ttree := T\<rparr>"
    using drop_query_ok [OF c(2) askedD(1) [OF p(2)]] by auto
  have "parse_udp call st pkt len = Some st'"
    using parse_udp_step [OF inv p(1), of call len] p(2) ans q(1) s(1) c(1) d(1) by simp
  moreover have "cached_as st cs ?host ad cs' st'"
  proof -
    have "caches st' = caches st1" using c(4) d(3) by simp
    then have "cache_list st' cs' = cache_list st1 cs'" by (rule cache_list_cong)
    then show ?thesis using s(4) unfolding cached_as_def by (simp only:)
  qed
  ultimately show ?thesis using c(1) d(2,3) c(3) s(3) by auto
qed

text \<open>Whatever the answer says, the resolver stays in order.\<close>

lemma parse_udp_ok:
  assumes inv: "dns_ok b st qs cs evs" and call: "client_ok b call" and p: "packet_for pkt qid" "int sizeof_dns_header \<le> len" "len + 3 \<le> int (length pkt)"
    and hosts: "\<forall>q dq. queries st q = Some dq \<longrightarrow> length (u_host (dq_url dq)) < DNS_UDP_SIZE"
    and m: "dns_mem st = ao # ms" "\<forall>a. ao = Some a \<longrightarrow> links st a = None"
    and s: "\<forall>q dq. queries st q = Some dq \<longrightarrow> dns_socket st (dq_len dq) a rest"
    and k: "pos b (msec (clock st (ticks st)) + DNS_TIMEOUT) < 2 ^ 31"
  shows "\<exists>st' qs' cs' evs'. parse_udp call st pkt len = Some st' \<and> dns_ok b st' qs' cs' evs' \<and>
    (qs' = qs \<or> (\<exists>q. asked st qs qid = Some q \<and> qs' = remove1 q qs))"
proof (cases "asked st qs qid")
  case None
  then have "parse_udp call st pkt len = Some st" using parse_udp_step [OF inv p(1)] by simp
  then show ?thesis using inv by blast
next
  case (Some q)
  obtain dq where q: "q \<in> set qs" "queries st q = Some dq" using askedD [OF Some] by blast
  have "8 \<le> length pkt" using p(2,3) by (simp add: sizeof_dns_header_def)
  then obtain r where r: "parse_answer pkt len = Some r" using parse_answer_ok [OF _ p(3)] by blast
  note step = parse_udp_step [OF inv p(1), of call len, unfolded Some r option.case bind.simps]
  show ?thesis
  proof (cases r)
    case Retry
    from parse_failed_ok [OF inv q _ refl k] s q(2) obtain st' evs' where "parse_failed st q = Some st'"
      "if dq_trytimes dq > 1 then dns_ok b st' (remove1 q qs) cs evs' else dns_ok b st' qs cs evs'" by (metis (full_types))
    then show ?thesis using step Retry Some by (cases "dq_trytimes dq > 1") auto
  next
    case NoAddress
    obtain st' where d: "drop_query st q = Some st'" "dns_ok b st' (remove1 q qs) cs (remove1 (query_ev q) evs)"
      using drop_query_ok [OF inv q(1)] by auto
    have "parse_udp call st pkt len = Some st'" using step NoAddress d(1) by simp
    then show ?thesis using d(2) Some by blast
  next
    case (Address ad)
    have "length (u_host (dq_url dq)) < DNS_UDP_SIZE" using hosts q(2) by blast
    then show ?thesis using address_ok [OF inv call p(1) Some q(2) _ _ m] r Address Some by blast
  qed
qed

section \<open>A query that is never answered\<close>

text \<open>What the expiry loop does for a query's timer that is due.\<close>

definition fire :: "('k, 'a) dns_state_scheme \<Rightarrow> addr \<Rightarrow> (('k, 'a) dns_state_scheme) option" where
  "fire st q =
     do { st \<leftarrow> event_del_timer st (query_ev q);
          st \<leftarrow> upd_event st (query_ev q) (ev_timedout_update (\<lambda>_. True));
          dns_timeout_handler st (query_ev q) }"

definition expire_call :: "event_handler \<Rightarrow> addr \<Rightarrow> ('k, 'a) dns_state_scheme \<Rightarrow> (('k, 'a) dns_state_scheme) option" where
  "expire_call h ev st = (if h = H_dns_timeout_handler then dns_timeout_handler st ev else Some st)"

lemma expire_fires:
  assumes inv: "dns_ok b st qs cs (query_ev q # evs)" and q: "q \<in> set qs"
    and now: "now = msec (clock st (ticks st))" "pos b now < 2 ^ 31" and due: "due b now st (query_ev q)"
  shows "event_expire_timers expire_call st = do { st \<leftarrow> fire (st\<lparr>ticks := Suc (ticks st)\<rparr>) q; event_expire_timers expire_call st }"
proof -
  let ?st = "st\<lparr>ticks := Suc (ticks st)\<rparr>"
  note t = dns_inv_timers [OF inv]
  have t1: "timers_ok b ?st (query_ev q # evs)" using t by simp
  obtain H tree st1 st2 e where e: "events ?st (query_ev q) = Some e" "event_del_timer ?st (query_ev q) = Some st1"
    "upd_event st1 (query_ev q) (ev_timedout_update (\<lambda>_. True)) = Some st2"
    "st2 = ?st\<lparr>theap := H, ttree := tree,
        events := (events ?st)(query_ev q \<mapsto> e\<lparr>ev_timer_set := False, ev_timedout := True\<rparr>)\<rparr>" by (rule pop_ok [OF t1])
  have h: "ev_handler e = H_dns_timeout_handler" using dns_inv_D(4) [OF inv q] e(1) by auto
  have e2: "events st2 (query_ev q) = Some (e\<lparr>ev_timer_set := False, ev_timedout := True\<rparr>)" using e(4) by simp
  show ?thesis
    using expire_step [OF t now, of expire_call] due e(2,3) e2 h by (simp add: fire_def expire_call_def)
qed

text \<open>
  A query without a timer: its node has been taken out of the timer tree and its links cleared.
  Taking it out once more follows the cleared links.
\<close>

definition null_unmapped :: "('k, 'a) dns_state_scheme \<Rightarrow> bool" where
  "null_unmapped st \<longleftrightarrow> theap st 0 = None \<and> rbt_sentinel (ttree st) \<noteq> 0"

definition timer_cleared :: "('k, 'a) dns_state_scheme \<Rightarrow> addr \<Rightarrow> bool" where
  "timer_cleared st q \<longleftrightarrow> theap st 0 = None \<and> rbt_sentinel (ttree st) \<noteq> 0 \<and>
     map_option (\<lambda>n. (rb_left n, rb_right n)) (theap st (timer_node (query_ev q))) = Some (0, 0)"

lemma del_timer_unlinks:
  assumes ok: "timers_ok b st evs" and q: "query_ev q \<in> set evs" and d: "event_del_timer st (query_ev q) = Some st'" and n: "null_unmapped st"
  shows "timer_cleared st' q"
proof -
  let ?a = "timer_node (query_ev q)"
  have r: "tt_rep b (theap st, ttree st) (map timer_node evs)" "?a \<in> set (map timer_node evs)"
    using ok q by (auto simp: timers_ok_def)
  from tt_delete_node [OF r] obtain H tree where H: "rbtree_delete (theap st) (ttree st) ?a = Some (H, tree)"
    "tt_live (H, tree) = tt_live (theap st, ttree st)" "clear_links H ?a = Some H" by metis
  have s: "rbt_sentinel tree = rbt_sentinel (ttree st)"
    using H(1) by (auto simp: rbtree_delete_def bind_eq_Some_conv split: if_splits)
  have "H 0 = None" using fun_cong [OF H(2), of 0] n s by (simp add: tt_live_def null_unmapped_def)
  moreover have "map_option (\<lambda>n. (rb_left n, rb_right n)) (H ?a) = Some (0, 0)"
  proof -
    obtain n where n: "H ?a = Some n" using H(3) by (auto simp: clear_links_def put_def split: option.splits)
    then have "H(?a \<mapsto> n\<lparr>rb_left := 0, rb_right := 0, rb_parent := 0\<rparr>) = H" using H(3) by (simp add: clear_links_def put_def)
    then have "H ?a = Some (n\<lparr>rb_left := 0, rb_right := 0, rb_parent := 0\<rparr>)" by (metis fun_upd_same)
    then show ?thesis by simp
  qed
  moreover have "theap st' = H" "ttree st' = tree"
    using d H(1,3) by (auto simp: event_del_timer_def upd_event_def split: option.splits)
  ultimately show ?thesis using n s by (simp add: timer_cleared_def null_unmapped_def)
qed

lemma del_unlinked:
  assumes "timer_cleared st q"
  shows "event_del_timer st (query_ev q) = None"
proof -
  obtain n where n: "theap st (timer_node (query_ev q)) = Some n" "rb_left n = 0" "rb_right n = 0"
    using assms by (auto simp: timer_cleared_def)
  have "rbtree_min (theap st) 0 (rbt_sentinel (ttree st)) = None"
    using assms by (subst rbtree_min.simps) (simp add: get_def timer_cleared_def)
  then show ?thesis
    using n assms by (simp add: event_del_timer_def rbtree_delete_def delete_choose_def get_def timer_cleared_def)
qed

lemma drop_unlinked:
  assumes "timer_cleared st q"
  shows "drop_query st q = None"
proof -
  have "event_del_timer (st\<lparr>links := H\<rparr>) (query_ev q) = None" for H
    by (rule del_unlinked) (use assms in \<open>simp add: timer_cleared_def\<close>)
  then show ?thesis by (cases "queue_remove (links st) q") (simp_all add: drop_query_def)
qed

lemma fire_pop:
  assumes inv: "dns_ok b st qs cs evs" and q: "q \<in> set qs"
  obtains st2 e TH TT where "fire st q = dns_timeout_handler st2 (query_ev q)" "dns_inv b st2 {q} qs cs (remove1 (query_ev q) evs)"
    "events st2 (query_ev q) = Some e" "ev_timedout e"
    "st2 = st\<lparr>theap := TH, ttree := TT, events := (events st)(query_ev q \<mapsto> e)\<rparr>" "null_unmapped st \<Longrightarrow> timer_cleared st2 q"
proof -
  note t = dns_inv_timers [OF inv]
  have i: "query_ev q \<in> set evs" using inv q by (auto simp: dns_inv_def)
  obtain e where e: "events st (query_ev q) = Some e" "ev_data e = q" "ev_handler e = H_dns_timeout_handler"
    using dns_inv_D(4) [OF inv q] by blast
  let ?evs = "remove1 (query_ev q) evs" and ?e = "e\<lparr>ev_timer_set := False, ev_timedout := True\<rparr>"
  obtain TH TT st1 where st1: "event_del_timer st (query_ev q) = Some st1"
    "st1 = st\<lparr>theap := TH, ttree := TT, events := (events st)(query_ev q \<mapsto> e\<lparr>ev_timer_set := False\<rparr>)\<rparr>" "timers_ok b st1 ?evs"
    using del_timer_ok [OF t i e(1)] by metis
  have e1: "events st1 (query_ev q) = Some (e\<lparr>ev_timer_set := False\<rparr>)" by (simp add: st1(2))
  obtain st2 where st2: "upd_event st1 (query_ev q) (ev_timedout_update (\<lambda>_. True)) = Some st2" "timers_ok b st2 ?evs"
    "st2 = st1\<lparr>events := (events st1)(query_ev q \<mapsto> e\<lparr>ev_timer_set := False, ev_timedout := True\<rparr>)\<rparr>"
    using mark_ok [OF st1(3) e1] by auto
  have eq: "st2 = st\<lparr>theap := TH, ttree := TT, events := (events st)(query_ev q \<mapsto> ?e)\<rparr>" by (simp add: st2(3) st1(2))
  have se: "set ?evs = set evs - {query_ev q}" using timers_ok_order(1) [OF t] by simp
  have "dns_inv b st2 {q} qs cs ?evs"
    using inv st2(2) e se unfolding dns_inv_def by (auto simp: eq query_event_def)
  moreover have "fire st q = dns_timeout_handler st2 (query_ev q)" using st1(1) st2(1) by (simp add: fire_def)
  moreover have "timer_cleared st2 q" if n: "null_unmapped st"
    using del_timer_unlinks [OF t i st1(1) n] by (simp add: timer_cleared_def eq st1(2))
  ultimately show thesis using that [of st2 ?e TT TH] eq by simp
qed

text \<open>One timeout, on its three outcomes.\<close>

lemma fire_ok:
  assumes inv: "dns_ok b st qs cs evs" and q: "q \<in> set qs" "queries st q = Some dq"
    and s: "dq_trytimes dq \<le> 1 \<longrightarrow> dns_socket st (dq_len dq) a rest"
    and k: "k = msec (clock st (ticks st)) + DNS_TIMEOUT" "pos b k < 2 ^ 31"
  shows "\<exists>st' evs'. fire st q = Some st' \<and> clock st' = clock st \<and> caches st' = caches st \<and>
    (if dq_trytimes dq > 1
     then dns_ok b st' (remove1 q qs) cs evs' \<and> queries st' = (queries st)(q := None) \<and> script st' = script st
     else script st' = rest \<and> dns_live st' \<and> queries st' = (queries st)(q \<mapsto> dq\<lparr>dq_trytimes := dq_trytimes dq + 1\<rparr>) \<and>
       dns_inv b st' (if send_result a < 0 then {q} else {}) qs cs evs' \<and> (send_result a \<ge> 0 \<longrightarrow> expiry st' (query_ev q) = k) \<and>
       (send_result a < 0 \<longrightarrow> null_unmapped st \<longrightarrow> timer_cleared st' q))"
proof -
  obtain st2 e TH TT where p: "fire st q = dns_timeout_handler st2 (query_ev q)" "dns_inv b st2 {q} qs cs (remove1 (query_ev q) evs)"
    "events st2 (query_ev q) = Some e" "ev_timedout e"
    "st2 = st\<lparr>theap := TH, ttree := TT, events := (events st)(query_ev q \<mapsto> e)\<rparr>" "null_unmapped st \<Longrightarrow> timer_cleared st2 q"
    by (rule fire_pop [OF inv q(1)]) blast
  have q2: "queries st2 q = Some dq" using q(2) by (simp add: p(5))
  have "dns_live st2" if "dns_live st" using that by (auto simp: dns_live_def p(5))
  then have s2: "dq_trytimes dq \<le> 1 \<longrightarrow> dns_socket st2 (dq_len dq) a rest" using s by (auto simp: dns_socket_def p(5))
  have k2: "k = msec (clock st2 (ticks st2)) + DNS_TIMEOUT" using k(1) by (simp add: p(5))
  have f: "clock st2 = clock st" "caches st2 = caches st" "queries st2 = queries st" "script st2 = script st" by (simp_all add: p(5))
  from timeout_ok [OF p(2) q(1) q2 p(3,4) s2 k2 k(2)] obtain st' evs' where t: "dns_timeout_handler st2 (query_ev q) = Some st'"
    "clock st' = clock st2" "caches st' = caches st2" "if dq_trytimes dq > 1
     then dns_ok b st' (remove1 q qs) cs evs' \<and> queries st' = (queries st2)(q := None) \<and> script st' = script st2
     else script st' = rest \<and> dns_live st' \<and> queries st' = (queries st2)(q \<mapsto> dq\<lparr>dq_trytimes := dq_trytimes dq + 1\<rparr>) \<and>
       dns_inv b st' (if send_result a < 0 then {q} else {}) qs cs evs' \<and> (send_result a \<ge> 0 \<longrightarrow> expiry st' (query_ev q) = k) \<and>
       (send_result a < 0 \<longrightarrow> theap st' = theap st2 \<and> ttree st' = ttree st2)" by blast
  have u: "theap st' = theap st2 \<and> ttree st' = ttree st2 \<longrightarrow> null_unmapped st \<longrightarrow> timer_cleared st' q"
    using p(6) by (auto simp: timer_cleared_def)
  show ?thesis using p(1) t u unfolding f by (intro exI [of _ st'] exI [of _ evs']) (cases "dq_trytimes dq > 1"; simp)
qed

end
