(* ===== verification/Dns_Props.thy ===== *)
theory Dns_Props
  imports Async_Dns
begin

text \<open>
  What the resolver of \<^verbatim>\<open>src/async_dns.c\<close> does as a whole: how it starts, what becomes of a query
  that nobody answers, that an answer is delivered, remembered and served to later queries, and what
  goes wrong after a packet could not be sent again.
\<close>

section \<open>Starting\<close>

lemma queues_init:
  assumes "H q \<noteq> None" "H c \<noteq> None" "q \<noteq> c"
  obtains H1 H2 where "queue_init H q = Some H1" "queue_init H1 c = Some H2" "is_queue H2 q []" "is_queue H2 c []"
proof -
  obtain H1 where h1: "queue_init H q = Some H1" "dom H1 = dom H" "is_queue H1 q []" using queue_init_correct [of q H] assms(1) by auto
  obtain H2 where h2: "queue_init H1 c = Some H2" "is_queue H2 c []" using queue_init_correct [of c H1] assms(2) h1(2) by auto
  obtain H where H: "set_prev H1 c c = Some H" "set_next H c c = Some H2"
    using h2(1) by (auto simp: queue_init_def bind_eq_Some_conv)
  have "H2 q = H1 q" using set_frame(2) [OF H(2) assms(3)] set_frame(1) [OF H(1) assms(3)] by simp
  then have "is_queue H2 q []" using is_queue_frame [OF h1(3)] by simp
  then show thesis using that h1(1) h2 by blast
qed

lemma dns_init_ok:
  fixes st :: "('k, 'a) dns_state_scheme"
  assumes pool: "pool_inv b (st, kern st) free"
    and heads: "links st (query_queue st) \<noteq> None" "links st (cache_queue st) \<noteq> None" "query_queue st \<noteq> cache_queue st"
    and fresh: "queries st = Map.empty" "cache_count st = 0" "resolv \<noteq> Some []"
  shows "\<exists>r st'. dns_init ctl close st resolv fd connect = Some (r, st') \<and>
    (r = - 1 \<and> pool_inv b (st', kern st') free \<or>
     r = 0 \<and> (\<exists>c free' evs. free = c # free' \<and> pool_inv b (st', kern st') free' \<and> dns_ok b st' [] [] evs \<and> dns_conn st' = c \<and>
       dns_live st' \<and> (\<exists>conn e. conns st' c = Some conn \<and> events st' (c_read conn) = Some e \<and> ev_handler e = H_dns_process_event)))"
proof -
  obtain H1 H2 where q: "queue_init (links st) (query_queue st) = Some H1" "queue_init H1 (cache_queue st) = Some H2"
    "is_queue H2 (query_queue st) []" "is_queue H2 (cache_queue st) []" using queues_init [OF heads] by blast
  let ?s1 = "st\<lparr>links := H2\<rparr>"
  have p1: "pool_inv b (?s1, x) free" for x by (rule pool_inv_cong [OF pool]) simp_all
  consider (fail) "dns_init ctl close st resolv fd connect = Some (- 1, ?s1)"
    | (go) ls sa where "resolv = Some ls" "ls \<noteq> []" "find_nameserver ls = Some sa" "fd \<noteq> - 1" "connect fd sa \<noteq> - 1"
  proof (cases "\<exists>ls sa. resolv = Some ls \<and> find_nameserver ls = Some sa \<and> fd \<noteq> - 1 \<and> connect fd sa \<noteq> - 1")
    case True
    then show ?thesis using go fresh(3) by auto
  next
    case False
    then have "dns_init ctl close st resolv fd connect = Some (- 1, ?s1)"
      using q fresh(3) by (auto simp: dns_init_def split: option.splits)
    then show ?thesis by (rule fail)
  qed
  then show ?thesis
  proof cases
    case fail
    then show ?thesis using p1 by simp
  next
    case go
    show ?thesis
    proof (cases free)
      case Nil
      then have "get_connection ?s1 fd = Some (0, ?s1)" using pool by (simp add: pool_inv_def pool_ok_def get_connection_def)
      then have "dns_init ctl close st resolv fd connect = Some (- 1, ?s1\<lparr>dns_conn := 0, kern := close fd (kern st)\<rparr>)"
        using q go by (simp add: dns_init_def)
      moreover have "pool_inv b (?s1\<lparr>dns_conn := 0, kern := close fd (kern st)\<rparr>, x) free" for x by (rule pool_inv_cong [OF pool]) simp_all
      ultimately show ?thesis by simp
    next
      case (Cons c free')
      have "pool_inv b (?s1, kern st) (c # free')" using p1 Cons by simp
      then obtain conn st1 where g: "get_connection ?s1 fd = Some (c, st1)" "pool_inv b (st1, kern st) free'"
        "conns st1 c = Some conn" "c \<noteq> 0" "c \<notin> set free'" "touches b st1 c conn st1" "clock st1 = clock ?s1" "ticks st1 = ticks ?s1"
        "conn_state.more st1 = conn_state.more ?s1" using go(4) by (rule take_touches)
      let ?st2 = "st1\<lparr>dns_conn := c\<rparr>"
      obtain e where e: "events ?st2 (c_read conn) = Some e" using g(6) by (auto simp: touches_def)
      have t2: "touches b st1 c conn ?st2" using g(6) by (simp add: touches_def timers_ok_def)
      let ?st3 = "?st2\<lparr>events := (events ?st2)(c_read conn \<mapsto> e\<lparr>ev_handler := H_dns_process_event\<rparr>)\<rparr>"
      have u3: "upd_event ?st2 (c_read conn) (ev_handler_update (\<lambda>_. H_dns_process_event)) = Some ?st3"
        using e by (simp add: upd_event_def)
      have t3: "touches b st1 c conn ?st3"
        using touches_event [OF t2, of "c_read conn" "ev_handler_update (\<lambda>_. H_dns_process_event)"] u3 by simp
      obtain r st4 where a: "io_event_add ctl ?st3 (c_read conn) READ_EVENT CLEAR_EVENT = Some (r, st4)" "touches b st1 c conn st4"
        "r = 0 \<or> r = - 1" "io_state.more st4 = io_state.more ?st3" "conns st4 = conns ?st3"
        "\<forall>x. map_option ev_handler (events st4 x) = map_option ev_handler (events ?st3 x)"
        using touches_add [OF t3, of "c_read conn" ctl READ_EVENT CLEAR_EVENT] by blast
      have step: "dns_init ctl close st resolv fd connect =
          (if r = - 1 then do { st \<leftarrow> io_close ctl close st4 c; Some (- 1, st) } else Some (0, st4))"
        using q go g(1,3,4) u3 a(1) by (simp add: dns_init_def)
      show ?thesis
      proof (cases "r = - 1")
        case True
        from give_back [OF g(2,3,5) a(2), of ctl close] obtain st5 where
          "io_close ctl close st4 c = Some st5" "pool_inv b (st5, kern st5) (c # free')" by blast
        then show ?thesis using step True Cons by simp
      next
        case False
        have "conn_state.more st1 = conn_state.more ?s1 \<Longrightarrow> io_state.more st4 = io_state.more ?st3 \<Longrightarrow> links st4 = H2 \<and> query_queue st4 = query_queue st \<and>
            cache_queue st4 = cache_queue st \<and> queries st4 = queries st \<and> cache_count st4 = cache_count st \<and> dns_conn st4 = c"
          by (cases st; cases st1; cases st4) simp
        then have f: "links st4 = H2" "query_queue st4 = query_queue st" "cache_queue st4 = cache_queue st" "queries st4 = Map.empty"
          "cache_count st4 = 0" "dns_conn st4 = c" using g(9) a(4) fresh by simp_all
        obtain evs where evs: "timers_ok b st4 evs" using a(2) by (auto simp: touches_def)
        have "dns_ok b st4 [] [] evs" using evs q(3,4) heads(3) by (simp add: dns_inv_def f)
        moreover have "conns st4 c = Some conn" using a(5) g(3) by simp
        moreover have "events st4 (c_write conn) \<noteq> None" using a(2) by (auto simp: touches_def)
        moreover have "\<exists>e. events st4 (c_read conn) = Some e \<and> ev_handler e = H_dns_process_event"
          using spec [OF a(6), of "c_read conn"] by auto
        moreover have "pool_inv b (st4, kern st4) free'" by (rule pool_inv_touches [OF g(2,3,5) a(2)])
        ultimately show ?thesis using step False f(6) Cons by (auto simp: dns_live_def)
      qed
    qed
  qed
qed

section \<open>A query that is never answered\<close>

lemma unanswered_dropped:
  assumes inv: "dns_ok b st qs cs evs" and q: "q \<in> set qs" "queries st q = Some dq" "dq_trytimes dq = 0"
    and s1: "dns_socket st (dq_len dq) a1 r1" "0 \<le> send_result a1"
    and s2: "dropWhile eintr r1 = a2 # r2" "sendable (dq_len dq) a2" "0 \<le> send_result a2"
    and k: "\<forall>n. pos b (msec (clock st n) + DNS_TIMEOUT) < 2 ^ 31"
  shows "\<exists>st1 st2 st3 evs3. fire st q = Some st1 \<and> fire st1 q = Some st2 \<and> fire st2 q = Some st3 \<and>
    queries st1 q \<noteq> None \<and> queries st2 q \<noteq> None \<and> script st2 = r2 \<and>
    queries st3 = (queries st)(q := None) \<and> dns_ok b st3 (remove1 q qs) cs evs3"
proof -
  let ?d = "\<lambda>n. dq\<lparr>dq_trytimes := n\<rparr>"
  from fire_ok [OF inv q(1,2) _ refl spec [OF k, of "ticks st"], of a1 r1] s1 q(3) obtain st1 evs1 where
    f1: "fire st q = Some st1" "clock st1 = clock st" "script st1 = r1" "dns_live st1"
      "queries st1 = (queries st)(q \<mapsto> ?d 1)" "dns_ok b st1 qs cs evs1" by auto
  have q1: "queries st1 q = Some (?d 1)" using f1(5) by simp
  have so: "dns_socket st1 (dq_len (?d 1)) a2 r2" using s2 f1(3,4) by (simp add: dns_socket_def)
  have k1: "pos b (msec (clock st1 (ticks st1)) + DNS_TIMEOUT) < 2 ^ 31" using k f1(2) by simp
  from fire_ok [OF f1(6) q(1) q1 _ refl k1, of a2 r2] so s2(3) obtain st2 evs2 where
    f2: "fire st1 q = Some st2" "clock st2 = clock st1" "script st2 = r2"
      "queries st2 = (queries st1)(q \<mapsto> ?d 2)" "dns_ok b st2 qs cs evs2" by auto
  have q2: "queries st2 q = Some (?d 2)" using f2(4) by simp
  have k2: "pos b (msec (clock st2 (ticks st2)) + DNS_TIMEOUT) < 2 ^ 31" using k f1(2) f2(2) by simp
  from fire_ok [OF f2(5) q(1) q2 _ refl k2] obtain st3 evs3 where
    f3: "fire st2 q = Some st3" "dns_ok b st3 (remove1 q qs) cs evs3" "queries st3 = (queries st2)(q := None)" by auto
  show ?thesis using f1(1) f2(1,3) f3 q1 q2 f1(5) f2(4)
    by (intro exI [of _ st1] exI [of _ st2] exI [of _ st3] exI [of _ evs3]) simp
qed

section \<open>After a packet could not be sent again\<close>

lemma late_answer_undefined:
  assumes inv: "dns_inv b st {q} qs cs evs" and u: "timer_cleared st q" and p: "packet_for pkt qid" "asked st qs qid = Some q"
    and ans: "parse_answer pkt len = Some NoAddress"
  shows "parse_udp call st pkt len = None"
  using parse_udp_step [OF inv p(1), of call len] p(2) ans drop_unlinked [OF u] by simp

lemma failed_resend:
  assumes inv: "dns_ok b st qs cs evs" and q: "q \<in> set qs" "queries st q = Some dq" "dq_trytimes dq \<le> 1"
    and s: "dns_socket st (dq_len dq) (Failed err) rest" and n: "null_unmapped st"
    and k: "pos b (msec (clock st (ticks st)) + DNS_TIMEOUT) < 2 ^ 31"
  shows "\<exists>st' evs'. fire st q = Some st' \<and> dns_inv b st' {q} qs cs evs' \<and> query_ev q \<notin> set evs' \<and> timer_cleared st' q \<and>
    queries st' = (queries st)(q \<mapsto> dq\<lparr>dq_trytimes := dq_trytimes dq + 1\<rparr>)"
proof -
  have neg: "send_result (Failed err) < 0" by (simp add: EAGAIN_def)
  from fire_ok [OF inv q(1,2) _ refl k, of "Failed err" rest] s q(3) obtain st' evs' where
    f: "fire st q = Some st'" "queries st' = (queries st)(q \<mapsto> dq\<lparr>dq_trytimes := dq_trytimes dq + 1\<rparr>)"
      "dns_inv b st' (if send_result (Failed err) < 0 then {q} else {}) qs cs evs'"
      "send_result (Failed err) < 0 \<longrightarrow> null_unmapped st \<longrightarrow> timer_cleared st' q" by (auto simp del: send_result.simps)
  have i: "dns_inv b st' {q} qs cs evs'" "timer_cleared st' q" using f(3,4) neg n by (simp_all del: send_result.simps)
  then have "query_ev q \<notin> set evs'" using q(1) by (simp add: dns_inv_def)
  then show ?thesis using f(1,2) i by blast
qed

section \<open>An example\<close>

definition ex_host_url :: http_url_s where
  "ex_host_url = \<lparr>u_schema = cstr ''http'', u_host = cstr ''ab.cd'', u_port = 80, u_path = cstr ''/''\<rparr>"

definition ex_query :: dns_query_s where
  "ex_query = prepared ex_host_url 7 (query_bytes 7 (u_host ex_host_url)) H_create_http_client"

definition ex_dns :: "answer list \<Rightarrow> int list dns_state" where
  "ex_dns sc = \<lparr>theap = [1 \<mapsto> ex_timer_node 0, 5136 \<mapsto> ex_timer_node 900, 216 \<mapsto> ex_timer_node 0],
     ttree = \<lparr>rbt_root = 5136, rbt_sentinel = 1, rbt_insert = rbtree_insert_timer_value\<rparr>,
     events = [5120 \<mapsto> (ex_event True)\<lparr>ev_data := 1000, ev_handler := H_dns_timeout_handler\<rparr>, 200 \<mapsto> ex_event False],
     clock = \<lambda>n. (1, 0), ticks = 0, conns = [10 \<mapsto> zero_conn\<lparr>c_read := 100, c_write := 200\<rparr>],
     free_connections = 0, free_connection_n = 0, ssls = Map.empty, err_queue = [], script = sc, kern = [], clients = Map.empty,
     mem_script = [],
     links = [11 \<mapsto> \<lparr>qprev = 1000, qnext = 1000\<rparr>, 1000 \<mapsto> \<lparr>qprev = 11, qnext = 11\<rparr>,
              12 \<mapsto> \<lparr>qprev = 3000, qnext = 3000\<rparr>, 3000 \<mapsto> \<lparr>qprev = 12, qnext = 12\<rparr>],
     cache_queue = 12, query_queue = 11, caches = [3000 \<mapsto> \<lparr>dc_host = cstr ''x.y'', dc_addr = 0x0100000A\<rparr>], cache_count = 1,
     dns_id = 7, queries = [1000 \<mapsto> ex_query], dns_conn = 10, dns_mem = [Some 9000]\<rparr>"

lemma ex_dns_ok: "dns_ok 0 (ex_dns sc) [1000] [3000] [5120]"
proof -
  have "rep (theap (ex_dns sc)) 1 5136 [] 0 (Node False Leaf 5136 Leaf)"
    by (simp add: rep_def wf_pos_def black_at_def node_at_def ex_dns_def ex_timer_node_def)
  then have "is_rbtree (theap (ex_dns sc)) (ttree (ex_dns sc)) [5136]"
    unfolding is_rbtree_def by (intro exI [of _ 0] exI [of _ "Node False Leaf 5136 Leaf"])
      (simp add: rbt_ok_def ex_dns_def)
  moreover have "pos 0 (key_of (theap (ex_dns sc)) 5136) < 2 ^ 31"
    by (simp add: pos_def key_of_def ex_dns_def ex_timer_node_def)
  ultimately have "tt_rep 0 (theap (ex_dns sc), ttree (ex_dns sc)) (map timer_node [5120])"
    unfolding tt_rep_def prod.case by (simp add: timer_node_def ex_dns_def)
  then have "timers_ok 0 (ex_dns sc) [5120]"
    unfolding timers_ok_def
    by (simp add: ex_dns_def ex_event_def tt_live_def timer_node_def ex_timer_node_def)
  moreover have "is_queue (links (ex_dns sc)) 11 [1000]" "is_queue (links (ex_dns sc)) 12 [3000]"
    by (simp_all add: is_queue_def linked_split link_def ex_dns_def get_next_def get_prev_def)
  ultimately show ?thesis
    unfolding dns_inv_def by (simp add: ex_dns_def query_event_def query_ev_def)
qed

lemma ex_dns_facts:
  "queries (ex_dns sc) 1000 = Some ex_query" "script (ex_dns sc) = sc" "clock (ex_dns sc) = (\<lambda>n. (1, 0))" "dns_mem (ex_dns sc) = [Some 9000]"
  "dns_live (ex_dns sc)" "null_unmapped (ex_dns sc)" "links (ex_dns sc) 9000 = None" "dns_id (ex_dns sc) = 7" "fresh_query (ex_dns sc) 9000"
  "cache_list (ex_dns sc) [3000] = [(cstr ''x.y'', 0x0100000A)]" "asked (ex_dns sc) [1000] 7 = Some 1000"
  by (simp_all add: ex_dns_def dns_live_def null_unmapped_def fresh_query_def cache_list_def asked_def ex_query_def prepared_def
      query_ev_def timer_node_def)

lemma ex_query_facts: "dq_trytimes ex_query = 0" "dq_len ex_query = 23" "dq_handler ex_query = H_create_http_client" "dq_url ex_query = ex_host_url"
  "u_host ex_host_url = [97, 98, 46, 99, 100]"
  by (simp_all add: ex_query_def prepared_def ex_host_url_def cstr_def of_char_def)

lemma ex_dns_time: "pos 0 (msec (1, 0) + DNS_TIMEOUT) < 2 ^ 31"
  by (simp add: msec_def signed_divide_int_def DNS_TIMEOUT_def pos_def)

text \<open>A handler that only notes whom it was called for, and a handler that never asks for anything.\<close>

definition note_call :: "(int list, 'a) dns_call" where
  "note_call h url ad st = Some (st\<lparr>kern := uint ad # kern st\<rparr>)"

lemma note_call_ok: "client_ok b note_call"
  unfolding client_ok_def
proof (intro allI impI)
  fix h url and ad :: u32 and st :: "(int list, 'a) dns_state_scheme" and U qs cs evs
  assume "dns_inv b st U qs cs evs"
  then have "dns_inv b (st\<lparr>kern := uint ad # kern st\<rparr>) U qs cs evs" by (simp add: dns_inv_def timers_ok_def query_event_def)
  then show "\<exists>st' evs'. note_call h url ad st = Some st' \<and> dns_inv b st' U qs cs evs' \<and> queries st' = queries st \<and> caches st' = caches st"
    by (intro exI [of _ "st\<lparr>kern := uint ad # kern st\<rparr>"] exI [of _ evs]) (simp add: note_call_def)
qed

definition ex_reply :: bytes where
  "ex_reply = reply_prefix 7 0x8180 1 0 0 [2, 97, 98, 2, 99, 100] [] @ record_bytes 1 (12, [0, 1, 0, 0, 0, 60], [10, 0, 0, 1])"

lemma reply_packet_for: "packet_for (reply_prefix qid flags an ns ar name cnames @ r) qid"
  using reply_fields [of qid flags an ns ar] by (simp add: packet_for_def reply_prefix_def)

lemma length_ex_reply: "length ex_reply = 39"
  by (simp add: ex_reply_def reply_prefix_def question_bytes_def length_reply_header)

section \<open>Properties\<close>

text \<open>
  C17: asking for a host that is not cached sends one query packet, the encoding of the host under a
  new transaction id, and when the packet went out leaves the query waiting at the tail of the queue
  with its timeout armed five seconds ahead; when it did not, the query is freed, -1 is returned and
  everything else is as before.
\<close>

theorem dns_query_asks:
  assumes "dns_ok b st qs cs evs" "0 \<notin> set (u_host url)" "length (u_host url) + 18 \<le> DNS_UDP_SIZE"
    and "map_of (cache_list st cs) (u_host url) = None" "dns_mem st = Some q # ms" "fresh_query st q"
    and "dns_socket st (length (u_host url) + 18) a rest"
    and "k = msec (clock st (ticks st)) + DNS_TIMEOUT" "pos b k < 2 ^ 31"
  shows "\<exists>st' evs' dq. dns_query call st url handler = Some (if send_result a < 0 then - 1 else 0, st') \<and>
    script st' = rest \<and> dns_mem st' = ms \<and> caches st' = caches st \<and> dns_id st' = dns_id st + 1 \<and> dns_live st' \<and>
    (if send_result a < 0 then dns_ok b st' qs cs evs \<and> queries st' = queries st
     else dns_ok b st' (qs @ [q]) cs evs' \<and> expiry st' (query_ev q) = k \<and> queries st' = (queries st)(q \<mapsto> dq) \<and>
       dq_url dq = url \<and> dq_id dq = ucast (dns_id st + 1) \<and> dq_trytimes dq = 0 \<and> dq_handler dq = handler \<and>
       take (dq_len dq) (dq_pkt dq) = query_bytes (dns_id st + 1) (u_host url))"
  using assms by (rule dns_query_sent)

theorem dns_query_asks_witness:
  "\<exists>st' evs'. dns_query note_call (ex_dns [Failed EINTR, Sent 23]) ex_host_url H_create_http_client = Some (0, st') \<and>
    dns_ok 0 st' [1000, 9000] [3000] evs' \<and> script st' = []"
proof -
  let ?st = "ex_dns [Failed EINTR, Sent 23]"
  have s: "dns_socket ?st (length (u_host ex_host_url) + 18) (Sent 23) []"
    by (simp add: dns_socket_def ex_dns_facts ex_query_facts)
  have h: "0 \<notin> set (u_host ex_host_url)" "length (u_host ex_host_url) + 18 \<le> DNS_UDP_SIZE"
    by (simp_all add: ex_query_facts DNS_UDP_SIZE_def)
  have m: "map_of (cache_list ?st [3000]) (u_host ex_host_url) = None" by (simp add: ex_dns_facts ex_query_facts cstr_def)
  have k: "pos 0 (msec (clock ?st (ticks ?st)) + DNS_TIMEOUT) < 2 ^ 31"
    unfolding ex_dns_facts by (rule ex_dns_time)
  from dns_query_asks [OF ex_dns_ok h m ex_dns_facts(4,9) s refl k, of note_call H_create_http_client]
  show ?thesis by auto
qed




lemma ex_reply_answer: "parse_answer ex_reply 39 = Some (Address 0x0100000A)"
proof -
  have "(le_word [10, 0, 0, 1] :: u32) = 0x0100000A" by code_simp
  moreover have "parse_answer (reply_prefix 7 0x8180 1 0 0 [2, 97, 98, 2, 99, 100] [] @
      record_bytes 1 (12, [0, 1, 0, 0, 0, 60], [10, 0, 0, 1]) @ []) 39 = Some (Address (le_word [10, 0, 0, 1]))"
    by (rule parse_answer_found) (simp_all add: reply_prefix_def question_bytes_def length_reply_header)
  ultimately show ?thesis by (simp add: ex_reply_def)
qed


text \<open>
  C2: a query that nobody answers does not stay for ever: its first two timeouts send the packet again
  and arm the timeout anew, its third one takes it out of the queue and frees it.
\<close>

theorem unanswered_query_dropped:
  assumes "dns_ok b st qs cs evs" "q \<in> set qs" "queries st q = Some dq" "dq_trytimes dq = 0"
    and "dns_socket st (dq_len dq) a1 r1" "0 \<le> send_result a1"
    and "dropWhile eintr r1 = a2 # r2" "sendable (dq_len dq) a2" "0 \<le> send_result a2"
    and "\<forall>n. pos b (msec (clock st n) + DNS_TIMEOUT) < 2 ^ 31"
  shows "\<exists>st1 st2 st3 evs3. fire st q = Some st1 \<and> fire st1 q = Some st2 \<and> fire st2 q = Some st3 \<and>
    queries st1 q \<noteq> None \<and> queries st2 q \<noteq> None \<and> script st2 = r2 \<and>
    queries st3 = (queries st)(q := None) \<and> dns_ok b st3 (remove1 q qs) cs evs3"
  using assms by (rule unanswered_dropped)

theorem unanswered_query_dropped_witness:
  "\<exists>st1 st2 st3 evs3. fire (ex_dns [Sent 23, Failed EINTR, Sent 5]) 1000 = Some st1 \<and> fire st1 1000 = Some st2 \<and>
    fire st2 1000 = Some st3 \<and> script st2 = [] \<and> queries st3 1000 = None \<and> dns_ok 0 st3 [] [3000] evs3"
proof -
  let ?st = "ex_dns [Sent 23, Failed EINTR, Sent 5]"
  have s: "dns_socket ?st (dq_len ex_query) (Sent 23) [Failed EINTR, Sent 5]"
    by (simp add: dns_socket_def ex_dns_facts ex_query_facts)
  have k: "\<forall>n. pos 0 (msec (clock ?st n) + DNS_TIMEOUT) < 2 ^ 31" unfolding ex_dns_facts using ex_dns_time by blast
  have d: "dropWhile eintr [Failed EINTR, Sent 5] = Sent 5 # []" by simp
  have i: "(1000::addr) \<in> set [1000]" "0 \<le> send_result (Sent 23)" "sendable (dq_len ex_query) (Sent 5)" "0 \<le> send_result (Sent 5)"
    by (simp_all add: ex_query_facts)
  from unanswered_query_dropped [OF ex_dns_ok i(1) ex_dns_facts(1) ex_query_facts(1) s i(2) d i(3,4) k]
  show ?thesis by auto
qed

text \<open>
  Every packet that has one question, whatever else it holds, is handled without undefined
  behaviour, and the resolver is in order afterwards: at most the query the packet belongs to is over.
\<close>

theorem parse_udp_keeps_order:
  assumes "dns_ok b st qs cs evs" "client_ok b call" "packet_for pkt qid" "int sizeof_dns_header \<le> len" "len + 3 \<le> int (length pkt)"
    and "\<forall>q dq. queries st q = Some dq \<longrightarrow> length (u_host (dq_url dq)) < DNS_UDP_SIZE"
    and "dns_mem st = ao # ms" "\<forall>a. ao = Some a \<longrightarrow> links st a = None"
    and "\<forall>q dq. queries st q = Some dq \<longrightarrow> dns_socket st (dq_len dq) a rest"
    and "pos b (msec (clock st (ticks st)) + DNS_TIMEOUT) < 2 ^ 31"
  shows "\<exists>st' qs' cs' evs'. parse_udp call st pkt len = Some st' \<and> dns_ok b st' qs' cs' evs' \<and>
    (qs' = qs \<or> (\<exists>q. asked st qs qid = Some q \<and> qs' = remove1 q qs))"
  using assms by (rule parse_udp_ok)

theorem parse_udp_keeps_order_witness:
  "\<exists>st' qs' cs' evs'. parse_udp note_call (ex_dns [Sent 23]) ([7, 0, 0x80, 0x81, 0, 1] @ replicate 30 0xC0) 20 = Some st' \<and>
    dns_ok 0 st' qs' cs' evs'"
proof -
  let ?st = "ex_dns [Sent 23]" and ?pkt = "[7, 0, 0x80, 0x81, 0, 1] @ replicate 30 0xC0 :: bytes"
  have "ld 2 ?pkt 4 = Some (htons 1)" "ld 2 ?pkt 0 = Some (7 :: u16)" by code_simp+
  then have p: "packet_for ?pkt 7" by (simp add: packet_for_def)
  have l: "int sizeof_dns_header \<le> 20" "20 + 3 \<le> int (length ?pkt)" by (simp_all add: sizeof_dns_header_def)
  have q: "queries ?st q = Some dq \<Longrightarrow> dq = ex_query" for q dq by (auto simp: ex_dns_def split: if_splits)
  have h: "\<forall>q dq. queries ?st q = Some dq \<longrightarrow> length (u_host (dq_url dq)) < DNS_UDP_SIZE"
    by (auto dest!: q simp: ex_query_facts DNS_UDP_SIZE_def)
  have s: "\<forall>q dq. queries ?st q = Some dq \<longrightarrow> dns_socket ?st (dq_len dq) (Sent 23) []"
    by (auto dest!: q simp: ex_query_facts dns_socket_def ex_dns_facts)
  have m: "\<forall>a. Some 9000 = Some a \<longrightarrow> links ?st a = None" by (simp add: ex_dns_facts)
  have k: "pos 0 (msec (clock ?st (ticks ?st)) + DNS_TIMEOUT) < 2 ^ 31" unfolding ex_dns_facts by (rule ex_dns_time)
  from parse_udp_keeps_order [OF ex_dns_ok note_call_ok p l h ex_dns_facts(4) m s k] show ?thesis by blast
qed

text \<open>
  The cache is a bounded list, youngest entry first: a new entry goes to its front, and of more
  than fifty the oldest is forgotten. Looking a host up finds its youngest entry.
\<close>

theorem dns_cache_bounded:
  assumes "dns_ok b st qs cs evs" "dns_mem st = Some a # ms" "links st a = None" "length host < DNS_UDP_SIZE"
  shows "\<exists>st'. set_cache st host ad = Some st' \<and> dns_ok b st' qs (take 50 (a # cs)) evs \<and>
    cache_list st' (take 50 (a # cs)) = take 50 ((host, ad) # cache_list st cs) \<and>
    (\<forall>h. map_option (map_option dc_addr \<circ> (\<lambda>p. Option.bind p (caches st'))) (find_cache st' h) =
      Some (map_of (take 50 ((host, ad) # cache_list st cs)) h))"
proof -
  obtain st' where s: "set_cache st host ad = Some st'" "dns_ok b st' qs (take 50 (a # cs)) evs"
    "cache_list st' (take 50 (a # cs)) = take 50 ((host, ad) # cache_list st cs)"
    using set_cache_ok [OF assms, of ad] by blast
  have "map_option (map_option dc_addr \<circ> (\<lambda>p. Option.bind p (caches st'))) (find_cache st' h) =
      Some (map_of (cache_list st' (take 50 (a # cs))) h)" for h
    using find_cache_ok [OF s(2), of h] by (auto split: option.splits)
  then show ?thesis using s by auto
qed

theorem dns_cache_bounded_witness:
  "\<exists>st'. set_cache (ex_dns []) [97] 5 = Some st' \<and> dns_ok 0 st' [1000] [9000, 3000] [5120] \<and>
    cache_list st' [9000, 3000] = [([97], 5), (cstr ''x.y'', 0x0100000A)]"
proof -
  have "length ([97] :: bytes) < DNS_UDP_SIZE" by (simp add: DNS_UDP_SIZE_def)
  from dns_cache_bounded [OF ex_dns_ok ex_dns_facts(4,7) this, of "[]" 5] show ?thesis
    by (auto simp: ex_dns_facts)
qed

text \<open>
  C31: when a timeout's packet cannot be sent again the query stays in the queue with no timeout armed,
  so no later timeout ends it; and an answer that comes after all, carrying no address, has undefined
  behaviour: the query's timer, which is in no tree, is taken out of the tree.
\<close>

theorem failed_resend_then_answer:
  assumes "dns_ok b st qs cs evs" "queries st q = Some dq" "dq_trytimes dq \<le> 1" "asked st qs qid = Some q"
    and "dns_socket st (dq_len dq) (Failed err) rest" "null_unmapped st"
    and "pos b (msec (clock st (ticks st)) + DNS_TIMEOUT) < 2 ^ 31"
    and "packet_for pkt qid" "parse_answer pkt len = Some NoAddress"
  shows "\<exists>st' evs'. fire st q = Some st' \<and> dns_inv b st' {q} qs cs evs' \<and> query_ev q \<notin> set evs' \<and> parse_udp call st' pkt len = None"
proof -
  obtain st' evs' where f: "fire st q = Some st'" "dns_inv b st' {q} qs cs evs'" "query_ev q \<notin> set evs'" "timer_cleared st' q"
    "queries st' = (queries st)(q \<mapsto> dq\<lparr>dq_trytimes := dq_trytimes dq + 1\<rparr>)"
    using failed_resend [OF assms(1) askedD(1) [OF assms(4)] assms(2,3,5,6,7)] by blast
  have "map_option dq_id (queries st' p) = map_option dq_id (queries st p)" for p using assms(2) by (simp add: f(5))
  then have "asked st' qs qid = Some q" using assms(4) by (simp add: asked_def)
  from late_answer_undefined [OF f(2,4) assms(8) this assms(9)] f(1-3) show ?thesis by blast
qed

definition ex_no_answer :: bytes where
  "ex_no_answer = reply_prefix 7 0x8183 1 0 0 [2, 97, 98, 2, 99, 100] []"

theorem failed_resend_then_answer_witness:
  "\<exists>st'. fire (ex_dns [Failed 111]) 1000 = Some st' \<and> parse_udp note_call st' ex_no_answer 23 = None"
proof -
  have s: "dns_socket (ex_dns [Failed 111]) (dq_len ex_query) (Failed 111) []"
    by (simp add: dns_socket_def ex_dns_facts ex_query_facts EINTR_def)
  have k: "pos 0 (msec (clock (ex_dns [Failed 111]) (ticks (ex_dns [Failed 111]))) + DNS_TIMEOUT) < 2 ^ 31"
    unfolding ex_dns_facts by (rule ex_dns_time)
  have p: "packet_for ex_no_answer 7" using reply_packet_for [of 7 "0x8183" 1 0 0 _ "[]" "[]"] by (simp add: ex_no_answer_def)
  have a: "parse_answer ex_no_answer 23 = Some NoAddress" by code_simp
  have t: "dq_trytimes ex_query \<le> 1" by (simp add: ex_query_facts)
  from failed_resend_then_answer [OF ex_dns_ok ex_dns_facts(1) t ex_dns_facts(11) s ex_dns_facts(6) k p a]
  show ?thesis by blast
qed

text \<open>
  Starting the resolver loses no connection and ends in one of two ways: it fails and the pool is as
  before, or the first connection of the pool is the resolver's socket, watched for answers, both queues
  are empty and the resolver is in order.
\<close>

theorem dns_init_starts:
  fixes st :: "('k, 'a) dns_state_scheme"
  assumes "pool_inv b (st, kern st) free"
    and "links st (query_queue st) \<noteq> None" "links st (cache_queue st) \<noteq> None" "query_queue st \<noteq> cache_queue st"
    and "queries st = Map.empty" "cache_count st = 0" "resolv \<noteq> Some []"
  shows "\<exists>r st'. dns_init ctl close st resolv fd connect = Some (r, st') \<and>
    (r = - 1 \<and> pool_inv b (st', kern st') free \<or>
     r = 0 \<and> (\<exists>c free' evs. free = c # free' \<and> pool_inv b (st', kern st') free' \<and> dns_ok b st' [] [] evs \<and> dns_conn st' = c \<and>
       dns_live st' \<and> (\<exists>conn e. conns st' c = Some conn \<and> events st' (c_read conn) = Some e \<and> ev_handler e = H_dns_process_event)))"
  using assms by (rule dns_init_ok)

lemma ex_dns_pool:
  "\<exists>st :: int list dns_state. pool_inv 0 (st, kern st) [1000, 1128] \<and> query_queue st = 11 \<and> cache_queue st = 12 \<and>
    links st 11 \<noteq> None \<and> links st 12 \<noteq> None \<and> queries st = Map.empty \<and> cache_count st = 0"
proof -
  obtain s :: conn_state where s: "pool_inv 0 (s, []) [1000, 1128]" using ex_pool_inv by (rule exE)
  let ?st = "(ex_dns [])\<lparr>theap := theap s, ttree := ttree s, events := events s, conns := conns s,
    free_connections := free_connections s, free_connection_n := free_connection_n s, queries := Map.empty, cache_count := 0\<rparr>"
  have "pool_inv 0 (?st, kern ?st) [1000, 1128]" by (rule pool_inv_cong [OF s]) simp_all
  then show ?thesis by (intro exI [of _ ?st]) (simp add: ex_dns_def)
qed

theorem dns_init_starts_witness:
  "\<exists>(st :: int list dns_state) r st'. dns_init ex_epoll ex_close st (Some [cstr ''nameserver 8.8.8.8'' @ [10]]) 5 (\<lambda>fd sa. 0) = Some (r, st') \<and>
    (r = - 1 \<and> pool_inv 0 (st', kern st') [1000, 1128] \<or> r = 0 \<and> dns_conn st' = 1000 \<and> dns_live st')"
proof -
  obtain st :: "int list dns_state" where st: "pool_inv 0 (st, kern st) [1000, 1128]" "query_queue st = 11" "cache_queue st = 12"
    "links st 11 \<noteq> None" "links st 12 \<noteq> None" "queries st = Map.empty" "cache_count st = 0" using ex_dns_pool by blast
  have l: "links st (query_queue st) \<noteq> None" "links st (cache_queue st) \<noteq> None" "query_queue st \<noteq> cache_queue st"
    using st(2-5) by simp_all
  have r: "Some [cstr ''nameserver 8.8.8.8'' @ [10]] \<noteq> Some []" by simp
  from dns_init_starts [OF st(1) l st(6,7) r, of ex_epoll ex_close 5 "\<lambda>fd sa. 0"] show ?thesis by blast
qed

end
