(* ===== verification/Dns_Machine.thy ===== *)
theory Dns_Machine
  imports Dns_Props
begin

text \<open>
  The resolver of \<^verbatim>\<open>src/async_dns.c\<close> as a state machine: its clients ask, the name server answers, time
  passes, in any order. \<open>dns_enabled\<close> says when an action can be taken as the program takes it (room for
  the host, an unused address from the allocator, a socket that takes the packet, a packet with one
  question); \<open>dns_reaches\<close> is what any sequence of actions leads to. In every such state the resolver is in
  order, and no action that is enabled gets stuck.
\<close>

datatype dns_action = Ask http_url_s dns_handler | Reply bytes int | Timeout addr

fun dns_act :: "('k, 'a) dns_call \<Rightarrow> dns_action \<Rightarrow> ('k, 'a) dns_state_scheme \<Rightarrow> (('k, 'a) dns_state_scheme) option" where
  "dns_act call (Ask url h) st = map_option snd (dns_query call st url h)"
| "dns_act call (Reply pkt len) st = parse_udp call st pkt len"
| "dns_act call (Timeout q) st = fire st q"

definition dns_time :: "u32 \<Rightarrow> ('k, 'a) dns_state_scheme \<Rightarrow> bool" where
  "dns_time b st \<longleftrightarrow> pos b (msec (clock st (ticks st)) + DNS_TIMEOUT) < 2 ^ 31"

fun dns_enabled :: "u32 \<Rightarrow> dns_action \<Rightarrow> ('k, 'a) dns_state_scheme \<Rightarrow> bool" where
  "dns_enabled b (Ask url h) st \<longleftrightarrow> 0 \<notin> set (u_host url) \<and> length (u_host url) + 18 \<le> DNS_UDP_SIZE \<and> dns_time b st \<and>
     (\<exists>ao ms. dns_mem st = ao # ms \<and> (\<forall>q. ao = Some q \<longrightarrow> fresh_query st q)) \<and>
     (\<exists>a rest. dns_socket st (length (u_host url) + 18) a rest)"
| "dns_enabled b (Reply pkt len) st \<longleftrightarrow> (\<exists>qid. packet_for pkt qid) \<and> int sizeof_dns_header \<le> len \<and> len + 3 \<le> int (length pkt) \<and> dns_time b st \<and>
     (\<exists>ao ms. dns_mem st = ao # ms \<and> (\<forall>p. ao = Some p \<longrightarrow> links st p = None)) \<and>
     (\<exists>a rest. \<forall>q dq. queries st q = Some dq \<longrightarrow> dns_socket st (dq_len dq) a rest)"
| "dns_enabled b (Timeout q) st \<longleftrightarrow> dns_time b st \<and>
     (\<exists>dq. queries st q = Some dq \<and> (dq_trytimes dq \<le> 1 \<longrightarrow> (\<exists>a rest. dns_socket st (dq_len dq) a rest \<and> 0 \<le> send_result a)))"

inductive dns_reaches :: "u32 \<Rightarrow> ('k, 'a) dns_call \<Rightarrow> ('k, 'a) dns_state_scheme \<Rightarrow> ('k, 'a) dns_state_scheme \<Rightarrow> bool" for b call st0 where
  start: "dns_reaches b call st0 st0"
| act: "dns_reaches b call st0 st \<Longrightarrow> dns_enabled b act st \<Longrightarrow> dns_act call act st = Some st' \<Longrightarrow> dns_reaches b call st0 st'"

section \<open>In order\<close>

definition dns_order :: "u32 \<Rightarrow> ('k, 'a) dns_state_scheme \<Rightarrow> bool" where
  "dns_order b st \<longleftrightarrow> (\<exists>qs cs evs. dns_ok b st qs cs evs) \<and> (\<forall>q dq. queries st q = Some dq \<longrightarrow> length (u_host (dq_url dq)) < DNS_UDP_SIZE)"

lemma dns_orderI:
  assumes "dns_ok b st' qs cs evs" "dns_order b st"
    and "\<And>q dq. queries st' q = Some dq \<Longrightarrow> (\<exists>p d. queries st p = Some d \<and> dq_url dq = dq_url d) \<or> length (u_host (dq_url dq)) < DNS_UDP_SIZE"
  shows "dns_order b st'"
proof -
  have "length (u_host (dq_url dq)) < DNS_UDP_SIZE" if "queries st' q = Some dq" for q dq
    using assms(3) [OF that] assms(2) unfolding dns_order_def by metis
  then show ?thesis using assms(1) unfolding dns_order_def by blast
qed

lemma dns_order_drop:
  assumes "dns_ok b st' qs cs evs" "queries st' = (queries st)(q := None)" "dns_order b st"
  shows "dns_order b st'"
  by (rule dns_orderI [OF assms(1,3)]) (use assms(2) in \<open>auto split: if_splits\<close>)

lemma dns_order_retry:
  assumes "dns_ok b st' qs cs evs" "queries st' = (queries st)(q \<mapsto> dq\<lparr>dq_trytimes := n\<rparr>)" "queries st q = Some dq" "dns_order b st"
  shows "dns_order b st'"
proof (rule dns_orderI [OF assms(1,4)])
  fix p d assume d: "queries st' p = Some d"
  have "\<exists>p' d'. queries st p' = Some d' \<and> dq_url d = dq_url d'"
  proof (cases "p = q")
    case True
    then have "dq_url d = dq_url dq" using d assms(2) by auto
    then show ?thesis using assms(3) by blast
  next
    case False
    then show ?thesis using d assms(2) by auto
  qed
  then show "(\<exists>p' d'. queries st p' = Some d' \<and> dq_url d = dq_url d') \<or> length (u_host (dq_url d)) < DNS_UDP_SIZE"
    by blast
qed

lemma ask_order:
  assumes ord: "dns_order b st" and call: "client_ok b call" and en: "dns_enabled b (Ask url h) st"
  shows "\<exists>st'. dns_act call (Ask url h) st = Some st' \<and> dns_order b st'"
proof -
  obtain qs cs evs where inv: "dns_ok b st qs cs evs" using ord unfolding dns_order_def by blast
  have host: "0 \<notin> set (u_host url)" "length (u_host url) + 18 \<le> DNS_UDP_SIZE" and time: "dns_time b st" using en by simp_all
  obtain ao ms where m: "dns_mem st = ao # ms" "\<forall>q. ao = Some q \<longrightarrow> fresh_query st q" using en by auto
  obtain a rest where s: "dns_socket st (length (u_host url) + 18) a rest" using en by auto
  have l: "length (u_host url) < DNS_UDP_SIZE - sizeof_dns_header" "length (u_host url) < DNS_UDP_SIZE"
    using host(2) by (simp_all add: DNS_UDP_SIZE_def sizeof_dns_header_def)
  show ?thesis
  proof (cases "map_of (cache_list st cs) (u_host url)")
    case (Some ad)
    obtain st' evs' where c: "call h url ad st = Some st'" "dns_ok b st' qs cs evs'" "queries st' = queries st" "caches st' = caches st"
      by (rule client_okD [OF call inv])
    have "dns_act call (Ask url h) st = Some st'" using dns_query_hit [OF inv Some l(1), of call h] c(1) by simp
    moreover have "dns_order b st'" by (rule dns_orderI [OF c(2) ord]) (use c(3) in auto)
    ultimately show ?thesis by blast
  next
    case miss: None
    show ?thesis
    proof (cases ao)
      case None
      have "find_cache st (u_host url) = Some None" using find_cache_ok [OF inv, of "u_host url"] miss by simp
      then have "dns_act call (Ask url h) st = Some (st\<lparr>dns_mem := ms\<rparr>)" using l(1) m(1) None by (simp add: dns_query_def)
      moreover have "dns_ok b (st\<lparr>dns_mem := ms\<rparr>) qs cs evs" using inv by (auto simp: dns_inv_def timers_ok_def query_event_def)
      then have "dns_order b (st\<lparr>dns_mem := ms\<rparr>)" by (rule dns_orderI [OF _ ord]) auto
      ultimately show ?thesis by blast
    next
      case (Some q)
      then have f: "dns_mem st = Some q # ms" "fresh_query st q" using m by simp_all
      obtain st' evs' dq where d: "dns_query call st url h = Some (if send_result a < 0 then - 1 else 0, st')"
        "if send_result a < 0 then dns_ok b st' qs cs evs \<and> queries st' = queries st
         else dns_ok b st' (qs @ [q]) cs evs' \<and> queries st' = (queries st)(q \<mapsto> dq) \<and> dq_url dq = url"
        using dns_query_sent [OF inv host miss f s refl time [unfolded dns_time_def], of call h] by (auto split: if_splits)
      have "dns_order b st'"
      proof (cases "send_result a < 0")
        case True
        then have "dns_ok b st' qs cs evs" "queries st' = queries st" using d(2) by simp_all
        then show ?thesis by (intro dns_orderI [OF _ ord]) auto
      next
        case False
        then have "dns_ok b st' (qs @ [q]) cs evs'" "queries st' = (queries st)(q \<mapsto> dq)" "dq_url dq = url" using d(2) by simp_all
        then show ?thesis using l(2) by (intro dns_orderI [OF _ ord]) (auto split: if_splits)
      qed
      then show ?thesis using d(1) by simp
    qed
  qed
qed

lemma timeout_order:
  assumes ord: "dns_order b st" and en: "dns_enabled b (Timeout q) st"
  shows "\<exists>st'. dns_act call (Timeout q) st = Some st' \<and> dns_order b st'"
proof -
  obtain qs cs evs where inv: "dns_ok b st qs cs evs" using ord unfolding dns_order_def by blast
  obtain dq where q: "queries st q = Some dq" "dq_trytimes dq \<le> 1 \<longrightarrow> (\<exists>a rest. dns_socket st (dq_len dq) a rest \<and> 0 \<le> send_result a)"
    using en by auto
  have qs: "q \<in> set qs" using dns_inv_queues(4) [OF inv] q(1) by blast
  obtain a rest where s: "dq_trytimes dq \<le> 1 \<longrightarrow> dns_socket st (dq_len dq) a rest" "dq_trytimes dq \<le> 1 \<longrightarrow> 0 \<le> send_result a" using q(2) by blast
  have time: "pos b (msec (clock st (ticks st)) + DNS_TIMEOUT) < 2 ^ 31" using en by (simp add: dns_time_def)
  from fire_ok [OF inv qs q(1) s(1) refl time] obtain st' evs' where f: "fire st q = Some st'"
    and r: "if dq_trytimes dq > 1
     then dns_ok b st' (remove1 q qs) cs evs' \<and> queries st' = (queries st)(q := None) \<and> script st' = script st
     else script st' = rest \<and> dns_live st' \<and> queries st' = (queries st)(q \<mapsto> dq\<lparr>dq_trytimes := dq_trytimes dq + 1\<rparr>) \<and>
       dns_inv b st' (if send_result a < 0 then {q} else {}) qs cs evs' \<and>
       (send_result a \<ge> 0 \<longrightarrow> expiry st' (query_ev q) = msec (clock st (ticks st)) + DNS_TIMEOUT) \<and>
       (send_result a < 0 \<longrightarrow> null_unmapped st \<longrightarrow> timer_cleared st' q)" by blast
  have "dns_order b st'"
  proof (cases "dq_trytimes dq > 1")
    case True
    then have "dns_ok b st' (remove1 q qs) cs evs'" "queries st' = (queries st)(q := None)" using r unfolding if_P [OF True] by simp_all
    then show ?thesis by (rule dns_order_drop [OF _ _ ord])
  next
    case False
    then have "\<not> send_result a < 0" using s(2) by simp
    then have "dns_ok b st' qs cs evs'" "queries st' = (queries st)(q \<mapsto> dq\<lparr>dq_trytimes := dq_trytimes dq + 1\<rparr>)"
      using r unfolding if_not_P [OF False] by simp_all
    then show ?thesis by (rule dns_order_retry [OF _ _ q(1) ord])
  qed
  then show ?thesis using f by simp
qed

lemma reply_order:
  assumes ord: "dns_order b st" and call: "client_ok b call" and en: "dns_enabled b (Reply pkt len) st"
  shows "\<exists>st'. dns_act call (Reply pkt len) st = Some st' \<and> dns_order b st'"
proof -
  obtain qs cs evs where inv: "dns_ok b st qs cs evs" and hosts: "\<forall>q dq. queries st q = Some dq \<longrightarrow> length (u_host (dq_url dq)) < DNS_UDP_SIZE"
    using ord unfolding dns_order_def by blast
  obtain qid where p: "packet_for pkt qid" "int sizeof_dns_header \<le> len" "len + 3 \<le> int (length pkt)" using en by auto
  have time: "pos b (msec (clock st (ticks st)) + DNS_TIMEOUT) < 2 ^ 31" using en by (simp add: dns_time_def)
  obtain ao ms where m: "dns_mem st = ao # ms" "\<forall>p. ao = Some p \<longrightarrow> links st p = None" using en by auto
  obtain a rest where s: "\<forall>q dq. queries st q = Some dq \<longrightarrow> dns_socket st (dq_len dq) a rest" using en by auto
  note step = parse_udp_step [OF inv p(1), of call len]
  show ?thesis
  proof (cases "asked st qs qid")
    case None
    then show ?thesis using step ord by simp
  next
    case (Some q)
    obtain dq where q: "q \<in> set qs" "queries st q = Some dq" using askedD [OF Some] by blast
    have "8 \<le> length pkt" using p(2,3) by (simp add: sizeof_dns_header_def)
    then obtain r where r: "parse_answer pkt len = Some r" using parse_answer_ok [OF _ p(3)] by blast
    note step = step [unfolded Some r option.case bind.simps]
    show ?thesis
    proof (cases r)
      case Retry
      have sq: "dq_trytimes dq \<le> 1 \<longrightarrow> dns_socket st (dq_len dq) a rest" using s q(2) by blast
      from parse_failed_ok [OF inv q sq refl time] obtain st' evs' where f: "parse_failed st q = Some st'"
        and i: "if dq_trytimes dq > 1
         then dns_ok b st' (remove1 q qs) cs evs' \<and> queries st' = (queries st)(q := None)
         else dns_ok b st' qs cs evs' \<and> queries st' = (queries st)(q \<mapsto> dq\<lparr>dq_trytimes := dq_trytimes dq + 1\<rparr>) \<and> script st' = rest \<and> dns_live st'"
        by blast
      have "dns_order b st'"
      proof (cases "dq_trytimes dq > 1")
        case True
        then have "dns_ok b st' (remove1 q qs) cs evs'" "queries st' = (queries st)(q := None)" using i unfolding if_P [OF True] by simp_all
        then show ?thesis by (rule dns_order_drop [OF _ _ ord])
      next
        case False
        then have "dns_ok b st' qs cs evs'" "queries st' = (queries st)(q \<mapsto> dq\<lparr>dq_trytimes := dq_trytimes dq + 1\<rparr>)"
          using i unfolding if_not_P [OF False] by simp_all
        then show ?thesis by (rule dns_order_retry [OF _ _ q(2) ord])
      qed
      then show ?thesis using step f Retry by simp
    next
      case NoAddress
      obtain st' where d: "drop_query st q = Some st'" "dns_ok b st' (remove1 q qs) cs (remove1 (query_ev q) evs)" "queries st' = (queries st)(q := None)"
        using drop_query_ok [OF inv q(1)] by auto
      have "dns_order b st'" by (rule dns_order_drop [OF d(2,3) ord])
      then show ?thesis using step NoAddress d(1) by simp
    next
      case (Address ad)
      have l: "length (u_host (dq_url dq)) < DNS_UDP_SIZE" using hosts q(2) by blast
      have ad: "parse_answer pkt len = Some (Address ad)" using r Address by simp
      obtain st' cs' evs' where d: "parse_udp call st pkt len = Some st'" "dns_ok b st' (remove1 q qs) cs' evs'" "queries st' = (queries st)(q := None)"
        using address_ok [OF inv call p(1) Some q(2) l ad m] by blast
      have "dns_order b st'" by (rule dns_order_drop [OF d(2,3) ord])
      then show ?thesis using d(1) by simp
    qed
  qed
qed

lemma dns_act_order: "dns_order b st \<Longrightarrow> client_ok b call \<Longrightarrow> dns_enabled b act st \<Longrightarrow> \<exists>st'. dns_act call act st = Some st' \<and> dns_order b st'"
  by (cases act) (simp_all only: ask_order reply_order timeout_order)

lemma dns_reaches_order:
  assumes "dns_reaches b call st0 st" "client_ok b call" "dns_order b st0"
  shows "dns_order b st"
  using assms(1)
proof (induction rule: dns_reaches.induct)
  case (act st act st')
  then show ?case using dns_act_order [OF act.IH assms(2) act.hyps(2)] by simp
qed (rule assms(3))

section \<open>Properties\<close>



end
