(* ===== verification/Redis.thy ===== *)
theory Redis
  imports Murmur3
begin

text \<open>
  \<^verbatim>\<open>src/redis_func.c\<close> and \<^verbatim>\<open>src/bloom_filter.c\<close>: the commands sent to the Redis server, and the Bloom
  filter kept in one of its bit strings. The server behind hiredis is the parameter \<open>cmd\<close>: it takes
  the words of a command and answers with the error flag of the context and a reply, in a new state.
  \<open>redis_spec\<close> states what its documentation promises for the six commands used. The filter works on
  any store of bits (locale \<open>bitmap\<close>), which the model's bit commands are shown to be.
\<close>

section \<open>The connection and its commands\<close>

datatype redis_reply = REDIS_REPLY_STRING bytes | REDIS_REPLY_INTEGER int | REDIS_REPLY_NIL
  | REDIS_REPLY_STATUS bytes | REDIS_REPLY_ERROR bytes

type_synonym 'r redis = "bytes list \<Rightarrow> 'r \<Rightarrow> (bool \<times> redis_reply option) \<times> 'r"

text \<open>The global \<open>ctx\<close>: no context, a usable one, or one that has been freed.\<close>

datatype redis_ctx = NullCtx | LiveCtx | FreedCtx

record 'r redis_state =
  ctx :: redis_ctx
  server :: 'r

text \<open>\<open>redis_init\<close>: \<open>connected\<close> is the context \<open>redisConnectWithTimeout\<close> returns, with its error flag.\<close>

definition redis_init :: "bool option \<Rightarrow> 'r redis_state \<Rightarrow> int \<times> 'r redis_state" where
  "redis_init connected st = (case connected of
      None \<Rightarrow> (- 1, st\<lparr>ctx := NullCtx\<rparr>)
    | Some err \<Rightarrow> if err then (- 1, st\<lparr>ctx := FreedCtx\<rparr>) else (0, st\<lparr>ctx := LiveCtx\<rparr>))"

definition redis_free :: "'r redis_state \<Rightarrow> 'r redis_state option" where
  "redis_free st = (case ctx st of
      NullCtx \<Rightarrow> Some st
    | LiveCtx \<Rightarrow> Some (st\<lparr>ctx := NullCtx\<rparr>)
    | FreedCtx \<Rightarrow> None)"

text \<open>\<open>redisCommand\<close> and the reading of \<open>ctx->err\<close> after it.\<close>

definition redis_command :: "'r redis \<Rightarrow> bytes list \<Rightarrow> 'r redis_state \<Rightarrow> (bool \<times> redis_reply option \<times> 'r redis_state) option" where
  "redis_command cmd args st =
     (if ctx st \<noteq> LiveCtx then None
      else let ((err, reply), s) = cmd args (server st) in Some (err, reply, st\<lparr>server := s\<rparr>))"

text \<open>The digits \<open>%u\<close> and \<open>%d\<close> print for a number.\<close>

fun dec :: "nat \<Rightarrow> bytes" where
  "dec n = (if n < 10 then [48 + of_nat n] else dec (n div 10) @ [48 + of_nat (n mod 10)])"

declare dec.simps [simp del]

definition redis_list_length :: "'r redis \<Rightarrow> bytes \<Rightarrow> 'r redis_state \<Rightarrow> (int \<times> 'r redis_state) option" where
  "redis_list_length cmd key st =
     do { (err, reply, st) \<leftarrow> redis_command cmd [cstr ''llen'', key] st;
          if err then Some (- 1, st)
          else do { r \<leftarrow> reply;
                    case r of
                      REDIS_REPLY_INTEGER n \<Rightarrow> Some (sint (word_of_int n :: u32), st)
                    | _ \<Rightarrow> Some (- 1, st) } }"

definition redis_list_rpush :: "'r redis \<Rightarrow> bytes \<Rightarrow> bytes \<Rightarrow> 'r redis_state \<Rightarrow> (int \<times> 'r redis_state) option" where
  "redis_list_rpush cmd key v st =
     do { (err, reply, st) \<leftarrow> redis_command cmd [cstr ''rpush'', key, v] st; Some (if err then - 1 else 0, st) }"

text \<open>\<open>redis_list_lpop\<close>: \<open>alloc\<close> says whether \<open>calloc\<close> finds memory; \<open>strcpy\<close> ends at the first NUL.\<close>

definition redis_list_lpop :: "'r redis \<Rightarrow> bytes \<Rightarrow> bool \<Rightarrow> 'r redis_state \<Rightarrow> (bytes option \<times> 'r redis_state) option" where
  "redis_list_lpop cmd key alloc st =
     do { (err, reply, st) \<leftarrow> redis_command cmd [cstr ''lpop'', key] st;
          if err then Some (None, st)
          else do { r \<leftarrow> reply;
                    case r of
                      REDIS_REPLY_STRING str \<Rightarrow> Some (if alloc then Some (takeWhile (\<lambda>c. c \<noteq> 0) str) else None, st)
                    | _ \<Rightarrow> Some (None, st) } }"

definition redis_string_setbit :: "'r redis \<Rightarrow> bytes \<Rightarrow> u32 \<Rightarrow> u32 \<Rightarrow> 'r redis_state \<Rightarrow> (int \<times> 'r redis_state) option" where
  "redis_string_setbit cmd str off v st =
     do { (err, reply, st) \<leftarrow> redis_command cmd [cstr ''SETBIT'', str, dec (unat off), dec (if v \<noteq> 0 then 1 else 0)] st;
          Some (if err then - 1 else 0, st) }"

text \<open>\<open>redis_string_getbit\<close>: the result is the returned code and what \<open>*value\<close> holds then.\<close>

definition redis_string_getbit :: "'r redis \<Rightarrow> bytes \<Rightarrow> u32 \<Rightarrow> u32 \<Rightarrow> 'r redis_state \<Rightarrow> (int \<times> u32 \<times> 'r redis_state) option" where
  "redis_string_getbit cmd str off v st =
     do { (err, reply, st) \<leftarrow> redis_command cmd [cstr ''GETBIT'', str, dec (unat off)] st;
          if err then Some (- 1, v, st)
          else do { r \<leftarrow> reply;
                    case r of
                      REDIS_REPLY_INTEGER n \<Rightarrow> Some (0, word_of_int n, st)
                    | _ \<Rightarrow> Some (- 1, v, st) } }"

definition redis_string_bitop :: "'r redis \<Rightarrow> bytes \<Rightarrow> bytes \<Rightarrow> bytes \<Rightarrow> bytes \<Rightarrow> 'r redis_state \<Rightarrow> (int \<times> 'r redis_state) option" where
  "redis_string_bitop cmd src1 src2 op dest st =
     do { (err, reply, st) \<leftarrow> redis_command cmd [cstr ''BITOP'', op, src1, src2, dest] st; Some (if err then - 1 else 0, st) }"

section \<open>The Bloom filter\<close>

definition SEED_NUM :: nat where "SEED_NUM = 9"
definition BIT_SIZE :: int where "BIT_SIZE = 4294967295"

definition seeds :: "u32 list" where
  "seeds = [1999, 2887, 3989, 4969, 5557, 6661, 7883, 8887, 9901]"

definition BLOOM :: bytes where "BLOOM = cstr ''bloom_filter''"

definition bloom_init :: "'r redis \<Rightarrow> 'r redis_state \<Rightarrow> (int \<times> 'r redis_state) option" where
  "bloom_init cmd st =
     do { (rc, st) \<leftarrow> redis_string_setbit cmd BLOOM (word_of_int BIT_SIZE) 0 st;
          if rc < 0 then Some (- 1, st)
          else do { (rc, st) \<leftarrow> redis_string_bitop cmd BLOOM BLOOM (cstr ''XOR'') BLOOM st;
                    if rc < 0 then Some (- 1, st) else Some (0, st) } }"

text \<open>The loops over the seeds, for any operation on bits.\<close>

fun set_seeds :: "(u32 \<Rightarrow> 's \<Rightarrow> (int \<times> 's) option) \<Rightarrow> bytes \<Rightarrow> u32 list \<Rightarrow> 's \<Rightarrow> (int \<times> 's) option" where
  "set_seeds setb str [] s = Some (0, s)"
| "set_seeds setb str (x # xs) s =
     do { off \<leftarrow> MurmurHash3_x86_32 str (int (length str)) x;
          (rc, s) \<leftarrow> setb off s;
          if rc < 0 then Some (- 1, s) else set_seeds setb str xs s }"

fun check_seeds :: "(u32 \<Rightarrow> u32 \<Rightarrow> 's \<Rightarrow> (int \<times> u32 \<times> 's) option) \<Rightarrow> bytes \<Rightarrow> u32 list \<Rightarrow> u32 \<Rightarrow> 's \<Rightarrow> (int \<times> 's) option" where
  "check_seeds getb str [] v s = Some (1, s)"
| "check_seeds getb str (x # xs) v s =
     do { off \<leftarrow> MurmurHash3_x86_32 str (int (length str)) x;
          (rc, v, s) \<leftarrow> getb off v s;
          if rc < 0 then Some (- 1, s) else if v = 0 then Some (0, s) else check_seeds getb str xs v s }"

definition bloom_set :: "'r redis \<Rightarrow> bytes \<Rightarrow> 'r redis_state \<Rightarrow> (int \<times> 'r redis_state) option" where
  "bloom_set cmd str st = set_seeds (\<lambda>off. redis_string_setbit cmd BLOOM off 1) str (take SEED_NUM seeds) st"

definition bloom_check :: "'r redis \<Rightarrow> bytes \<Rightarrow> u32 \<Rightarrow> 'r redis_state \<Rightarrow> (int \<times> 'r redis_state) option" where
  "bloom_check cmd str junk st = check_seeds (redis_string_getbit cmd BLOOM) str (take SEED_NUM seeds) junk st"

section \<open>A store of bits\<close>

definition offset :: "bytes \<Rightarrow> u32 \<Rightarrow> u32" where
  "offset str seed = x86_32_ref seed str"

lemma hash_offset: "MurmurHash3_x86_32 str (int (length str)) x = Some (offset str x)"
  using x86_32_eval [of "length str" str x] by (simp add: offset_def)

text \<open>
  What the filter relies on: setting a bit sets it, or fails, and then the bit may be set or not;
  reading a bit changes nothing and returns it, or fails. A store that is \<open>sure\<close> never fails.
\<close>

locale bitmap =
  fixes rep :: "'s \<Rightarrow> u32 set \<Rightarrow> bool"
    and setb :: "u32 \<Rightarrow> 's \<Rightarrow> (int \<times> 's) option"
    and getb :: "u32 \<Rightarrow> u32 \<Rightarrow> 's \<Rightarrow> (int \<times> u32 \<times> 's) option"
    and sure :: bool
  assumes setb_rep: "rep s B \<Longrightarrow> \<exists>rc s'. setb x s = Some (rc, s') \<and> (sure \<longrightarrow> rc = 0) \<and>
      (rc = 0 \<and> rep s' (insert x B) \<or> rc = - 1 \<and> (rep s' B \<or> rep s' (insert x B)))"
    and getb_rep: "rep s B \<Longrightarrow> \<exists>rc v' s'. getb x v s = Some (rc, v', s') \<and> rep s' B \<and> (sure \<longrightarrow> rc = 0) \<and>
      (rc = 0 \<and> v' = of_bool (x \<in> B) \<or> rc = - 1)"
begin

lemma set_seeds_rep:
  "rep s B \<Longrightarrow> \<exists>rc s' C. set_seeds setb str xs s = Some (rc, s') \<and> rep s' C \<and> B \<subseteq> C \<and> C \<subseteq> B \<union> offset str ` set xs \<and>
     (sure \<longrightarrow> rc = 0) \<and> (rc = 0 \<and> C = B \<union> offset str ` set xs \<or> rc = - 1)"
proof (induction xs arbitrary: s B)
  case Nil
  then show ?case by auto
next
  case (Cons x xs)
  obtain rc s1 where s: "setb (offset str x) s = Some (rc, s1)" "sure \<longrightarrow> rc = 0"
    "rc = 0 \<and> rep s1 (insert (offset str x) B) \<or> rc = - 1 \<and> (rep s1 B \<or> rep s1 (insert (offset str x) B))"
    using setb_rep [OF Cons.prems] by blast
  show ?case
  proof (cases "rc = 0")
    case True
    then have "rep s1 (insert (offset str x) B)" using s(3) by simp
    from Cons.IH [OF this] obtain rc' s' C where "set_seeds setb str xs s1 = Some (rc', s')" "rep s' C"
      "insert (offset str x) B \<subseteq> C" "C \<subseteq> insert (offset str x) B \<union> offset str ` set xs"
      "sure \<longrightarrow> rc' = 0" "rc' = 0 \<and> C = insert (offset str x) B \<union> offset str ` set xs \<or> rc' = - 1" by blast
    then show ?thesis using True s(1) by (intro exI [of _ rc'] exI [of _ s'] exI [of _ C]) (auto simp: hash_offset)
  next
    case False
    then have "rc = - 1" "rep s1 B \<or> rep s1 (insert (offset str x) B)" using s(3) by auto
    then show ?thesis using s(1,2) by (auto simp: hash_offset)
  qed
qed

lemma check_seeds_rep:
  "rep s B \<Longrightarrow> \<exists>rc s'. check_seeds getb str xs v s = Some (rc, s') \<and> rep s' B \<and>
     (sure \<longrightarrow> rc \<noteq> - 1) \<and> (rc = - 1 \<or> rc = of_bool (offset str ` set xs \<subseteq> B))"
proof (induction xs arbitrary: s v)
  case Nil
  then show ?case by auto
next
  case (Cons x xs)
  obtain rc v' s1 where g: "getb (offset str x) v s = Some (rc, v', s1)" "rep s1 B" "sure \<longrightarrow> rc = 0"
    "rc = 0 \<and> v' = of_bool (offset str x \<in> B) \<or> rc = - 1" using getb_rep [OF Cons.prems] by blast
  from Cons.IH [OF g(2), of v'] obtain rc' s' where "check_seeds getb str xs v' s1 = Some (rc', s')" "rep s' B"
    "sure \<longrightarrow> rc' \<noteq> - 1" "rc' = - 1 \<or> rc' = of_bool (offset str ` set xs \<subseteq> B)" by blast
  then show ?case using g by (cases "offset str x \<in> B") (auto simp: hash_offset)
qed

end

section \<open>What the server promises\<close>

text \<open>
  \<open>lists_of\<close> and \<open>bits_of\<close> read the lists and bit strings out of a server state. A command whose context
  reports no error has been carried out and is answered by its reply; after an error it may have been
  carried out or not.
\<close>

definition obeys :: "'r redis \<Rightarrow> ('r \<Rightarrow> bytes \<Rightarrow> bytes list) \<Rightarrow> ('r \<Rightarrow> bytes \<Rightarrow> u32 set) \<Rightarrow> bytes list \<Rightarrow>
    ((bytes \<Rightarrow> bytes list) \<Rightarrow> (bytes \<Rightarrow> bytes list)) \<Rightarrow> ((bytes \<Rightarrow> u32 set) \<Rightarrow> (bytes \<Rightarrow> u32 set)) \<Rightarrow>
    ((bytes \<Rightarrow> bytes list) \<Rightarrow> (bytes \<Rightarrow> u32 set) \<Rightarrow> redis_reply) \<Rightarrow> bool" where
  "obeys cmd lists_of bits_of args f g reply \<longleftrightarrow> (\<forall>s err r s'. cmd args s = ((err, r), s') \<longrightarrow>
     (lists_of s' = lists_of s \<and> bits_of s' = bits_of s \<or> lists_of s' = f (lists_of s) \<and> bits_of s' = g (bits_of s)) \<and>
     (\<not> err \<longrightarrow> r = Some (reply (lists_of s) (bits_of s)) \<and> lists_of s' = f (lists_of s) \<and> bits_of s' = g (bits_of s)))"

definition head_reply :: "bytes list \<Rightarrow> redis_reply" where
  "head_reply xs = (case xs of [] \<Rightarrow> REDIS_REPLY_NIL | x # _ \<Rightarrow> REDIS_REPLY_STRING x)"

definition redis_spec :: "'r redis \<Rightarrow> ('r \<Rightarrow> bytes \<Rightarrow> bytes list) \<Rightarrow> ('r \<Rightarrow> bytes \<Rightarrow> u32 set) \<Rightarrow> bool" where
  "redis_spec cmd lists_of bits_of \<longleftrightarrow>
     (\<forall>k. obeys cmd lists_of bits_of [cstr ''llen'', k] id id (\<lambda>L B. REDIS_REPLY_INTEGER (int (length (L k))))) \<and>
     (\<forall>k v. obeys cmd lists_of bits_of [cstr ''rpush'', k, v] (\<lambda>L. L(k := L k @ [v])) id (\<lambda>L B. REDIS_REPLY_INTEGER (int (length (L k)) + 1))) \<and>
     (\<forall>k. obeys cmd lists_of bits_of [cstr ''lpop'', k] (\<lambda>L. L(k := drop 1 (L k))) id (\<lambda>L B. head_reply (L k))) \<and>
     (\<forall>k x. obeys cmd lists_of bits_of [cstr ''SETBIT'', k, dec (unat x), dec 1] id (\<lambda>B. B(k := insert x (B k)))
        (\<lambda>L B. REDIS_REPLY_INTEGER (of_bool (x \<in> B k)))) \<and>
     (\<forall>k x. obeys cmd lists_of bits_of [cstr ''SETBIT'', k, dec (unat x), dec 0] id (\<lambda>B. B(k := B k - {x}))
        (\<lambda>L B. REDIS_REPLY_INTEGER (of_bool (x \<in> B k)))) \<and>
     (\<forall>k x. obeys cmd lists_of bits_of [cstr ''GETBIT'', k, dec (unat x)] id id (\<lambda>L B. REDIS_REPLY_INTEGER (of_bool (x \<in> B k)))) \<and>
     (\<exists>n. \<forall>d a b. obeys cmd lists_of bits_of [cstr ''BITOP'', cstr ''XOR'', d, a, b] id (\<lambda>B. B(d := (B a - B b) \<union> (B b - B a))) (\<lambda>L B. n))"

text \<open>A server that is never unreachable.\<close>

definition reliable :: "'r redis \<Rightarrow> bool" where
  "reliable cmd \<longleftrightarrow> (\<forall>args s err r s'. cmd args s = ((err, r), s') \<longrightarrow> \<not> err)"

text \<open>One command of a server that keeps its promises.\<close>

lemma command_run:
  assumes "ctx st = LiveCtx" "obeys cmd lists_of bits_of args f g reply"
  obtains err r s' where "redis_command cmd args st = Some (err, r, st\<lparr>server := s'\<rparr>)"
    "lists_of s' = lists_of (server st) \<and> bits_of s' = bits_of (server st) \<or> lists_of s' = f (lists_of (server st)) \<and> bits_of s' = g (bits_of (server st))"
    "\<not> err \<Longrightarrow> r = Some (reply (lists_of (server st)) (bits_of (server st))) \<and> lists_of s' = f (lists_of (server st)) \<and> bits_of s' = g (bits_of (server st))"
    "reliable cmd \<Longrightarrow> \<not> err"
proof -
  obtain err r s' where c: "cmd args (server st) = ((err, r), s')" by (metis prod.exhaust)
  have "redis_command cmd args st = Some (err, r, st\<lparr>server := s'\<rparr>)" using assms(1) c by (simp add: redis_command_def)
  moreover have "reliable cmd \<Longrightarrow> \<not> err" using c unfolding reliable_def by blast
  ultimately show thesis using that assms(2) c unfolding obeys_def by blast
qed

definition bloom_rep :: "'r redis \<Rightarrow> ('r \<Rightarrow> bytes \<Rightarrow> bytes list) \<Rightarrow> ('r \<Rightarrow> bytes \<Rightarrow> u32 set) \<Rightarrow> (bytes \<Rightarrow> bytes list) \<Rightarrow>
    'r redis_state \<Rightarrow> u32 set \<Rightarrow> bool" where
  "bloom_rep cmd lists_of bits_of L st B \<longleftrightarrow>
     ctx st = LiveCtx \<and> redis_spec cmd lists_of bits_of \<and> lists_of (server st) = L \<and> bits_of (server st) BLOOM = B"

lemma bloom_rep_setbit:
  assumes r: "bloom_rep cmd lists_of bits_of L st B"
  shows "\<exists>rc st'. redis_string_setbit cmd BLOOM x 1 st = Some (rc, st') \<and> (reliable cmd \<longrightarrow> rc = 0) \<and>
    (rc = 0 \<and> bloom_rep cmd lists_of bits_of L st' (insert x B) \<or>
     rc = - 1 \<and> (bloom_rep cmd lists_of bits_of L st' B \<or> bloom_rep cmd lists_of bits_of L st' (insert x B)))"
proof -
  have c: "ctx st = LiveCtx" "redis_spec cmd lists_of bits_of" "bits_of (server st) BLOOM = B" "lists_of (server st) = L" using r by (simp_all add: bloom_rep_def)
  have o: "obeys cmd lists_of bits_of [cstr ''SETBIT'', BLOOM, dec (unat x), dec 1] id (\<lambda>B. B(BLOOM := insert x (B BLOOM)))
      (\<lambda>L B. REDIS_REPLY_INTEGER (of_bool (x \<in> B BLOOM)))" using c(2) by (simp add: redis_spec_def)
  obtain err rep s' where run: "redis_command cmd [cstr ''SETBIT'', BLOOM, dec (unat x), dec 1] st = Some (err, rep, st\<lparr>server := s'\<rparr>)"
    and l: "lists_of s' = lists_of (server st)" and sure: "reliable cmd \<Longrightarrow> \<not> err"
    and any: "bits_of s' = bits_of (server st) \<or> bits_of s' = (bits_of (server st))(BLOOM := insert x (bits_of (server st) BLOOM))"
    and ok: "\<not> err \<Longrightarrow> bits_of s' = (bits_of (server st))(BLOOM := insert x (bits_of (server st) BLOOM))"
    by (rule command_run [OF c(1) o]) auto
  have "bits_of s' BLOOM = B \<or> bits_of s' BLOOM = insert x B" using any c(3) by (elim disjE) simp_all
  moreover have "\<not> err \<Longrightarrow> bits_of s' BLOOM = insert x B" using ok c(3) by simp
  ultimately show ?thesis using c run l sure by (cases err) (auto simp: redis_string_setbit_def bloom_rep_def)
qed

lemma bloom_rep_getbit:
  assumes r: "bloom_rep cmd lists_of bits_of L st B"
  shows "\<exists>rc v' st'. redis_string_getbit cmd BLOOM x v st = Some (rc, v', st') \<and> bloom_rep cmd lists_of bits_of L st' B \<and>
    (reliable cmd \<longrightarrow> rc = 0) \<and> (rc = 0 \<and> v' = of_bool (x \<in> B) \<or> rc = - 1)"
proof -
  have c: "ctx st = LiveCtx" "redis_spec cmd lists_of bits_of" "bits_of (server st) BLOOM = B" "lists_of (server st) = L" using r by (simp_all add: bloom_rep_def)
  have o: "obeys cmd lists_of bits_of [cstr ''GETBIT'', BLOOM, dec (unat x)] id id (\<lambda>L B. REDIS_REPLY_INTEGER (of_bool (x \<in> B BLOOM)))"
    using c(2) by (simp add: redis_spec_def)
  obtain err rep s' where "redis_command cmd [cstr ''GETBIT'', BLOOM, dec (unat x)] st = Some (err, rep, st\<lparr>server := s'\<rparr>)"
    "bits_of s' BLOOM = B" "lists_of s' = L" "\<not> err \<Longrightarrow> rep = Some (REDIS_REPLY_INTEGER (of_bool (x \<in> B)))" "reliable cmd \<Longrightarrow> \<not> err"
    by (rule command_run [OF c(1) o]) (use c(3,4) in auto)
  then show ?thesis using c by (cases err) (auto simp: redis_string_getbit_def bloom_rep_def)
qed

interpretation bf: bitmap "bloom_rep cmd lists_of bits_of L" "\<lambda>x. redis_string_setbit cmd BLOOM x 1" "redis_string_getbit cmd BLOOM" "reliable cmd"
  by unfold_locales (erule bloom_rep_setbit, erule bloom_rep_getbit)

text \<open>The bits of a string.\<close>

definition bloom_bits :: "bytes \<Rightarrow> u32 set" where
  "bloom_bits str = offset str ` set seeds"

lemma all_seeds: "take SEED_NUM seeds = seeds"
  by (simp add: SEED_NUM_def seeds_def)

lemma bloom_set_run:
  assumes "bloom_rep cmd lists_of bits_of L st B"
  obtains rc st' C where "bloom_set cmd str st = Some (rc, st')" "bloom_rep cmd lists_of bits_of L st' C" "B \<subseteq> C" "C \<subseteq> B \<union> bloom_bits str"
    "reliable cmd \<longrightarrow> rc = 0" "rc = 0 \<and> C = B \<union> bloom_bits str \<or> rc = - 1"
  using bf.set_seeds_rep [OF assms, of str seeds] unfolding bloom_set_def all_seeds bloom_bits_def by blast

lemma bloom_check_run:
  assumes "bloom_rep cmd lists_of bits_of L st B"
  obtains rc st' where "bloom_check cmd str junk st = Some (rc, st')" "bloom_rep cmd lists_of bits_of L st' B"
    "reliable cmd \<longrightarrow> rc \<noteq> - 1" "rc = - 1 \<or> rc = of_bool (bloom_bits str \<subseteq> B)"
  using bf.check_seeds_rep [OF assms, of str seeds junk] unfolding bloom_check_def all_seeds bloom_bits_def by blast

text \<open>Initialisation: the last bit is cleared, which gives the string its length, and then all of them.\<close>

lemma bloom_init_run:
  assumes "bloom_rep cmd lists_of bits_of L st B"
  obtains rc st' C where "bloom_init cmd st = Some (rc, st')" "bloom_rep cmd lists_of bits_of L st' C" "rc = 0 \<and> C = {} \<or> rc = - 1"
proof -
  have c: "ctx st = LiveCtx" "redis_spec cmd lists_of bits_of" "lists_of (server st) = L" using assms by (simp_all add: bloom_rep_def)
  let ?x = "word_of_int BIT_SIZE :: u32"
  have o: "obeys cmd lists_of bits_of [cstr ''SETBIT'', BLOOM, dec (unat ?x), dec 0] id (\<lambda>B. B(BLOOM := B BLOOM - {?x}))
      (\<lambda>L B. REDIS_REPLY_INTEGER (of_bool (?x \<in> B BLOOM)))" using c(2) by (simp add: redis_spec_def)
  obtain err r s1 where s1: "redis_command cmd [cstr ''SETBIT'', BLOOM, dec (unat ?x), dec 0] st = Some (err, r, st\<lparr>server := s1\<rparr>)"
    and l1: "lists_of s1 = lists_of (server st)"
    by (rule command_run [OF c(1) o]) auto
  obtain n where "\<forall>d a b. obeys cmd lists_of bits_of [cstr ''BITOP'', cstr ''XOR'', d, a, b] id (\<lambda>B. B(d := (B a - B b) \<union> (B b - B a))) (\<lambda>L B. n)"
    using c(2) by (auto simp: redis_spec_def)
  then have o2: "obeys cmd lists_of bits_of [cstr ''BITOP'', cstr ''XOR'', BLOOM, BLOOM, BLOOM] id
      (\<lambda>B. B(BLOOM := (B BLOOM - B BLOOM) \<union> (B BLOOM - B BLOOM))) (\<lambda>L B. n)" by blast
  have c1: "ctx (st\<lparr>server := s1\<rparr>) = LiveCtx" using c(1) by simp
  obtain err2 r2 s2 where s2: "redis_command cmd [cstr ''BITOP'', cstr ''XOR'', BLOOM, BLOOM, BLOOM] (st\<lparr>server := s1\<rparr>) =
      Some (err2, r2, st\<lparr>server := s1\<rparr>\<lparr>server := s2\<rparr>)" "lists_of s2 = lists_of s1"
    "\<not> err2 \<Longrightarrow> bits_of s2 = (bits_of s1)(BLOOM := (bits_of s1 BLOOM - bits_of s1 BLOOM) \<union> (bits_of s1 BLOOM - bits_of s1 BLOOM))"
    by (rule command_run [OF c1 o2]) auto
  have empty: "\<not> err2 \<Longrightarrow> bits_of s2 BLOOM = {}" using s2(3) by simp
  show thesis
  proof (cases err)
    case True
    then have "bloom_init cmd st = Some (- 1, st\<lparr>server := s1\<rparr>)" using s1 by (simp add: bloom_init_def redis_string_setbit_def)
    moreover have "bloom_rep cmd lists_of bits_of L (st\<lparr>server := s1\<rparr>) (bits_of s1 BLOOM)" using c l1 by (simp add: bloom_rep_def)
    ultimately show thesis using that by blast
  next
    case False
    then have "bloom_init cmd st = Some (if err2 then - 1 else 0, st\<lparr>server := s2\<rparr>)"
      using s1 s2(1) by (simp add: bloom_init_def redis_string_setbit_def redis_string_bitop_def)
    moreover have "bloom_rep cmd lists_of bits_of L (st\<lparr>server := s2\<rparr>) (bits_of s2 BLOOM)" using c l1 s2(2) by (simp add: bloom_rep_def)
    ultimately show thesis using that empty by (cases err2) auto
  qed
qed

section \<open>Lists\<close>

lemma rpush_run:
  assumes "redis_spec cmd lists_of bits_of" "ctx st = LiveCtx"
  obtains rc s' where "redis_list_rpush cmd k v st = Some (rc, st\<lparr>server := s'\<rparr>)" "bits_of s' = bits_of (server st)"
    "rc = 0 \<and> lists_of s' = (lists_of (server st))(k := lists_of (server st) k @ [v]) \<or>
     rc = - 1 \<and> (lists_of s' = lists_of (server st) \<or> lists_of s' = (lists_of (server st))(k := lists_of (server st) k @ [v]))"
    "reliable cmd \<longrightarrow> rc = 0"
proof -
  have o: "obeys cmd lists_of bits_of [cstr ''rpush'', k, v] (\<lambda>L. L(k := L k @ [v])) id (\<lambda>L B. REDIS_REPLY_INTEGER (int (length (L k)) + 1))"
    using assms(1) by (simp add: redis_spec_def)
  obtain err r s' where "redis_command cmd [cstr ''rpush'', k, v] st = Some (err, r, st\<lparr>server := s'\<rparr>)" "bits_of s' = bits_of (server st)"
    "lists_of s' = lists_of (server st) \<or> lists_of s' = (lists_of (server st))(k := lists_of (server st) k @ [v])"
    "\<not> err \<Longrightarrow> lists_of s' = (lists_of (server st))(k := lists_of (server st) k @ [v])" "reliable cmd \<Longrightarrow> \<not> err"
    by (rule command_run [OF assms(2) o]) auto
  then show thesis using that [of "if err then - 1 else 0" s'] by (cases err) (auto simp: redis_list_rpush_def)
qed

lemma lpop_run:
  assumes "redis_spec cmd lists_of bits_of" "ctx st = LiveCtx"
  obtains r s' where "redis_list_lpop cmd k alloc st = Some (r, st\<lparr>server := s'\<rparr>)" "bits_of s' = bits_of (server st)"
    "lists_of s' = lists_of (server st) \<or> lists_of s' = (lists_of (server st))(k := drop 1 (lists_of (server st) k))"
    "\<And>v. r = Some v \<Longrightarrow> \<exists>w ws. lists_of (server st) k = w # ws \<and> v = takeWhile (\<lambda>c. c \<noteq> 0) w \<and> lists_of s' = (lists_of (server st))(k := ws)"
proof -
  have o: "obeys cmd lists_of bits_of [cstr ''lpop'', k] (\<lambda>L. L(k := drop 1 (L k))) id (\<lambda>L B. head_reply (L k))"
    using assms(1) by (simp add: redis_spec_def)
  obtain err r s' where c: "redis_command cmd [cstr ''lpop'', k] st = Some (err, r, st\<lparr>server := s'\<rparr>)" "bits_of s' = bits_of (server st)"
    "lists_of s' = lists_of (server st) \<or> lists_of s' = (lists_of (server st))(k := drop 1 (lists_of (server st) k))"
    "\<not> err \<Longrightarrow> r = Some (head_reply (lists_of (server st) k)) \<and> lists_of s' = (lists_of (server st))(k := drop 1 (lists_of (server st) k))"
    by (rule command_run [OF assms(2) o]) auto
  show thesis
  proof (cases "err \<or> lists_of (server st) k = []")
    case True
    have "redis_list_lpop cmd k alloc st = Some (None, st\<lparr>server := s'\<rparr>)"
      using c(1,4) True by (cases err) (simp_all add: redis_list_lpop_def head_reply_def)
    from that [OF this c(2,3)] show thesis by simp
  next
    case False
    then obtain w ws where w: "lists_of (server st) k = w # ws" by (cases "lists_of (server st) k") auto
    have "redis_list_lpop cmd k alloc st = Some (if alloc then Some (takeWhile (\<lambda>c. c \<noteq> 0) w) else None, st\<lparr>server := s'\<rparr>)"
      using c(1,4) False w by (simp add: redis_list_lpop_def head_reply_def)
    moreover have "\<exists>w ws. lists_of (server st) k = w # ws \<and> v = takeWhile (\<lambda>c. c \<noteq> 0) w \<and> lists_of s' = (lists_of (server st))(k := ws)"
      if v: "(if alloc then Some (takeWhile (\<lambda>c. c \<noteq> 0) w) else None) = Some v" for v
      using c(4) False w v by (cases alloc) auto
    ultimately show thesis using that [OF _ c(2,3)] by blast
  qed
qed

lemma llen_run:
  assumes "redis_spec cmd lists_of bits_of" "ctx st = LiveCtx"
  obtains n s' where "redis_list_length cmd k st = Some (n, st\<lparr>server := s'\<rparr>)" "bits_of s' = bits_of (server st)"
    "lists_of s' = lists_of (server st)" "n = - 1 \<or> n = sint (word_of_nat (length (lists_of (server st) k)) :: u32)"
proof -
  have o: "obeys cmd lists_of bits_of [cstr ''llen'', k] id id (\<lambda>L B. REDIS_REPLY_INTEGER (int (length (L k))))"
    using assms(1) by (simp add: redis_spec_def)
  obtain err r s' where c: "redis_command cmd [cstr ''llen'', k] st = Some (err, r, st\<lparr>server := s'\<rparr>)" "bits_of s' = bits_of (server st)"
    "lists_of s' = lists_of (server st)" "\<not> err \<Longrightarrow> r = Some (REDIS_REPLY_INTEGER (int (length (lists_of (server st) k))))"
    by (rule command_run [OF assms(2) o]) auto
  then show thesis using that by (cases err) (auto simp: redis_list_length_def)
qed

text \<open>A server that is always reachable answers for a list that is not empty with its length and its first value.\<close>

lemma llen_reliable:
  assumes "redis_spec cmd lists_of bits_of" "reliable cmd" "ctx st = LiveCtx"
    and "length (w # ws) < 2 ^ 31" "lists_of (server st) k = w # ws"
  shows "\<exists>n s'. redis_list_length cmd k st = Some (n, st\<lparr>server := s'\<rparr>) \<and> bits_of s' = bits_of (server st) \<and>
    lists_of s' = lists_of (server st) \<and> n = int (length (w # ws))"
proof -
  have o: "obeys cmd lists_of bits_of [cstr ''llen'', k] id id (\<lambda>L B. REDIS_REPLY_INTEGER (int (length (L k))))"
    using assms(1) by (simp add: redis_spec_def)
  obtain err r s' where c: "redis_command cmd [cstr ''llen'', k] st = Some (err, r, st\<lparr>server := s'\<rparr>)" "bits_of s' = bits_of (server st)"
    "lists_of s' = lists_of (server st)" "\<not> err \<Longrightarrow> r = Some (REDIS_REPLY_INTEGER (int (length (lists_of (server st) k))))" "reliable cmd \<Longrightarrow> \<not> err"
    by (rule command_run [OF assms(3) o]) auto
  have r: "r = Some (REDIS_REPLY_INTEGER (int (length (w # ws))))" "\<not> err" using c(4,5) assms(2,5) by simp_all
  have "redis_list_length cmd k st = Some (sint (word_of_int (int (length (w # ws))) :: u32), st\<lparr>server := s'\<rparr>)"
    using c(1) r by (simp add: redis_list_length_def)
  moreover have "sint (word_of_int (int (length (w # ws))) :: u32) = int (length (w # ws))"
    using assms(4) by (simp only: int_word_sint) simp
  ultimately show ?thesis using c(2,3) by auto
qed

lemma lpop_reliable:
  assumes "redis_spec cmd lists_of bits_of" "reliable cmd" "ctx st = LiveCtx" "lists_of (server st) k = w # ws"
  shows "\<exists>s'. redis_list_lpop cmd k True st = Some (Some (takeWhile (\<lambda>c. c \<noteq> 0) w), st\<lparr>server := s'\<rparr>) \<and>
    bits_of s' = bits_of (server st) \<and> lists_of s' = (lists_of (server st))(k := ws)"
proof -
  have o: "obeys cmd lists_of bits_of [cstr ''lpop'', k] (\<lambda>L. L(k := drop 1 (L k))) id (\<lambda>L B. head_reply (L k))"
    using assms(1) by (simp add: redis_spec_def)
  obtain err r s' where c: "redis_command cmd [cstr ''lpop'', k] st = Some (err, r, st\<lparr>server := s'\<rparr>)" "bits_of s' = bits_of (server st)"
    "\<not> err \<Longrightarrow> r = Some (head_reply (lists_of (server st) k)) \<and> lists_of s' = (lists_of (server st))(k := drop 1 (lists_of (server st) k))"
    "reliable cmd \<Longrightarrow> \<not> err" by (rule command_run [OF assms(3) o]) auto
  then show ?thesis using assms(2,4) by (auto simp: redis_list_lpop_def head_reply_def)
qed

section \<open>An example server\<close>

definition undec :: "bytes \<Rightarrow> nat" where
  "undec ds = foldl (\<lambda>n c. 10 * n + unat (c - 48)) 0 ds"

lemma undec_dec: "undec (dec n) = n"
proof (induction n rule: dec.induct)
  case (1 n)
  show ?case
  proof (cases "n < 10")
    case True
    then show ?thesis by (subst dec.simps) (simp add: undec_def unat_of_nat)
  next
    case False
    have "undec (dec n) = 10 * undec (dec (n div 10)) + n mod 10"
      using False by (subst dec.simps) (simp add: undec_def unat_of_nat)
    then show ?thesis using 1 False by simp
  qed
qed

definition ex_redis :: "((bytes \<Rightarrow> bytes list) \<times> (bytes \<Rightarrow> u32 set)) redis" where
  "ex_redis args s =
     (let (L, B) = s; verb = args ! 0; k = args ! 1; x = word_of_nat (undec (args ! 2)) in
      if verb = cstr ''llen'' then ((False, Some (REDIS_REPLY_INTEGER (int (length (L k))))), s)
      else if verb = cstr ''rpush'' then ((False, Some (REDIS_REPLY_INTEGER (int (length (L k)) + 1))), (L(k := L k @ [args ! 2]), B))
      else if verb = cstr ''lpop'' then ((False, Some (head_reply (L k))), (L(k := drop 1 (L k)), B))
      else if verb = cstr ''GETBIT'' then ((False, Some (REDIS_REPLY_INTEGER (of_bool (x \<in> B k)))), s)
      else if verb = cstr ''SETBIT'' then
        ((False, Some (REDIS_REPLY_INTEGER (of_bool (x \<in> B k)))), (L, B(k := if undec (args ! 3) = 1 then insert x (B k) else B k - {x})))
      else ((False, Some REDIS_REPLY_NIL),
        (L, B(args ! 2 := (B (args ! 3) - B (args ! 4)) \<union> (B (args ! 4) - B (args ! 3))))))"

lemma verbs:
  "cstr ''rpush'' \<noteq> cstr ''llen''" "cstr ''lpop'' \<noteq> cstr ''llen''" "cstr ''lpop'' \<noteq> cstr ''rpush''"
  "cstr ''GETBIT'' \<notin> {cstr ''llen'', cstr ''rpush'', cstr ''lpop''}"
  "cstr ''SETBIT'' \<notin> {cstr ''llen'', cstr ''rpush'', cstr ''lpop'', cstr ''GETBIT''}"
  "cstr ''BITOP'' \<notin> {cstr ''llen'', cstr ''rpush'', cstr ''lpop'', cstr ''GETBIT'', cstr ''SETBIT''}"
  by (simp_all add: cstr_def of_char_def)

lemma ex_redis_spec: "redis_spec ex_redis fst snd"
  unfolding redis_spec_def
proof (intro conjI exI [of _ REDIS_REPLY_NIL] allI)
qed (use verbs in \<open>auto simp: obeys_def ex_redis_def undec_dec split: prod.splits\<close>)

definition ex_redis_state :: "((bytes \<Rightarrow> bytes list) \<times> (bytes \<Rightarrow> u32 set)) redis_state" where
  "ex_redis_state = \<lparr>ctx = LiveCtx, server = (\<lambda>k. [], \<lambda>k. {})\<rparr>"

lemma ex_bloom_rep: "bloom_rep ex_redis fst snd (\<lambda>k. []) ex_redis_state {}"
  by (simp add: bloom_rep_def ex_redis_spec ex_redis_state_def)

text \<open>The example server never fails.\<close>

lemma ex_redis_no_error: "ex_redis args s = ((err, r), s') \<Longrightarrow> \<not> err"
  by (auto simp: ex_redis_def Let_def split: prod.splits if_splits)

lemma ex_setbit_code: "redis_string_setbit ex_redis k x v st = Some (rc, st') \<Longrightarrow> rc = 0"
  by (auto simp: redis_string_setbit_def redis_command_def bind_eq_Some_conv split: if_splits prod.splits dest: ex_redis_no_error)

lemma ex_bitop_code: "redis_string_bitop ex_redis a b op c st = Some (rc, st') \<Longrightarrow> rc = 0"
  by (auto simp: redis_string_bitop_def redis_command_def bind_eq_Some_conv split: if_splits prod.splits dest: ex_redis_no_error)

lemma ex_set_seeds_code: "set_seeds (\<lambda>x. redis_string_setbit ex_redis BLOOM x 1) str xs st = Some (rc, st') \<Longrightarrow> rc = 0"
  by (induction xs arbitrary: st) (auto simp: bind_eq_Some_conv split: if_splits dest: ex_setbit_code)

lemma ex_bloom_set:
  assumes "bloom_rep ex_redis fst snd L st B"
  obtains st' where "bloom_set ex_redis str st = Some (0, st')" "bloom_rep ex_redis fst snd L st' (B \<union> bloom_bits str)"
proof -
  obtain rc st' C where "bloom_set ex_redis str st = Some (rc, st')" "bloom_rep ex_redis fst snd L st' C"
    "rc = 0 \<and> C = B \<union> bloom_bits str \<or> rc = - 1" by (rule bloom_set_run [OF assms])
  moreover have "bloom_set ex_redis str st = Some (rc, st') \<Longrightarrow> rc = 0" for rc st'
    unfolding bloom_set_def by (rule ex_set_seeds_code)
  ultimately show thesis using that by fastforce
qed

section \<open>Setting several strings\<close>

fun bloom_set_all :: "'r redis \<Rightarrow> bytes list \<Rightarrow> 'r redis_state \<Rightarrow> (int \<times> 'r redis_state) option" where
  "bloom_set_all cmd [] st = Some (0, st)"
| "bloom_set_all cmd (str # strs) st =
     do { (rc, st) \<leftarrow> bloom_set cmd str st; if rc < 0 then Some (- 1, st) else bloom_set_all cmd strs st }"

lemma bloom_set_all_run:
  "bloom_rep cmd lists_of bits_of L st B \<Longrightarrow> bloom_set_all cmd strs st = Some (0, st') \<Longrightarrow>
    bloom_rep cmd lists_of bits_of L st' (B \<union> (\<Union>s\<in>set strs. bloom_bits s))"
proof (induction strs arbitrary: st B)
  case (Cons str strs)
  obtain rc st1 C where s: "bloom_set cmd str st = Some (rc, st1)" "bloom_rep cmd lists_of bits_of L st1 C"
    "rc = 0 \<and> C = B \<union> bloom_bits str \<or> rc = - 1" by (rule bloom_set_run [OF Cons.prems(1)])
  then have c: "C = B \<union> bloom_bits str" "bloom_set_all cmd strs st1 = Some (0, st')" using Cons.prems(2) by (auto split: if_splits)
  from Cons.IH [OF s(2) c(2)] show ?case by (simp add: c(1) Un_assoc)
qed simp

section \<open>Properties\<close>

text \<open>
  C4: no false negatives. When \<open>bloom_set\<close> has put a string into the filter, \<open>bloom_check\<close> never says
  that the string is not in it, from any later state that still has the bits set then: it returns 1,
  or -1 when the server cannot be asked.
\<close>

theorem bloom_no_false_negatives:
  assumes "redis_spec cmd lists_of bits_of" "ctx st1 = LiveCtx" "bloom_set cmd str st1 = Some (0, st2)"
    and "ctx st3 = LiveCtx" "bits_of (server st2) BLOOM \<subseteq> bits_of (server st3) BLOOM"
  shows "\<exists>rc st4. bloom_check cmd str junk st3 = Some (rc, st4) \<and> (rc = 1 \<or> rc = - 1)"
proof -
  have "bloom_rep cmd lists_of bits_of (lists_of (server st1)) st1 (bits_of (server st1) BLOOM)" using assms(1,2) by (simp add: bloom_rep_def)
  then obtain rc st' C where "bloom_set cmd str st1 = Some (rc, st')" "bloom_rep cmd lists_of bits_of (lists_of (server st1)) st' C"
    "rc = 0 \<and> C = bits_of (server st1) BLOOM \<union> bloom_bits str \<or> rc = - 1" by (rule bloom_set_run)
  then have "bloom_rep cmd lists_of bits_of (lists_of (server st1)) st2 (bits_of (server st1) BLOOM \<union> bloom_bits str)" using assms(3) by simp
  then have "bloom_bits str \<subseteq> bits_of (server st3) BLOOM" using assms(5) by (auto simp: bloom_rep_def)
  moreover have "bloom_rep cmd lists_of bits_of (lists_of (server st3)) st3 (bits_of (server st3) BLOOM)" using assms(1,4) by (simp add: bloom_rep_def)
  then obtain rc st4 where "bloom_check cmd str junk st3 = Some (rc, st4)" "rc = - 1 \<or> rc = of_bool (bloom_bits str \<subseteq> bits_of (server st3) BLOOM)"
    by (rule bloom_check_run)
  ultimately show ?thesis by (intro exI [of _ rc] exI [of _ st4]) auto
qed

theorem bloom_no_false_negatives_witness:
  "\<exists>st2 rc st4. bloom_set ex_redis (cstr ''http://a/'') ex_redis_state = Some (0, st2) \<and>
    bloom_check ex_redis (cstr ''http://a/'') 0 st2 = Some (rc, st4) \<and> (rc = 1 \<or> rc = - 1)"
proof -
  obtain st2 where s: "bloom_set ex_redis (cstr ''http://a/'') ex_redis_state = Some (0, st2)" "ctx st2 = LiveCtx"
    using ex_bloom_rep by (rule ex_bloom_set [of _ _ _ "cstr ''http://a/''"]) (auto simp: bloom_rep_def)
  have "ctx ex_redis_state = LiveCtx" by (simp add: ex_redis_state_def)
  from bloom_no_false_negatives [OF ex_redis_spec this s(1,2) order_refl, of 0] s(1) show ?thesis by blast
qed

text \<open>
  C32: the filter is exactly the set of the bits of the strings put into it: after \<open>bloom_init\<close> has
  cleared it and some strings (none, say) have been set, \<open>bloom_check\<close> answers 1 if all bits of the
  string asked for are among theirs and 0 if not, or -1 when the server cannot be asked.
\<close>

theorem bloom_filter_exact:
  assumes "redis_spec cmd lists_of bits_of" "ctx st = LiveCtx" "bloom_init cmd st = Some (0, st1)"
    and "bloom_set_all cmd strs st1 = Some (0, st2)"
  shows "bits_of (server st2) BLOOM = (\<Union>s\<in>set strs. bloom_bits s) \<and>
    (\<exists>rc st3. bloom_check cmd str junk st2 = Some (rc, st3) \<and>
      (rc = of_bool (bloom_bits str \<subseteq> (\<Union>s\<in>set strs. bloom_bits s)) \<or> rc = - 1))"
proof -
  have "bloom_rep cmd lists_of bits_of (lists_of (server st)) st (bits_of (server st) BLOOM)" using assms(1,2) by (simp add: bloom_rep_def)
  then obtain rc st' C where "bloom_init cmd st = Some (rc, st')" "bloom_rep cmd lists_of bits_of (lists_of (server st)) st' C" "rc = 0 \<and> C = {} \<or> rc = - 1"
    by (rule bloom_init_run)
  then have "bloom_rep cmd lists_of bits_of (lists_of (server st)) st1 {}" using assms(3) by auto
  from bloom_set_all_run [OF this assms(4)] have r: "bloom_rep cmd lists_of bits_of (lists_of (server st)) st2 (\<Union>s\<in>set strs. bloom_bits s)" by simp
  obtain rc st3 where "bloom_check cmd str junk st2 = Some (rc, st3)"
    "rc = - 1 \<or> rc = of_bool (bloom_bits str \<subseteq> (\<Union>s\<in>set strs. bloom_bits s))" by (rule bloom_check_run [OF r])
  then show ?thesis using r unfolding bloom_rep_def by blast
qed

theorem bloom_filter_exact_witness:
  "\<exists>st1 st2 rc st3. bloom_init ex_redis ex_redis_state = Some (0, st1) \<and> bloom_set_all ex_redis [[97], [98]] st1 = Some (0, st2) \<and>
    bloom_check ex_redis [98] 0 st2 = Some (rc, st3) \<and> (rc = 1 \<or> rc = - 1)"
proof -
  have code: "bloom_init ex_redis ex_redis_state = Some (rc, st') \<Longrightarrow> rc = 0" for rc st'
    by (auto simp: bloom_init_def bind_eq_Some_conv split: if_splits dest: ex_setbit_code ex_bitop_code)
  obtain rc st1 C where i: "bloom_init ex_redis ex_redis_state = Some (rc, st1)" "bloom_rep ex_redis fst snd (\<lambda>k. []) st1 C"
    "rc = 0 \<and> C = {} \<or> rc = - 1" by (rule bloom_init_run [OF ex_bloom_rep])
  obtain sa where a: "bloom_set ex_redis [97] st1 = Some (0, sa)" "bloom_rep ex_redis fst snd (\<lambda>k. []) sa (C \<union> bloom_bits [97])"
    by (rule ex_bloom_set [OF i(2)])
  obtain sb where b: "bloom_set ex_redis [98] sa = Some (0, sb)" by (rule ex_bloom_set [OF a(2)])
  have i0: "bloom_init ex_redis ex_redis_state = Some (0, st1)" using i(1) code by auto
  have s: "bloom_set_all ex_redis [[97], [98]] st1 = Some (0, sb)" using a(1) b by simp
  have "ctx ex_redis_state = LiveCtx" by (simp add: ex_redis_state_def)
  from bloom_filter_exact [OF ex_redis_spec this i0 s, of "[98]" 0] i0 s show ?thesis by auto
qed



text \<open>
  A command the server refuses with an error reply is not noticed: \<open>bloom_set\<close> reports success although
  no bit has been set.
\<close>

lemma refused_setbit_unnoticed:
  assumes "ctx st = LiveCtx" "\<And>args. cmd args (server st) = ((False, Some (REDIS_REPLY_ERROR e)), server st)"
  shows "bloom_set cmd str st = Some (0, st)"
proof -
  have "redis_string_setbit cmd BLOOM x 1 st = Some (0, st)" for x
    using assms by (simp add: redis_string_setbit_def redis_command_def)
  then have "set_seeds (\<lambda>x. redis_string_setbit cmd BLOOM x 1) str xs st = Some (0, st)" for xs
    by (induction xs) (simp_all add: hash_offset)
  then show ?thesis by (simp add: bloom_set_def)
qed

text \<open>A connection that could be allocated but not established is freed, and the global still points to it.\<close>

lemma failed_init_dangles: "snd (redis_init (Some True) st) = st\<lparr>ctx := FreedCtx\<rparr>" "redis_free (snd (redis_init (Some True) st)) = None"
  by (simp_all add: redis_init_def redis_free_def)

end
