(* ===== verification/Html_Parser.thy ===== *)
theory Html_Parser
  imports Redis Async_Dns
begin

text \<open>
  \<^verbatim>\<open>src/html_parser.c\<close>: what a crawled page is searched for. Gumbo, which parses the page, is the
  parameter \<open>gumbo_parse\<close>; its tree is a rose tree whose elements carry a tag and attributes of an
  abstract type, looked up by the parameter \<open>get_attr\<close>. Where the code follows \<open>parent\<close> pointers the
  model passes the elements above the node down, nearest first; the document node above the root is
  never looked at, because the elements on the way to it have other tags than the ones looked for.

  \<open>links_of\<close> and \<open>fields_of\<close> list what a page holds in document order; the searches are shown to be
  folds over these lists.
\<close>

section \<open>Pages\<close>

datatype gumbo_tag = GUMBO_TAG_A | GUMBO_TAG_B | GUMBO_TAG_P | GUMBO_TAG_EM | GUMBO_TAG_FONT | GUMBO_TAG_SPAN
  | GUMBO_TAG_H1 | GUMBO_TAG_DIV | GUMBO_TAG_OTHER

datatype 'n gumbo_node = Element gumbo_tag 'n "'n gumbo_node list" | TextNode bytes | OtherNode

type_synonym 'n get_attr = "'n \<Rightarrow> bytes \<Rightarrow> bytes option"

text \<open>\<open>strstr(s, t) != NULL\<close>\<close>

fun strstr :: "bytes \<Rightarrow> bytes \<Rightarrow> bool" where
  "strstr s t = (take (length t) s = t \<or> (case s of [] \<Rightarrow> False | _ # s' \<Rightarrow> strstr s' t))"

declare strstr.simps [simp del]

section \<open>Work lists\<close>

definition HASH_SEED :: u32 where "HASH_SEED = 8887"

definition fmt_d :: "u32 \<Rightarrow> bytes" where
  "fmt_d w = (if sint w < 0 then 45 # dec (nat (- sint w)) else dec (nat (sint w)))"

definition url_list :: "u32 \<Rightarrow> bytes" where
  "url_list n = cstr ''url_list_'' @ fmt_d n"

text \<open>The list a URL belongs to, by its hash modulo the number of work processes.\<close>

definition url_id :: "u32 \<Rightarrow> bytes \<Rightarrow> u32 option" where
  "url_id work_processes url =
     do { n \<leftarrow> MurmurHash3_x86_32 url (int (length url)) HASH_SEED;
          if work_processes = 0 then None else Some (n mod work_processes) }"

definition push_url :: "'r redis \<Rightarrow> u32 \<Rightarrow> bytes \<Rightarrow> 'r redis_state \<Rightarrow> (int \<times> 'r redis_state) option" where
  "push_url cmd work_processes url rs = do { n \<leftarrow> url_id work_processes url; redis_list_rpush cmd (url_list n) url rs }"

section \<open>Links\<close>

definition wanted_link :: "bytes \<Rightarrow> bool" where
  "wanted_link href \<longleftrightarrow> strstr href (cstr ''http://bbs.dgtle.com/thread-'') \<or>
     strstr href (cstr ''http://bbs.dgtle.com/forum.php?mod=forumdisplay&fid=2&page='')"

text \<open>
  What is done for the \<open>href\<close> of an anchor; the flag is False where the code returns. \<open>junk\<close> is the
  value left in the uninitialised \<open>value\<close> of \<open>bloom_check\<close>.
\<close>

definition visit_link :: "'r redis \<Rightarrow> u32 \<Rightarrow> u32 \<Rightarrow> bytes \<Rightarrow> 'r redis_state \<Rightarrow> (bool \<times> 'r redis_state) option" where
  "visit_link cmd work_processes junk href rs =
     (if \<not> wanted_link href then Some (True, rs)
      else if length href \<ge> 1024 then None
      else do { (seen, rs) \<leftarrow> bloom_check cmd href junk rs;
                if seen \<noteq> 0 then Some (True, rs)
                else do { (_, rs) \<leftarrow> bloom_set cmd href rs;
                          (rc, rs) \<leftarrow> push_url cmd work_processes href rs;
                          Some (rc \<ge> 0, rs) } })"

fun search_for_links :: "'n get_attr \<Rightarrow> 'r redis \<Rightarrow> u32 \<Rightarrow> u32 \<Rightarrow> 'n gumbo_node \<Rightarrow> 'r redis_state \<Rightarrow> 'r redis_state option"
  and search_links_in :: "'n get_attr \<Rightarrow> 'r redis \<Rightarrow> u32 \<Rightarrow> u32 \<Rightarrow> 'n gumbo_node list \<Rightarrow> 'r redis_state \<Rightarrow> 'r redis_state option" where
  "search_for_links get_attr cmd wp junk (Element tag attrs children) rs =
     do { (go, rs) \<leftarrow> (if tag = GUMBO_TAG_A
                      then (case get_attr attrs (cstr ''href'') of
                              None \<Rightarrow> Some (True, rs)
                            | Some href \<Rightarrow> visit_link cmd wp junk href rs)
                      else Some (True, rs));
          if go then search_links_in get_attr cmd wp junk children rs else Some rs }"
| "search_for_links get_attr cmd wp junk _ rs = Some rs"
| "search_links_in get_attr cmd wp junk [] rs = Some rs"
| "search_links_in get_attr cmd wp junk (n # ns) rs =
     do { rs \<leftarrow> search_for_links get_attr cmd wp junk n rs; search_links_in get_attr cmd wp junk ns rs }"

section \<open>Title, category, author and time\<close>

record page_info =
  pi_title :: bytes
  pi_category :: bytes
  pi_author :: bytes
  pi_timestamp :: bytes

text \<open>The attributes of the last element of a chain of parents with the given tags.\<close>

fun climb :: "gumbo_tag list \<Rightarrow> (gumbo_tag \<times> 'n) list \<Rightarrow> 'n option" where
  "climb [t] ((t', a) # ps) = (if t = t' then Some a else None)"
| "climb (t # ts) ((t', a) # ps) = (if t = t' then climb ts ps else None)"
| "climb _ _ = None"

definition placed_under :: "'n get_attr \<Rightarrow> gumbo_tag list \<Rightarrow> bytes \<Rightarrow> (gumbo_tag \<times> 'n) list \<Rightarrow> bool" where
  "placed_under get_attr tags cls parents = (case climb tags parents of None \<Rightarrow> False | Some a \<Rightarrow> get_attr a (cstr ''class'') = Some cls)"

text \<open>
  \<open>children.data[0]\<close> when it is a text; undefined for an element without children. The texts are
  copied into buffers of 1024 bytes.
\<close>

definition first_text :: "'n gumbo_node list \<Rightarrow> bytes option option" where
  "first_text children = (case children of [] \<Rightarrow> None | TextNode t # _ \<Rightarrow> Some (Some t) | _ # _ \<Rightarrow> Some None)"

definition copy_text :: "'n gumbo_node list \<Rightarrow> (bytes \<Rightarrow> bool) \<Rightarrow> (bytes \<Rightarrow> page_info \<Rightarrow> page_info) \<Rightarrow> page_info \<Rightarrow> page_info option" where
  "copy_text children ok upd info =
     do { t \<leftarrow> first_text children;
          case t of
            None \<Rightarrow> Some info
          | Some t \<Rightarrow> if \<not> ok t then Some info else if length t \<ge> 1024 then None else Some (upd t info) }"

definition visit_author :: "'n get_attr \<Rightarrow> (gumbo_tag \<times> 'n) list \<Rightarrow> gumbo_tag \<Rightarrow> 'n gumbo_node list \<Rightarrow> page_info \<Rightarrow> page_info option" where
  "visit_author get_attr parents tag children info =
     do { info \<leftarrow> (if tag = GUMBO_TAG_B \<and> placed_under get_attr [GUMBO_TAG_FONT, GUMBO_TAG_A, GUMBO_TAG_SPAN] (cstr ''cr_date'') parents
                  then copy_text children (\<lambda>_. True) (\<lambda>t. pi_category_update (\<lambda>_. t)) info else Some info);
          info \<leftarrow> (if tag = GUMBO_TAG_P \<and> placed_under get_attr [GUMBO_TAG_A, GUMBO_TAG_H1] (cstr ''cr_h1title'') parents
                  then copy_text children (\<lambda>_. True) (\<lambda>t. pi_title_update (\<lambda>_. t)) info else Some info);
          info \<leftarrow> (if tag = GUMBO_TAG_A \<and> placed_under get_attr [GUMBO_TAG_P, GUMBO_TAG_DIV] (cstr ''mporf'') parents
                  then copy_text children (\<lambda>_. True) (\<lambda>t. pi_author_update (\<lambda>_. t)) info else Some info);
          (if tag = GUMBO_TAG_EM \<and> placed_under get_attr [GUMBO_TAG_SPAN] (cstr ''cr_date'') parents
           then copy_text children (\<lambda>t. 58 \<in> set t) (\<lambda>t. pi_timestamp_update (\<lambda>_. t)) info else Some info) }"

fun search_for_author :: "'n get_attr \<Rightarrow> (gumbo_tag \<times> 'n) list \<Rightarrow> 'n gumbo_node \<Rightarrow> page_info \<Rightarrow> page_info option"
  and search_author_in :: "'n get_attr \<Rightarrow> (gumbo_tag \<times> 'n) list \<Rightarrow> 'n gumbo_node list \<Rightarrow> page_info \<Rightarrow> page_info option" where
  "search_for_author get_attr parents (Element tag attrs children) info =
     do { info \<leftarrow> visit_author get_attr parents tag children info;
          search_author_in get_attr ((tag, attrs) # parents) children info }"
| "search_for_author get_attr parents _ info = Some info"
| "search_author_in get_attr parents [] info = Some info"
| "search_author_in get_attr parents (n # ns) info =
     do { info \<leftarrow> search_for_author get_attr parents n info; search_author_in get_attr parents ns info }"

section \<open>The page handler\<close>

record ('k, 'r) crawl_state = "'k dns_state" +
  redis :: "'r redis_state"
  work_processes :: u32
  connection_threshold :: u32
  crawler_quit :: bool

text \<open>A buffer read as a C string: up to its first NUL, which must be in it.\<close>

definition c_string :: "bytes \<Rightarrow> bytes option" where
  "c_string d = (if 0 \<in> set d then Some (takeWhile (\<lambda>c. c \<noteq> 0) d) else None)"

definition no_info :: page_info where
  "no_info = \<lparr>pi_title = [], pi_category = [], pi_author = [], pi_timestamp = []\<rparr>"

definition page_url :: "http_url_s \<Rightarrow> bytes" where
  "page_url url = u_schema url @ cstr ''://'' @ u_host url @ u_path url"

definition search_page :: "'n get_attr \<Rightarrow> 'r redis \<Rightarrow> u32 \<Rightarrow> u32 \<Rightarrow> bytes \<Rightarrow> 'n gumbo_node \<Rightarrow> 'r redis_state \<Rightarrow> 'r redis_state option" where
  "search_page get_attr cmd wp junk path root rs =
     (if strstr path (cstr ''forum.php?mod=forumdisplay&fid=2'') then search_for_links get_attr cmd wp junk root rs
      else if strstr path (cstr ''thread-'') then do { _ \<leftarrow> search_for_author get_attr [] root no_info; Some rs }
      else Some rs)"

definition parse_html :: "'k epoll_ctl \<Rightarrow> (int \<Rightarrow> 'k \<Rightarrow> 'k) \<Rightarrow> (bytes \<Rightarrow> 'n gumbo_node option) \<Rightarrow> 'n get_attr \<Rightarrow> 'r redis \<Rightarrow> u32 \<Rightarrow> addr \<Rightarrow>
    ('k, 'r, 'a) crawl_state_scheme \<Rightarrow> (int \<times> ('k, 'r, 'a) crawl_state_scheme) option" where
  "parse_html ctl close gumbo_parse get_attr cmd junk client st =
     do { cl \<leftarrow> clients st client;
          if cl_status cl \<noteq> HTTP_HTML_DONE then do { st \<leftarrow> http_client_retrieve ctl close st client; Some (- 1, st) }
          else do {
            mc \<leftarrow> cl_html cl;
            html \<leftarrow> mc_html mc;
            text \<leftarrow> c_string (b_data html);
            case gumbo_parse text of
              None \<Rightarrow> do { st \<leftarrow> http_client_retrieve ctl close st client; Some (- 1, st) }
            | Some root \<Rightarrow>
                do { rs \<leftarrow> search_page get_attr cmd (work_processes st) junk (u_path (cl_url cl)) root (redis st);
                     st \<leftarrow> upd_client (st\<lparr>redis := rs\<rparr>) client (cl_status_update (\<lambda>_. HTTP_PARSE_DONE));
                     if length (page_url (cl_url cl)) \<ge> 1024 then None
                     else do {
                       (_, rs) \<leftarrow> redis_list_rpush cmd (cstr ''parse_done'') (page_url (cl_url cl)) (redis st);
                       st \<leftarrow> http_client_retrieve ctl close (st\<lparr>redis := rs\<rparr>) client;
                       Some (0, st) } } } }"

section \<open>What the searches find\<close>

text \<open>The \<open>href\<close>s of the anchors of a page, in document order.\<close>

fun links_of :: "'n get_attr \<Rightarrow> 'n gumbo_node \<Rightarrow> bytes list" where
  "links_of get_attr (Element tag attrs children) =
     (if tag = GUMBO_TAG_A then (case get_attr attrs (cstr ''href'') of None \<Rightarrow> [] | Some href \<Rightarrow> [href]) else []) @
     concat (map (links_of get_attr) children)"
| "links_of get_attr _ = []"

text \<open>The links that are new to a filter with the bits \<open>B\<close>, each once.\<close>

fun fresh_links :: "u32 set \<Rightarrow> bytes list \<Rightarrow> bytes list" where
  "fresh_links B [] = []"
| "fresh_links B (h # hs) =
     (if wanted_link h \<and> \<not> bloom_bits h \<subseteq> B then h # fresh_links (B \<union> bloom_bits h) hs else fresh_links B hs)"

definition shard :: "u32 \<Rightarrow> bytes \<Rightarrow> bytes" where
  "shard wp url = url_list (x86_32_ref HASH_SEED url mod wp)"

text \<open>The lists after pushing URLs, each to its own.\<close>

definition push_all :: "u32 \<Rightarrow> bytes list \<Rightarrow> (bytes \<Rightarrow> bytes list) \<Rightarrow> (bytes \<Rightarrow> bytes list)" where
  "push_all wp urls L = (\<lambda>k. L k @ filter (\<lambda>u. shard wp u = k) urls)"

definition bits_union :: "bytes list \<Rightarrow> u32 set" where
  "bits_union urls = (\<Union>u\<in>set urls. bloom_bits u)"

lemma push_all_simps [simp]: "push_all wp [] L = L" "push_all wp ys (push_all wp xs L) = push_all wp (xs @ ys) L"
  by (simp_all add: push_all_def)

lemma push_all_one: "push_all wp [u] L = L(shard wp u := L (shard wp u) @ [u])"
  by (auto simp: push_all_def)

lemma bits_union_simps [simp]: "bits_union [] = {}" "bits_union [u] = bloom_bits u" "bits_union (xs @ ys) = bits_union xs \<union> bits_union ys"
  "bits_union (u # xs) = bloom_bits u \<union> bits_union xs"
  by (auto simp: bits_union_def)

lemma fresh_links_append: "fresh_links B (xs @ ys) = fresh_links B xs @ fresh_links (B \<union> bits_union (fresh_links B xs)) ys"
  by (induction xs arbitrary: B) (auto simp: Un_assoc)

lemma fresh_links_new:
  "set (fresh_links B hs) \<subseteq> {h \<in> set hs. wanted_link h \<and> \<not> bloom_bits h \<subseteq> B}" "distinct (fresh_links B hs)"
proof (induction hs arbitrary: B)
  case (Cons h hs)
  { case 1 show ?case using Cons(1) [of B] Cons(1) [of "B \<union> bloom_bits h"] by auto }
  { case 2 show ?case using Cons(2) [of B] Cons(2) [of "B \<union> bloom_bits h"] Cons(1) [of "B \<union> bloom_bits h"] by auto }
qed simp_all

text \<open>Every wanted link is in the filter in the end.\<close>

lemma fresh_links_covers: "h \<in> set hs \<Longrightarrow> wanted_link h \<Longrightarrow> bloom_bits h \<subseteq> B \<union> bits_union (fresh_links B hs)"
proof (induction hs arbitrary: B)
  case (Cons a hs)
  show ?case
  proof (cases "wanted_link a \<and> \<not> bloom_bits a \<subseteq> B")
    case True
    have "h \<in> set hs \<Longrightarrow> bloom_bits h \<subseteq> (B \<union> bloom_bits a) \<union> bits_union (fresh_links (B \<union> bloom_bits a) hs)"
      using Cons.IH Cons.prems(2) by blast
    then show ?thesis using True Cons.prems(1) by auto
  next
    case False
    have f: "fresh_links B (a # hs) = fresh_links B hs" by (simp only: fresh_links.simps False if_False)
    show ?thesis unfolding f using Cons False by (cases "h = a") auto
  qed
qed simp

lemma url_id_Some: "wp \<noteq> 0 \<Longrightarrow> url_id wp url = Some (x86_32_ref HASH_SEED url mod wp)"
  using hash_offset [of url HASH_SEED] by (simp add: url_id_def offset_def)

lemma push_url_run:
  assumes r: "bloom_rep cmd lists_of bits_of L rs B" and wp: "wp \<noteq> 0"
  obtains rc rs' new where "push_url cmd wp url rs = Some (rc, rs')" "bloom_rep cmd lists_of bits_of (push_all wp new L) rs' B"
    "new = [] \<or> new = [url]" "rc = 0 \<and> new = [url] \<or> rc = - 1" "reliable cmd \<longrightarrow> rc = 0"
proof -
  have c: "redis_spec cmd lists_of bits_of" "ctx rs = LiveCtx" "lists_of (server rs) = L" "bits_of (server rs) BLOOM = B"
    using r by (simp_all add: bloom_rep_def)
  obtain rc s' where p: "redis_list_rpush cmd (shard wp url) url rs = Some (rc, rs\<lparr>server := s'\<rparr>)" "bits_of s' = bits_of (server rs)"
    "rc = 0 \<and> lists_of s' = push_all wp [url] L \<or> rc = - 1 \<and> (lists_of s' = L \<or> lists_of s' = push_all wp [url] L)"
    "reliable cmd \<longrightarrow> rc = 0"
    unfolding push_all_one c(3) [symmetric] by (rule rpush_run [OF c(1,2)]) blast
  have u: "push_url cmd wp url rs = Some (rc, rs\<lparr>server := s'\<rparr>)"
    using p(1) by (simp add: push_url_def url_id_Some [OF wp] shard_def)
  define new where "new = (if lists_of s' = L then [] else [url])"
  show thesis
  proof (cases "rc = 0")
    case True
    then have "lists_of s' = push_all wp [url] L" using p(3) by simp
    then have "bloom_rep cmd lists_of bits_of (push_all wp [url] L) (rs\<lparr>server := s'\<rparr>) B" using c p(2) by (simp add: bloom_rep_def)
    from that [OF u this] show thesis using True by simp
  next
    case False
    then have "rc = - 1" "lists_of s' = push_all wp new L" "new = [] \<or> new = [url]" using p(3) by (auto simp: new_def)
    moreover from this(2) have "bloom_rep cmd lists_of bits_of (push_all wp new L) (rs\<lparr>server := s'\<rparr>) B" using c p(2) by (simp add: bloom_rep_def)
    ultimately show thesis using that [OF u] p(4) by simp
  qed
qed

text \<open>
  What a visit of some links does: URLs are pushed that are wanted links among them; from a reliable
  server exactly the fresh ones, whose bits are then in the filter.
\<close>

definition visited :: "'r redis \<Rightarrow> ('r \<Rightarrow> bytes \<Rightarrow> bytes list) \<Rightarrow> ('r \<Rightarrow> bytes \<Rightarrow> u32 set) \<Rightarrow> u32 \<Rightarrow> bytes list \<Rightarrow>
    (bytes \<Rightarrow> bytes list) \<Rightarrow> u32 set \<Rightarrow> bool \<Rightarrow> 'r redis_state \<Rightarrow> bool" where
  "visited cmd lists_of bits_of wp hs L B go rs' \<longleftrightarrow> (\<exists>new B'. bloom_rep cmd lists_of bits_of (push_all wp new L) rs' B' \<and> B \<subseteq> B' \<and>
     set new \<subseteq> {h \<in> set hs. wanted_link h} \<and> (reliable cmd \<longrightarrow> go \<and> new = fresh_links B hs \<and> B' = B \<union> bits_union new))"

lemma visit_link_run:
  assumes r: "bloom_rep cmd lists_of bits_of L rs B" and wp: "wp \<noteq> 0" and h: "wanted_link h \<Longrightarrow> length h < 1024"
  shows "\<exists>go rs'. visit_link cmd wp junk h rs = Some (go, rs') \<and> visited cmd lists_of bits_of wp [h] L B go rs'"
proof (cases "wanted_link h")
  case False
  then have "visit_link cmd wp junk h rs = Some (True, rs)" by (simp add: visit_link_def)
  moreover have "visited cmd lists_of bits_of wp [h] L B True rs"
    unfolding visited_def using r False by (intro exI [of _ "[]"] exI [of _ B]) simp
  ultimately show ?thesis by blast
next
  case True
  obtain seen rs1 where c: "bloom_check cmd h junk rs = Some (seen, rs1)" "bloom_rep cmd lists_of bits_of L rs1 B"
    "reliable cmd \<longrightarrow> seen \<noteq> - 1" "seen = - 1 \<or> seen = of_bool (bloom_bits h \<subseteq> B)" by (rule bloom_check_run [OF r])
  show ?thesis
  proof (cases "seen = 0")
    case False
    then have "visit_link cmd wp junk h rs = Some (True, rs1)" using True h c(1) by (simp add: visit_link_def)
    moreover have "reliable cmd \<longrightarrow> bloom_bits h \<subseteq> B" using c(3,4) False by auto
    then have "visited cmd lists_of bits_of wp [h] L B True rs1"
      unfolding visited_def using c(2) by (intro exI [of _ "[]"] exI [of _ B]) simp
    ultimately show ?thesis by blast
  next
    case new: True
    obtain rc rs2 C where s: "bloom_set cmd h rs1 = Some (rc, rs2)" "bloom_rep cmd lists_of bits_of L rs2 C" "B \<subseteq> C"
      "reliable cmd \<longrightarrow> rc = 0" "rc = 0 \<and> C = B \<union> bloom_bits h \<or> rc = - 1" by (rule bloom_set_run [OF c(2)])
    obtain rc' rs3 us where p: "push_url cmd wp h rs2 = Some (rc', rs3)" "bloom_rep cmd lists_of bits_of (push_all wp us L) rs3 C"
      "us = [] \<or> us = [h]" "rc' = 0 \<and> us = [h] \<or> rc' = - 1" "reliable cmd \<longrightarrow> rc' = 0" by (rule push_url_run [OF s(2) wp])
    have "visit_link cmd wp junk h rs = Some (rc' \<ge> 0, rs3)" using True h c(1) new s(1) p(1) by (simp add: visit_link_def)
    moreover have "\<not> bloom_bits h \<subseteq> B" using c(4) new by (auto split: if_splits)
    then have "visited cmd lists_of bits_of wp [h] L B (rc' \<ge> 0) rs3"
      unfolding visited_def
    proof (intro exI [of _ us] exI [of _ C] conjI impI)
      show "bloom_rep cmd lists_of bits_of (push_all wp us L) rs3 C" by (rule p(2))
      show "B \<subseteq> C" by (rule s(3))
      show "set us \<subseteq> {h' \<in> set [h]. wanted_link h'}" using p(3) True by auto
      assume "reliable cmd"
      then have "rc' = 0" "us = [h]" "C = B \<union> bloom_bits h" using p(4,5) s(4,5) by simp_all
      then show "rc' \<ge> 0" "us = fresh_links B [h]" "C = B \<union> bits_union us" using True \<open>\<not> bloom_bits h \<subseteq> B\<close> by simp_all
    qed
    ultimately show ?thesis by blast
  qed
qed

lemma visited_append:
  assumes "visited cmd lists_of bits_of wp hs L B go rs1"
    and "\<And>L B. bloom_rep cmd lists_of bits_of L rs1 B \<Longrightarrow> visited cmd lists_of bits_of wp hs' L B go' rs2"
    and "reliable cmd \<Longrightarrow> go''"
  shows "visited cmd lists_of bits_of wp (hs @ hs') L B go'' rs2"
proof -
  obtain new B1 where v: "bloom_rep cmd lists_of bits_of (push_all wp new L) rs1 B1" "B \<subseteq> B1" "set new \<subseteq> {h \<in> set hs. wanted_link h}"
    "reliable cmd \<longrightarrow> go \<and> new = fresh_links B hs \<and> B1 = B \<union> bits_union new" using assms(1) by (auto simp: visited_def)
  obtain new' B2 where w: "bloom_rep cmd lists_of bits_of (push_all wp new' (push_all wp new L)) rs2 B2" "B1 \<subseteq> B2"
    "set new' \<subseteq> {h \<in> set hs'. wanted_link h}" "reliable cmd \<longrightarrow> go' \<and> new' = fresh_links B1 hs' \<and> B2 = B1 \<union> bits_union new'"
    using assms(2) [OF v(1)] by (auto simp: visited_def)
  show ?thesis unfolding visited_def
    by (intro exI [of _ "new @ new'"] exI [of _ B2]) (use v w assms(3) in \<open>auto simp: fresh_links_append\<close>)
qed

text \<open>The whole search, by induction on the page.\<close>

definition searches :: "'n get_attr \<Rightarrow> 'r redis \<Rightarrow> ('r \<Rightarrow> bytes \<Rightarrow> bytes list) \<Rightarrow> ('r \<Rightarrow> bytes \<Rightarrow> u32 set) \<Rightarrow> u32 \<Rightarrow> u32 \<Rightarrow>
    bytes list \<Rightarrow> ('r redis_state \<Rightarrow> 'r redis_state option) \<Rightarrow> bool" where
  "searches get_attr cmd lists_of bits_of wp junk hs f \<longleftrightarrow> (\<forall>L B rs. bloom_rep cmd lists_of bits_of L rs B \<longrightarrow>
     (\<forall>h\<in>set hs. wanted_link h \<longrightarrow> length h < 1024) \<longrightarrow>
     (\<exists>rs'. f rs = Some rs' \<and> visited cmd lists_of bits_of wp hs L B True rs'))"

lemma visited_rep:
  "visited cmd lists_of bits_of wp hs L B go rs \<Longrightarrow> \<exists>L' B'. bloom_rep cmd lists_of bits_of L' rs B'"
  unfolding visited_def by blast

lemma visited_nil: "bloom_rep cmd lists_of bits_of L rs B \<Longrightarrow> visited cmd lists_of bits_of wp [] L B True rs"
  unfolding visited_def by (intro exI [of _ "[]"] exI [of _ B]) simp

lemma search_links_in_run:
  assumes "\<And>n. n \<in> set ns \<Longrightarrow> searches get_attr cmd lists_of bits_of wp junk (links_of get_attr n) (search_for_links get_attr cmd wp junk n)"
  shows "searches get_attr cmd lists_of bits_of wp junk (concat (map (links_of get_attr) ns)) (search_links_in get_attr cmd wp junk ns)"
  using assms
proof (induction ns)
  case Nil
  then show ?case using visited_nil by (auto simp: searches_def)
next
  case (Cons n ns)
  have n: "searches get_attr cmd lists_of bits_of wp junk (links_of get_attr n) (search_for_links get_attr cmd wp junk n)"
    using Cons.prems by simp
  have ns: "searches get_attr cmd lists_of bits_of wp junk (concat (map (links_of get_attr) ns)) (search_links_in get_attr cmd wp junk ns)"
    using Cons by simp
  show ?case unfolding searches_def
  proof (intro allI impI)
    fix L B rs
    assume r: "bloom_rep cmd lists_of bits_of L rs B"
      and l: "\<forall>h\<in>set (concat (map (links_of get_attr) (n # ns))). wanted_link h \<longrightarrow> length h < 1024"
    have l1: "\<forall>h\<in>set (links_of get_attr n). wanted_link h \<longrightarrow> length h < 1024"
      "\<forall>h\<in>set (concat (map (links_of get_attr) ns)). wanted_link h \<longrightarrow> length h < 1024" using l by simp_all
    obtain rs1 where a: "search_for_links get_attr cmd wp junk n rs = Some rs1" "visited cmd lists_of bits_of wp (links_of get_attr n) L B True rs1"
      using n r l1(1) unfolding searches_def by blast
    obtain L1 B1 where r1: "bloom_rep cmd lists_of bits_of L1 rs1 B1" using visited_rep [OF a(2)] by blast
    obtain rs2 where b: "search_links_in get_attr cmd wp junk ns rs1 = Some rs2" using ns r1 l1(2) unfolding searches_def by blast
    have "visited cmd lists_of bits_of wp (links_of get_attr n @ concat (map (links_of get_attr) ns)) L B True rs2"
    proof (rule visited_append [OF a(2)])
      fix L' B' assume "bloom_rep cmd lists_of bits_of L' rs1 B'"
      then show "visited cmd lists_of bits_of wp (concat (map (links_of get_attr) ns)) L' B' True rs2"
        using ns l1(2) b unfolding searches_def by (metis option.inject)
    qed simp
    then show "\<exists>rs'. search_links_in get_attr cmd wp junk (n # ns) rs = Some rs' \<and>
        visited cmd lists_of bits_of wp (concat (map (links_of get_attr) (n # ns))) L B True rs'" using a(1) b by simp
  qed
qed

lemma visited_stop:
  assumes "visited cmd lists_of bits_of wp hs L B False rs"
  shows "visited cmd lists_of bits_of wp (hs @ hs') L B True rs"
proof -
  obtain new B' where "bloom_rep cmd lists_of bits_of (push_all wp new L) rs B'" "B \<subseteq> B'" "set new \<subseteq> {h \<in> set hs. wanted_link h}"
    "\<not> reliable cmd" using assms unfolding visited_def by blast
  then show ?thesis unfolding visited_def by (intro exI [of _ new] exI [of _ B']) auto
qed

lemma search_for_links_run:
  assumes wp: "wp \<noteq> 0"
  shows "searches get_attr cmd lists_of bits_of wp junk (links_of get_attr n) (search_for_links get_attr cmd wp junk n)"
proof (induction n)
  case (Element tag attrs children)
  note ns = search_links_in_run [OF Element]
  define here where "here = (if tag = GUMBO_TAG_A then (case get_attr attrs (cstr ''href'') of None \<Rightarrow> [] | Some href \<Rightarrow> [href]) else [])"
  let ?below = "concat (map (links_of get_attr) children)"
  have hs: "links_of get_attr (Element tag attrs children) = here @ ?below" by (simp add: here_def)
  show ?case unfolding searches_def hs
  proof (intro allI impI)
    fix L B rs
    assume r: "bloom_rep cmd lists_of bits_of L rs B" and l: "\<forall>h\<in>set (here @ ?below). wanted_link h \<longrightarrow> length h < 1024"
    obtain go rs1 where v: "(if tag = GUMBO_TAG_A
        then (case get_attr attrs (cstr ''href'') of None \<Rightarrow> Some (True, rs) | Some href \<Rightarrow> visit_link cmd wp junk href rs)
        else Some (True, rs)) = Some (go, rs1)" "visited cmd lists_of bits_of wp here L B go rs1"
    proof (cases "here = []")
      case True
      then have "visited cmd lists_of bits_of wp here L B True rs" using visited_nil [OF r] by simp
      then show thesis using that [of True rs] True by (auto simp: here_def split: if_splits option.splits)
    next
      case False
      then obtain h where h: "tag = GUMBO_TAG_A" "get_attr attrs (cstr ''href'') = Some h" "here = [h]"
        by (auto simp: here_def split: if_splits option.splits)
      then have "wanted_link h \<Longrightarrow> length h < 1024" using l by simp
      from visit_link_run [OF r wp this] show thesis using that h by auto
    qed
    show "\<exists>rs'. search_for_links get_attr cmd wp junk (Element tag attrs children) rs = Some rs' \<and>
        visited cmd lists_of bits_of wp (here @ ?below) L B True rs'"
    proof (cases go)
      case False
      then show ?thesis using v visited_stop [of cmd lists_of bits_of wp here L B rs1 ?below] by simp
    next
      case True
      obtain L1 B1 where r1: "bloom_rep cmd lists_of bits_of L1 rs1 B1" using visited_rep [OF v(2)] by blast
      have l2: "\<forall>h\<in>set ?below. wanted_link h \<longrightarrow> length h < 1024" using l by simp
      obtain rs2 where b: "search_links_in get_attr cmd wp junk children rs1 = Some rs2" using ns r1 l2 unfolding searches_def by blast
      have "visited cmd lists_of bits_of wp (here @ ?below) L B True rs2"
      proof (rule visited_append [OF v(2)])
        fix L' B' assume "bloom_rep cmd lists_of bits_of L' rs1 B'"
        then show "visited cmd lists_of bits_of wp ?below L' B' True rs2"
          using ns l2 b unfolding searches_def by (metis option.inject)
      qed simp
      then show ?thesis using v(1) True b by simp
    qed
  qed
qed (use visited_nil in \<open>auto simp: searches_def\<close>)

section \<open>The fields of a thread page\<close>

datatype page_field = Title | Category | Author | Timestamp

definition field_of :: "'n get_attr \<Rightarrow> (gumbo_tag \<times> 'n) list \<Rightarrow> gumbo_tag \<Rightarrow> page_field option" where
  "field_of get_attr parents tag =
     (if tag = GUMBO_TAG_B \<and> placed_under get_attr [GUMBO_TAG_FONT, GUMBO_TAG_A, GUMBO_TAG_SPAN] (cstr ''cr_date'') parents then Some Category
      else if tag = GUMBO_TAG_P \<and> placed_under get_attr [GUMBO_TAG_A, GUMBO_TAG_H1] (cstr ''cr_h1title'') parents then Some Title
      else if tag = GUMBO_TAG_A \<and> placed_under get_attr [GUMBO_TAG_P, GUMBO_TAG_DIV] (cstr ''mporf'') parents then Some Author
      else if tag = GUMBO_TAG_EM \<and> placed_under get_attr [GUMBO_TAG_SPAN] (cstr ''cr_date'') parents then Some Timestamp
      else None)"

text \<open>The elements of a page that are fields, with their children, in document order.\<close>

fun fields_of :: "'n get_attr \<Rightarrow> (gumbo_tag \<times> 'n) list \<Rightarrow> 'n gumbo_node \<Rightarrow> (page_field \<times> 'n gumbo_node list) list" where
  "fields_of get_attr parents (Element tag attrs children) =
     (case field_of get_attr parents tag of None \<Rightarrow> [] | Some f \<Rightarrow> [(f, children)]) @
     concat (map (fields_of get_attr ((tag, attrs) # parents)) children)"
| "fields_of get_attr parents _ = []"

text \<open>The texts of a kind of field; a time stamp must contain a colon.\<close>

fun text_in :: "page_field \<times> 'n gumbo_node list \<Rightarrow> (page_field \<times> bytes) list" where
  "text_in (f, TextNode t # ns) = (if f = Timestamp \<and> 58 \<notin> set t then [] else [(f, t)])"
| "text_in _ = []"

definition texts_of :: "page_field \<Rightarrow> (page_field \<times> 'n gumbo_node list) list \<Rightarrow> bytes list" where
  "texts_of f fs = map snd (filter (\<lambda>x. fst x = f) (concat (map text_in fs)))"

fun get_field :: "page_field \<Rightarrow> page_info \<Rightarrow> bytes" where
  "get_field Title info = pi_title info"
| "get_field Category info = pi_category info"
| "get_field Author info = pi_author info"
| "get_field Timestamp info = pi_timestamp info"

fun set_field :: "page_field \<Rightarrow> bytes \<Rightarrow> page_info \<Rightarrow> page_info" where
  "set_field Title t = pi_title_update (\<lambda>_. t)"
| "set_field Category t = pi_category_update (\<lambda>_. t)"
| "set_field Author t = pi_author_update (\<lambda>_. t)"
| "set_field Timestamp t = pi_timestamp_update (\<lambda>_. t)"

lemma get_set_field: "get_field f (set_field g t info) = (if f = g then t else get_field f info)"
  by (cases f; cases g) simp_all

lemma set_field_fun:
  "set_field Title = (\<lambda>t. pi_title_update (\<lambda>_. t))" "set_field Category = (\<lambda>t. pi_category_update (\<lambda>_. t))"
  "set_field Author = (\<lambda>t. pi_author_update (\<lambda>_. t))" "set_field Timestamp = (\<lambda>t. pi_timestamp_update (\<lambda>_. t))"
  by (rule ext; simp)+

definition put_field :: "page_info \<Rightarrow> page_field \<times> bytes \<Rightarrow> page_info" where
  "put_field info x = set_field (fst x) (snd x) info"

lemma put_fields:
  "get_field f (foldl put_field info xs) = last (get_field f info # map snd (filter (\<lambda>x. fst x = f) xs))"
  by (induction xs arbitrary: info) (auto simp: put_field_def get_set_field)

text \<open>Fields the code can copy: they have a child, and a text that fits.\<close>

definition copyable :: "page_field \<times> 'n gumbo_node list \<Rightarrow> bool" where
  "copyable x \<longleftrightarrow> snd x \<noteq> [] \<and> (\<forall>(f, t)\<in>set (text_in x). length t < 1024)"

lemma visit_author_field:
  assumes "\<forall>f. field_of get_attr parents tag = Some f \<longrightarrow> copyable (f, children)"
  shows "visit_author get_attr parents tag children info =
    Some (case field_of get_attr parents tag of None \<Rightarrow> info | Some f \<Rightarrow> foldl put_field info (text_in (f, children)))"
proof (cases "field_of get_attr parents tag")
  case None
  then show ?thesis by (auto simp: field_of_def visit_author_def split: if_splits)
next
  case (Some f)
  then have c: "copyable (f, children)" using assms by simp
  then obtain n ns where n: "children = n # ns" by (cases children) (auto simp: copyable_def)
  have "visit_author get_attr parents tag children info =
      copy_text children (\<lambda>t. f = Timestamp \<longrightarrow> 58 \<in> set t) (set_field f) info"
    using Some by (auto simp: field_of_def visit_author_def set_field_fun split: if_splits)
  also have "\<dots> = Some (foldl put_field info (text_in (f, children)))"
    using c by (cases n) (auto simp: n copy_text_def first_text_def copyable_def put_field_def)
  finally show ?thesis using Some by simp
qed

lemma search_author_in_run:
  assumes "\<And>n info. n \<in> set ns \<Longrightarrow> search_for_author get_attr parents n info =
      Some (foldl put_field info (concat (map text_in (fields_of get_attr parents n))))"
  shows "search_author_in get_attr parents ns info =
      Some (foldl put_field info (concat (map text_in (concat (map (fields_of get_attr parents) ns)))))"
  using assms by (induction ns arbitrary: info) simp_all

lemma search_for_author_run:
  "\<forall>x\<in>set (fields_of get_attr parents n). copyable x \<Longrightarrow>
    search_for_author get_attr parents n info = Some (foldl put_field info (concat (map text_in (fields_of get_attr parents n))))"
proof (induction n arbitrary: parents info)
  case (Element tag attrs children)
  let ?ps = "(tag, attrs) # parents"
  have "search_for_author get_attr ?ps n info = Some (foldl put_field info (concat (map text_in (fields_of get_attr ?ps n))))"
    if n: "n \<in> set children" for n info
    using Element.IH [OF n, of ?ps] Element.prems n by auto
  from search_author_in_run [of children get_attr ?ps, OF this]
  have below: "search_author_in get_attr ?ps children info =
      Some (foldl put_field info (concat (map text_in (concat (map (fields_of get_attr ?ps) children)))))" for info .
  have "\<forall>f. field_of get_attr parents tag = Some f \<longrightarrow> copyable (f, children)" using Element.prems by auto
  from visit_author_field [OF this] show ?case
    by (cases "field_of get_attr parents tag") (simp_all add: below)
qed simp_all

section \<open>The end of a client\<close>

text \<open>Releasing a client touches nothing of the state beyond the clients and their connections.\<close>

lemma io_close_more:
  fixes st :: "('k, 'a) http_state_scheme"
  assumes "io_close ctl close st c = Some st'"
  shows "http_state.more st' = http_state.more st \<and> clients st' = clients st"
proof -
  obtain st1 k where c: "close_connection ctl close st (kern st) c = Some (st1, k)" "st' = st1\<lparr>kern := k\<rparr>"
    using assms by (auto simp: io_close_def bind_eq_Some_conv)
  have "conn_state.more st1 = conn_state.more st" by (rule close_connection_more [OF c(1)])
  then show ?thesis using c(2) by (cases st; cases st1) simp
qed

lemma retrieve_more:
  fixes st :: "('k, 'a) http_state_scheme"
  assumes "http_client_retrieve ctl close st a = Some st'"
  shows "http_state.more st' = http_state.more st"
  using assms
  by (auto simp: http_client_retrieve_def bind_eq_Some_conv upd_conn_def split: if_splits option.splits dest!: io_close_more)

lemma parse_html_run:
  fixes st :: "('k, 'r, 'a) crawl_state_scheme"
  assumes pool: "pool_inv b (st, kern st) free" and cl: "clients st a = Some cl" "cl_connection cl = c" "c \<noteq> 0"
    and c: "conns st c = Some conn" "c \<notin> set free" "c_ssl conn \<noteq> 0 \<longrightarrow> ssls st (c_ssl conn) \<noteq> None"
    and page: "cl_status cl = HTTP_HTML_DONE" "cl_html cl = Some mc" "mc_html mc = Some html" "c_string (b_data html) = Some text"
      "gumbo_parse text = Some root" "length (page_url (cl_url cl)) < 1024"
    and listing: "strstr (u_path (cl_url cl)) (cstr ''forum.php?mod=forumdisplay&fid=2'')"
    and links: "\<forall>h\<in>set (links_of get_attr root). wanted_link h \<longrightarrow> length h < 1024"
    and rs: "bloom_rep cmd lists_of bits_of L (redis st) B" "reliable cmd" "work_processes st \<noteq> 0"
  shows "\<exists>st'. parse_html ctl close gumbo_parse get_attr cmd junk a st = Some (0, st') \<and>
    pool_inv b (st', kern st') (c # free) \<and> clients st' = (clients st)(a := None) \<and>
    (let new = fresh_links B (links_of get_attr root); L' = push_all (work_processes st) new L; d = cstr ''parse_done'' in
     bloom_rep cmd lists_of bits_of (L'(d := L' d @ [page_url (cl_url cl)])) (redis st') (B \<union> bits_union new))"
proof -
  let ?new = "fresh_links B (links_of get_attr root)" and ?d = "cstr ''parse_done''"
  let ?L = "push_all (work_processes st) ?new L" and ?B = "B \<union> bits_union ?new"
  obtain rs1 where s: "search_for_links get_attr cmd (work_processes st) junk root (redis st) = Some rs1"
    "visited cmd lists_of bits_of (work_processes st) (links_of get_attr root) L B True rs1"
    using search_for_links_run [OF rs(3), of get_attr cmd lists_of bits_of junk root] rs(1) links unfolding searches_def by blast
  then have r1: "bloom_rep cmd lists_of bits_of ?L rs1 ?B" using rs(2) unfolding visited_def by blast
  then have i1: "redis_spec cmd lists_of bits_of" "ctx rs1 = LiveCtx" "lists_of (server rs1) = ?L" "bits_of (server rs1) BLOOM = ?B"
    by (simp_all add: bloom_rep_def)
  obtain rc s' where p: "redis_list_rpush cmd ?d (page_url (cl_url cl)) rs1 = Some (rc, rs1\<lparr>server := s'\<rparr>)" "bits_of s' = bits_of (server rs1)"
    "rc = 0 \<and> lists_of s' = ?L(?d := ?L ?d @ [page_url (cl_url cl)]) \<or> rc = - 1 \<and> (lists_of s' = ?L \<or> lists_of s' = ?L(?d := ?L ?d @ [page_url (cl_url cl)]))"
    "reliable cmd \<longrightarrow> rc = 0"
    unfolding i1(3) [symmetric] by (rule rpush_run [OF i1(1,2)]) blast
  let ?rs = "rs1\<lparr>server := s'\<rparr>"
  have r2: "bloom_rep cmd lists_of bits_of (?L(?d := ?L ?d @ [page_url (cl_url cl)])) ?rs ?B"
    using p(2,3,4) rs(2) i1 by (simp add: bloom_rep_def)
  let ?cl = "cl\<lparr>cl_status := HTTP_PARSE_DONE\<rparr>"
  let ?st = "st\<lparr>clients := (clients st)(a \<mapsto> ?cl), redis := ?rs\<rparr>"
  have "pool_inv b (?st, kern ?st) free" by (rule pool_inv_cong [OF pool]) simp_all
  moreover have "clients ?st a = Some ?cl" "cl_connection ?cl = c" "conns ?st c = Some conn"
    "c_ssl conn \<noteq> 0 \<longrightarrow> ssls ?st (c_ssl conn) \<noteq> None" using cl c by simp_all
  ultimately obtain st' where ret: "http_client_retrieve ctl close ?st a = Some st'" "pool_inv b (st', kern st') (c # free)"
    "clients st' = (clients ?st)(a := None)" using retrieve_ok [of b ?st free a ?cl c conn ctl close] cl(3) c(2) by blast
  have "http_state.more st' = http_state.more ?st" by (rule retrieve_more [OF ret(1)])
  then have "redis st' = ?rs" by (cases st; cases st') simp
  moreover have "parse_html ctl close gumbo_parse get_attr cmd junk a st = Some (0, st')"
    using cl(1) page listing s(1) p(1) ret(1) by (simp add: parse_html_def search_page_def upd_client_def)
  ultimately show ?thesis using ret(2,3) r2 by (intro exI [of _ st']) (simp add: Let_def)
qed

section \<open>Any server\<close>

text \<open>
  What every server behind hiredis does: unless the context reports an error there is a reply. It may be
  of any type.
\<close>

definition replies :: "'r redis \<Rightarrow> bool" where
  "replies cmd \<longleftrightarrow> (\<forall>args s r s'. cmd args s = ((False, r), s') \<longrightarrow> r \<noteq> None)"

lemma command_total:
  assumes "replies cmd" "ctx rs = LiveCtx"
  obtains err r rs' where "redis_command cmd args rs = Some (err, r, rs')" "ctx rs' = LiveCtx" "\<not> err \<longrightarrow> r \<noteq> None"
proof -
  obtain err r s' where c: "cmd args (server rs) = ((err, r), s')" by (metis surj_pair)
  have "\<not> err \<longrightarrow> r \<noteq> None"
  proof
    assume "\<not> err"
    then have "cmd args (server rs) = ((False, r), s')" using c by simp
    then show "r \<noteq> None" using assms(1) unfolding replies_def by blast
  qed
  then show thesis using that [of err r "rs\<lparr>server := s'\<rparr>"] c assms(2) by (simp add: redis_command_def)
qed

lemma rpush_total:
  assumes "replies cmd" "ctx rs = LiveCtx"
  obtains rc rs' where "redis_list_rpush cmd k v rs = Some (rc, rs')" "ctx rs' = LiveCtx"
  by (rule command_total [OF assms, of "[cstr ''rpush'', k, v]"]) (auto simp: redis_list_rpush_def)

lemma setbit_total:
  assumes "replies cmd" "ctx rs = LiveCtx"
  obtains rc rs' where "redis_string_setbit cmd k x v rs = Some (rc, rs')" "ctx rs' = LiveCtx"
  by (rule command_total [OF assms, of "[cstr ''SETBIT'', k, dec (unat x), dec (if v \<noteq> 0 then 1 else 0)]"])
    (auto simp: redis_string_setbit_def)

lemma getbit_total:
  assumes "replies cmd" "ctx rs = LiveCtx"
  obtains rc v' rs' where "redis_string_getbit cmd k x v rs = Some (rc, v', rs')" "ctx rs' = LiveCtx"
proof -
  obtain err r rs' where c: "redis_command cmd [cstr ''GETBIT'', k, dec (unat x)] rs = Some (err, r, rs')" "ctx rs' = LiveCtx"
    "\<not> err \<longrightarrow> r \<noteq> None" by (rule command_total [OF assms])
  then have "\<exists>rc v'. redis_string_getbit cmd k x v rs = Some (rc, v', rs')"
    by (cases err; cases r) (auto simp: redis_string_getbit_def split: redis_reply.split)
  then show thesis using that c(2) by blast
qed

lemma set_seeds_total:
  assumes "replies cmd"
  shows "ctx rs = LiveCtx \<Longrightarrow> \<exists>rc rs'. set_seeds (\<lambda>off. redis_string_setbit cmd k off 1) str xs rs = Some (rc, rs') \<and> ctx rs' = LiveCtx"
proof (induction xs arbitrary: rs)
  case (Cons x xs)
  obtain rc rs1 where "redis_string_setbit cmd k (offset str x) 1 rs = Some (rc, rs1)" "ctx rs1 = LiveCtx" by (rule setbit_total [OF assms Cons.prems])
  then show ?case using Cons.IH [of rs1] by (simp add: hash_offset)
qed simp

lemma check_seeds_total:
  assumes "replies cmd"
  shows "ctx rs = LiveCtx \<Longrightarrow> \<exists>rc rs'. check_seeds (redis_string_getbit cmd k) str xs v rs = Some (rc, rs') \<and> ctx rs' = LiveCtx"
proof (induction xs arbitrary: rs v)
  case (Cons x xs)
  obtain rc v' rs1 where "redis_string_getbit cmd k (offset str x) v rs = Some (rc, v', rs1)" "ctx rs1 = LiveCtx" by (rule getbit_total [OF assms Cons.prems])
  then show ?case using Cons.IH [of rs1 v'] by (simp add: hash_offset)
qed simp

lemma visit_link_total:
  assumes "replies cmd" "wp \<noteq> 0" "wanted_link h \<longrightarrow> length h < 1024" "ctx rs = LiveCtx"
  shows "\<exists>go rs'. visit_link cmd wp junk h rs = Some (go, rs') \<and> ctx rs' = LiveCtx"
proof (cases "wanted_link h")
  case True
  obtain seen rs1 where c: "bloom_check cmd h junk rs = Some (seen, rs1)" "ctx rs1 = LiveCtx"
    using check_seeds_total [OF assms(1,4)] unfolding bloom_check_def by blast
  obtain rc rs2 where s: "bloom_set cmd h rs1 = Some (rc, rs2)" "ctx rs2 = LiveCtx"
    using set_seeds_total [OF assms(1) c(2)] unfolding bloom_set_def by blast
  obtain rc' rs3 where "redis_list_rpush cmd (url_list (x86_32_ref HASH_SEED h mod wp)) h rs2 = Some (rc', rs3)" "ctx rs3 = LiveCtx"
    by (rule rpush_total [OF assms(1) s(2)])
  then show ?thesis using assms(2,3) True c s by (cases "seen = 0") (auto simp: visit_link_def push_url_def url_id_Some)
qed (use assms in \<open>auto simp: visit_link_def\<close>)

lemma search_links_in_total:
  assumes "\<And>n rs. n \<in> set ns \<Longrightarrow> ctx rs = LiveCtx \<Longrightarrow> \<exists>rs'. search_for_links get_attr cmd wp junk n rs = Some rs' \<and> ctx rs' = LiveCtx"
  shows "ctx rs = LiveCtx \<Longrightarrow> \<exists>rs'. search_links_in get_attr cmd wp junk ns rs = Some rs' \<and> ctx rs' = LiveCtx"
  using assms
proof (induction ns arbitrary: rs)
  case (Cons n ns)
  obtain rs1 where n: "search_for_links get_attr cmd wp junk n rs = Some rs1" "ctx rs1 = LiveCtx" using Cons.prems(2) [of n rs] Cons.prems(1) by auto
  have "\<exists>rs'. search_links_in get_attr cmd wp junk ns rs1 = Some rs' \<and> ctx rs' = LiveCtx"
    by (rule Cons.IH [OF n(2)]) (use Cons.prems(2) in simp)
  then show ?case using n(1) by simp
qed simp

lemma search_links_total:
  assumes "replies cmd" "wp \<noteq> 0"
  shows "\<forall>h\<in>set (links_of get_attr n). wanted_link h \<longrightarrow> length h < 1024 \<Longrightarrow> ctx rs = LiveCtx \<Longrightarrow>
    \<exists>rs'. search_for_links get_attr cmd wp junk n rs = Some rs' \<and> ctx rs' = LiveCtx"
proof (induction n arbitrary: rs)
  case (Element tag attrs children)
  have each: "\<exists>rs'. search_for_links get_attr cmd wp junk n rs = Some rs' \<and> ctx rs' = LiveCtx"
    if n: "n \<in> set children" "ctx rs = LiveCtx" for n rs
  proof (rule Element.IH [OF n(1) _ n(2)])
    have "set (links_of get_attr n) \<subseteq> set (links_of get_attr (Element tag attrs children))"
      using n(1) unfolding links_of.simps set_append set_concat set_map by blast
    then show "\<forall>h\<in>set (links_of get_attr n). wanted_link h \<longrightarrow> length h < 1024" using Element.prems(1) by blast
  qed
  have below: "\<exists>rs'. search_links_in get_attr cmd wp junk children rs = Some rs' \<and> ctx rs' = LiveCtx" if "ctx rs = LiveCtx" for rs
    by (rule search_links_in_total [OF each that])
  obtain go rs1 where v: "(if tag = GUMBO_TAG_A
      then (case get_attr attrs (cstr ''href'') of None \<Rightarrow> Some (True, rs) | Some href \<Rightarrow> visit_link cmd wp junk href rs)
      else Some (True, rs)) = Some (go, rs1)" "ctx rs1 = LiveCtx"
  proof (cases "tag = GUMBO_TAG_A \<and> get_attr attrs (cstr ''href'') \<noteq> None")
    case True
    then obtain h where h: "get_attr attrs (cstr ''href'') = Some h" "tag = GUMBO_TAG_A" by auto
    then have "wanted_link h \<longrightarrow> length h < 1024" using Element.prems(1) by simp
    from visit_link_total [OF assms this Element.prems(2)] show thesis using that h by auto
  next
    case False
    then show thesis using that [of True rs] Element.prems(2) by (auto split: option.splits)
  qed
  then show ?case using below [of rs1] by (cases go) simp_all
qed simp_all

section \<open>Properties\<close>

text \<open>
  C3: searching a page for links ends, whatever the server answers, and what it adds to the work lists
  are wanted links of the page, each appended to the list of its shard; no bit of the filter is lost.
  If the server is always reachable these are exactly the links new to the filter, each once however
  often it stands on the page, and afterwards every wanted link of the page is in the filter.
\<close>

theorem search_for_links_pushes:
  assumes "redis_spec cmd lists_of bits_of" "ctx rs = LiveCtx" "wp \<noteq> 0"
    and "\<forall>h\<in>set (links_of get_attr root). wanted_link h \<longrightarrow> length h < 1024"
  shows "\<exists>rs' new. search_for_links get_attr cmd wp junk root rs = Some rs' \<and> ctx rs' = LiveCtx \<and>
    lists_of (server rs') = push_all wp new (lists_of (server rs)) \<and> bits_of (server rs) BLOOM \<subseteq> bits_of (server rs') BLOOM \<and>
    set new \<subseteq> {h \<in> set (links_of get_attr root). wanted_link h} \<and>
    (reliable cmd \<longrightarrow> new = fresh_links (bits_of (server rs) BLOOM) (links_of get_attr root) \<and> distinct new \<and>
      (\<forall>h\<in>set (links_of get_attr root). wanted_link h \<longrightarrow> bloom_bits h \<subseteq> bits_of (server rs') BLOOM))"
proof -
  let ?L = "lists_of (server rs)" and ?B = "bits_of (server rs) BLOOM" and ?hs = "links_of get_attr root"
  have "bloom_rep cmd lists_of bits_of ?L rs ?B" using assms(1,2) by (simp add: bloom_rep_def)
  then obtain rs' where s: "search_for_links get_attr cmd wp junk root rs = Some rs'"
    "visited cmd lists_of bits_of wp ?hs ?L ?B True rs'"
    using search_for_links_run [OF assms(3), of get_attr cmd lists_of bits_of junk root] assms(4) unfolding searches_def by blast
  then obtain new B' where v: "bloom_rep cmd lists_of bits_of (push_all wp new ?L) rs' B'" "?B \<subseteq> B'" "set new \<subseteq> {h \<in> set ?hs. wanted_link h}"
    "reliable cmd \<longrightarrow> new = fresh_links ?B ?hs \<and> B' = ?B \<union> bits_union new" unfolding visited_def by blast
  have "reliable cmd \<longrightarrow> distinct new \<and> (\<forall>h\<in>set ?hs. wanted_link h \<longrightarrow> bloom_bits h \<subseteq> B')"
    using v(4) fresh_links_new(2) [of ?B ?hs] fresh_links_covers [of _ ?hs ?B] by blast
  then show ?thesis using s(1) v by (intro exI [of _ rs'] exI [of _ new]) (simp add: bloom_rep_def)
qed

definition ex_href :: bytes where
  "ex_href = cstr ''http://bbs.dgtle.com/thread-1''"

definition ex_root :: "(bytes \<times> bytes) list gumbo_node" where
  "ex_root = Element GUMBO_TAG_DIV []
     [Element GUMBO_TAG_A [(cstr ''href'', ex_href)] [TextNode [97]], TextNode [98],
      Element GUMBO_TAG_P [] [Element GUMBO_TAG_A [(cstr ''href'', ex_href)] []],
      Element GUMBO_TAG_A [(cstr ''href'', cstr ''x'')] []]"

lemma ex_links: "links_of map_of ex_root = [ex_href, ex_href, cstr ''x'']"
  by (simp add: ex_root_def)

lemma ex_wanted: "wanted_link ex_href" "\<not> wanted_link (cstr ''x'')" "length ex_href < 1024"
  by code_simp+

lemma ex_fresh: "fresh_links {} [ex_href, ex_href, cstr ''x''] = [ex_href]"
  using ex_wanted by (simp add: bloom_bits_def seeds_def)

lemma ex_reliable: "reliable ex_redis"
  unfolding reliable_def by (blast dest: ex_redis_no_error)

theorem search_for_links_pushes_witness:
  "\<exists>rs'. search_for_links map_of ex_redis 2 0 ex_root ex_redis_state = Some rs' \<and> fst (server rs') (shard 2 ex_href) = [ex_href]"
proof -
  have c: "ctx ex_redis_state = LiveCtx" "fst (server ex_redis_state) = (\<lambda>k. [])" "snd (server ex_redis_state) BLOOM = {}"
    by (simp_all add: ex_redis_state_def)
  have l: "\<forall>h\<in>set (links_of map_of ex_root). wanted_link h \<longrightarrow> length h < 1024" using ex_wanted by (simp add: ex_links)
  have "(2 :: u32) \<noteq> 0" by simp
  from search_for_links_pushes [OF ex_redis_spec c(1) this l, of 0] obtain rs' where
    "search_for_links map_of ex_redis 2 0 ex_root ex_redis_state = Some rs'"
    "fst (server rs') = push_all 2 (fresh_links {} [ex_href, ex_href, cstr ''x'']) (\<lambda>k. [])"
    using ex_reliable unfolding c ex_links by blast
  then show ?thesis unfolding ex_fresh by (simp add: push_all_def)
qed

text \<open>
  C34: searching a thread page ends and yields for title, category, author and time the text of the
  last element of the page that stands where the site puts that field; a field the page does not have
  keeps its old value. (Each such element must have a child, and its text must fit the 1024 bytes.)
\<close>

theorem search_for_author_fields:
  assumes "\<forall>x\<in>set (fields_of get_attr [] root). copyable x"
  shows "\<exists>info'. search_for_author get_attr [] root info = Some info' \<and>
    (\<forall>f. get_field f info' = last (get_field f info # texts_of f (fields_of get_attr [] root)))"
  using search_for_author_run [OF assms, of info] by (auto simp: put_fields texts_of_def)

definition ex_thread :: "(bytes \<times> bytes) list gumbo_node" where
  "ex_thread = Element GUMBO_TAG_DIV [(cstr ''class'', cstr ''mporf'')]
     [Element GUMBO_TAG_P [] [Element GUMBO_TAG_A [] [TextNode [97, 98]]],
      Element GUMBO_TAG_SPAN [(cstr ''class'', cstr ''cr_date'')]
        [Element GUMBO_TAG_EM [] [TextNode [49, 50]], Element GUMBO_TAG_EM [] [TextNode [49, 58, 50]]]]"

theorem search_for_author_fields_witness:
  "\<exists>info'. search_for_author map_of [] ex_thread no_info = Some info' \<and> pi_author info' = [97, 98] \<and> pi_timestamp info' = [49, 58, 50] \<and>
    pi_title info' = []"
proof -
  have f: "fields_of map_of [] ex_thread =
      [(Author, [TextNode [97, 98]]), (Timestamp, [TextNode [49, 50]]), (Timestamp, [TextNode [49, 58, 50]])]"
    by (simp add: ex_thread_def field_of_def placed_under_def cstr_def of_char_def)
  then have "\<forall>x\<in>set (fields_of map_of [] ex_thread). copyable x" by (simp add: copyable_def)
  from search_for_author_fields [OF this, of no_info] obtain info' where i: "search_for_author map_of [] ex_thread no_info = Some info'"
    "\<And>f. get_field f info' = last (get_field f no_info # texts_of f (fields_of map_of [] ex_thread))" by blast
  show ?thesis using i(1) i(2) [of Author] i(2) [of Timestamp] i(2) [of Title]
    by (simp add: f texts_of_def no_info_def)
qed

text \<open>
  C35: a finished listing page is worked off completely: its new links go to their work lists, then its
  own URL to the list of the pages done, and the client is released with its connection back in the
  pool.
\<close>

theorem parse_html_listing:
  fixes st :: "('k, 'r, 'a) crawl_state_scheme"
  assumes "pool_inv b (st, kern st) free" "clients st a = Some cl" "cl_connection cl = c" "c \<noteq> 0"
    and "conns st c = Some conn" "c \<notin> set free" "c_ssl conn \<noteq> 0 \<longrightarrow> ssls st (c_ssl conn) \<noteq> None"
    and "cl_status cl = HTTP_HTML_DONE" "cl_html cl = Some mc" "mc_html mc = Some html" "c_string (b_data html) = Some text"
    and "gumbo_parse text = Some root" "length (page_url (cl_url cl)) < 1024"
    and "strstr (u_path (cl_url cl)) (cstr ''forum.php?mod=forumdisplay&fid=2'')"
    and "\<forall>h\<in>set (links_of get_attr root). wanted_link h \<longrightarrow> length h < 1024"
    and "bloom_rep cmd lists_of bits_of L (redis st) B" "reliable cmd" "work_processes st \<noteq> 0"
  shows "\<exists>st'. parse_html ctl close gumbo_parse get_attr cmd junk a st = Some (0, st') \<and>
    pool_inv b (st', kern st') (c # free) \<and> clients st' = (clients st)(a := None) \<and>
    (let new = fresh_links B (links_of get_attr root); L' = push_all (work_processes st) new L; d = cstr ''parse_done'' in
     bloom_rep cmd lists_of bits_of (L'(d := L' d @ [page_url (cl_url cl)])) (redis st') (B \<union> bits_union new))"
  using assms by (rule parse_html_run)

definition ex_list_url :: http_url_s where
  "ex_list_url = \<lparr>u_schema = cstr ''http'', u_host = cstr ''bbs.dgtle.com'', u_port = 80,
     u_path = cstr ''/forum.php?mod=forumdisplay&fid=2''\<rparr>"

definition ex_list_client :: http_client_s where
  "ex_list_client = (ex_client [])\<lparr>cl_status := HTTP_HTML_DONE, cl_url := ex_list_url, cl_connection := 1000,
     cl_html := Some (zero_html\<lparr>mc_html := Some \<lparr>b_data = [60, 62, 0], b_last = 2, b_pos = 0\<rparr>\<rparr>)\<rparr>"

lemma ex_crawl_pool:
  "\<exists>(st :: (int list, (bytes \<Rightarrow> bytes list) \<times> (bytes \<Rightarrow> u32 set)) crawl_state) conn. pool_inv 0 (st, kern st) [1128] \<and> clients st = [700 \<mapsto> ex_list_client] \<and>
    conns st 1000 = Some conn \<and> ssls st = (\<lambda>s. Some zero_ssl) \<and> redis st = ex_redis_state \<and> work_processes st = 2"
proof -
  obtain st0 :: "int list http_state" where st0: "pool_inv 0 (st0, kern st0) [1000, 1128]" "clients st0 = [700 \<mapsto> ex_list_client]"
    "ssls st0 = (\<lambda>s. Some zero_ssl)" using ex_http_pool by blast
  have "(5 :: int) \<noteq> - 1" by simp
  from take_touches [OF st0(1) this] obtain conn s where s: "pool_inv 0 (s, kern st0) [1128]" "conns s 1000 = Some conn"
    "conn_state.more s = conn_state.more st0" by metis
  let ?st = "\<lparr>theap = theap s, ttree = ttree s, events = events s, clock = clock s, ticks = ticks s, conns = conns s,
    free_connections = free_connections s, free_connection_n = free_connection_n s, ssls = \<lambda>s. Some zero_ssl, err_queue = [],
    script = [], kern = [], clients = [700 \<mapsto> ex_list_client], mem_script = [], links = Map.empty, cache_queue = 0, query_queue = 0,
    caches = Map.empty, cache_count = 0, dns_id = 0, queries = Map.empty, dns_conn = 0, dns_mem = [], redis = ex_redis_state,
    work_processes = 2, connection_threshold = 1000, crawler_quit = False\<rparr>
    :: (int list, (bytes \<Rightarrow> bytes list) \<times> (bytes \<Rightarrow> u32 set)) crawl_state"
  have "pool_inv 0 (?st, kern ?st) [1128]" by (rule pool_inv_cong [OF s(1)]) simp_all
  then show ?thesis using s(2) by (intro exI [of _ ?st] exI [of _ conn]) simp
qed

theorem parse_html_listing_witness:
  "\<exists>(st :: (int list, (bytes \<Rightarrow> bytes list) \<times> (bytes \<Rightarrow> u32 set)) crawl_state) st'.
    parse_html ex_epoll ex_close (\<lambda>t. Some ex_root) map_of ex_redis 0 700 st = Some (0, st') \<and> clients st' 700 = None \<and>
    pool_inv 0 (st', kern st') [1000, 1128]"
proof -
  obtain conn and st :: "(int list, (bytes \<Rightarrow> bytes list) \<times> (bytes \<Rightarrow> u32 set)) crawl_state" where
    st: "pool_inv 0 (st, kern st) [1128]" "clients st = [700 \<mapsto> ex_list_client]" "conns st 1000 = Some conn"
    "ssls st = (\<lambda>s. Some zero_ssl)" "redis st = ex_redis_state" "work_processes st = 2" using ex_crawl_pool by blast
  have c: "clients st 700 = Some ex_list_client" "cl_connection ex_list_client = 1000" "(1000::addr) \<noteq> 0" "1000 \<notin> set [1128::addr]"
    "c_ssl conn \<noteq> 0 \<longrightarrow> ssls st (c_ssl conn) \<noteq> None" "cl_status ex_list_client = HTTP_HTML_DONE" "work_processes st \<noteq> 0"
    "cl_url ex_list_client = ex_list_url"
    using st by (simp_all add: ex_list_client_def)
  have p: "cl_html ex_list_client = Some (zero_html\<lparr>mc_html := Some \<lparr>b_data = [60, 62, 0], b_last = 2, b_pos = 0\<rparr>\<rparr>)"
    "mc_html (zero_html\<lparr>mc_html := Some \<lparr>b_data = [60, 62, 0], b_last = 2, b_pos = 0\<rparr>\<rparr>) = Some \<lparr>b_data = [60, 62, 0], b_last = 2, b_pos = 0\<rparr>"
    "c_string (b_data \<lparr>b_data = [60, 62, 0], b_last = 2, b_pos = 0\<rparr>) = Some [60, 62]" "(\<lambda>t. Some ex_root) [60, 62 :: u8] = Some ex_root"
    by (simp_all add: ex_list_client_def c_string_def)
  have u: "length (page_url (cl_url ex_list_client)) < 1024"
    "strstr (u_path (cl_url ex_list_client)) (cstr ''forum.php?mod=forumdisplay&fid=2'')" unfolding c(8) by code_simp+
  have l: "\<forall>h\<in>set (links_of map_of ex_root). wanted_link h \<longrightarrow> length h < 1024" using ex_wanted by (simp add: ex_links)
  have r: "bloom_rep ex_redis fst snd (\<lambda>k. []) (redis st) {}" using ex_bloom_rep st(5) by simp
  from parse_html_listing [OF st(1) c(1,2,3) st(3) c(4,5,6) p u l r ex_reliable c(7), of ex_epoll ex_close 0]
  obtain st' where "parse_html ex_epoll ex_close (\<lambda>t. Some ex_root) map_of ex_redis 0 700 st = Some (0, st')"
    "clients st' = (clients st)(700 := None)" "pool_inv 0 (st', kern st') [1000, 1128]" by blast
  then show ?thesis by (intro exI [of _ st] exI [of _ st']) simp
qed

text \<open>
  C40: the search of a page is defined for every server: whatever replies it gives, of whatever type, and
  whichever commands fail, no missing reply and no freed context is used, and the context is usable
  afterwards. (A wanted link must fit the 1024 bytes it is copied to, and there must be a process.)
\<close>

theorem search_for_links_defined:
  assumes "replies cmd" "wp \<noteq> 0" "ctx rs = LiveCtx" "\<forall>h\<in>set (links_of get_attr root). wanted_link h \<longrightarrow> length h < 1024"
  shows "\<exists>rs'. search_for_links get_attr cmd wp junk root rs = Some rs' \<and> ctx rs' = LiveCtx"
  by (rule search_links_total [OF assms(1,2,4,3)])

theorem search_for_links_defined_witness:
  "\<exists>rs'. search_for_links map_of (\<lambda>args n. ((odd n, Some (REDIS_REPLY_ERROR [69])), Suc n)) 2 0 ex_root \<lparr>ctx = LiveCtx, server = 0 :: nat\<rparr> = Some rs' \<and>
    ctx rs' = LiveCtx"
  by (rule search_for_links_defined) (use ex_wanted in \<open>simp_all add: replies_def ex_links\<close>)

end
