(* ===== verification/Process_Cycle.thy ===== *)
theory Process_Cycle
  imports Html_Parser
begin

text \<open>
  \<^verbatim>\<open>src/process_cycle.c\<close>: the settings, the seeds and their distribution over the work lists, the work
  processes with their main loop, and the master that forks them, reports their ends and stops them.
  Lua is left out but for what it answers: whether a global is a number and which, and the strings of
  the table of seeds. Signals, \<open>fork\<close>, \<open>waitpid\<close> and \<open>epoll_wait\<close> are lists of answers.

  \<open>crawl_call\<close> ties the components together: it is the call through an event's handler pointer, with
  the handler functions of the other theories behind it.
\<close>

section \<open>Settings and seeds\<close>

text \<open>\<open>num\<close> is the global's value if \<open>lua_isnumber\<close> holds for it.\<close>

definition get_work_processes :: "int option \<Rightarrow> ('k, 'r, 'a) crawl_state_scheme \<Rightarrow> ('k, 'r, 'a) crawl_state_scheme" where
  "get_work_processes num st = st\<lparr>work_processes := (case num of None \<Rightarrow> 2 | Some n \<Rightarrow> word_of_int n)\<rparr>"

definition get_connection_threshold :: "int option \<Rightarrow> ('k, 'r, 'a) crawl_state_scheme \<Rightarrow> ('k, 'r, 'a) crawl_state_scheme" where
  "get_connection_threshold num st = st\<lparr>connection_threshold := (case num of None \<Rightarrow> 1000 | Some n \<Rightarrow> word_of_int n)\<rparr>"

text \<open>
  The strings of the table up to the first entry that is none are pushed to the lists they belong to;
  a push that fails ends the loop. When the global is no table \<open>luaL_error\<close> does not return.
\<close>

fun seed_loop :: "'r redis \<Rightarrow> u32 \<Rightarrow> bytes list \<Rightarrow> 'r redis_state \<Rightarrow> 'r redis_state option" where
  "seed_loop cmd wp [] rs = Some rs"
| "seed_loop cmd wp (url # urls) rs =
     do { (rc, rs) \<leftarrow> push_url cmd wp url rs; if rc < 0 then Some rs else seed_loop cmd wp urls rs }"

definition get_url_seed :: "'r redis \<Rightarrow> bytes list option \<Rightarrow> ('k, 'r, 'a) crawl_state_scheme \<Rightarrow> (('k, 'r, 'a) crawl_state_scheme) option" where
  "get_url_seed cmd seed st =
     do { urls \<leftarrow> seed; rs \<leftarrow> seed_loop cmd (work_processes st) urls (redis st); Some (st\<lparr>redis := rs\<rparr>) }"

section \<open>The handlers together\<close>

text \<open>
  What the program is run with: the kernel, the libraries and the server, the values of uninitialised
  memory, and where the next allocations and the next connections go.
\<close>

record ('k, 'r, 'n, 'z) crawl_env =
  env_ctl :: "'k epoll_ctl"
  env_close :: "int \<Rightarrow> 'k \<Rightarrow> 'k"
  env_cmd :: "'r redis"
  env_gumbo :: "bytes \<Rightarrow> 'n gumbo_node option"
  env_attr :: "'n get_attr"
  env_inflateInit2 :: "bytes \<Rightarrow> 'z option"
  env_inflate :: "'z \<Rightarrow> nat \<Rightarrow> zret \<times> bytes \<times> 'z"
  env_url :: url_parser
  env_junk :: "nat \<Rightarrow> u8"
  env_value :: u32
  env_pkt :: bytes
  env_client :: "(addr \<rightharpoonup> http_client_s) \<Rightarrow> addr"
  env_dial :: "u32 \<Rightarrow> nat \<Rightarrow> dial"
  env_ssl :: "(addr \<rightharpoonup> ssl_connection_s) \<Rightarrow> addr option"
  env_connect :: "addr \<Rightarrow> nat \<Rightarrow> int option"

definition page_handler :: "('k, 'r, 'n, 'z) crawl_env \<Rightarrow> addr \<Rightarrow> ('k, 'r, 'a) crawl_state_scheme \<Rightarrow> (('k, 'r, 'a) crawl_state_scheme) option" where
  "page_handler env client st =
     map_option snd (parse_html (env_ctl env) (env_close env) (env_gumbo env) (env_attr env) (env_cmd env) (env_value env) client st)"

definition create_http_client :: "('k, 'r, 'n, 'z) crawl_env \<Rightarrow> http_url_s \<Rightarrow> u32 \<Rightarrow> ('k, 'r, 'a) crawl_state_scheme \<Rightarrow>
    (('k, 'r, 'a) crawl_state_scheme) option" where
  "create_http_client env url sin_addr st =
     do { (_, st) \<leftarrow> http_client_create (page_handler env) (env_ctl env) (env_close env) st (env_client env (clients st)) url True
                       (env_dial env sin_addr (ticks st));
          Some st }"

definition dns_deliver :: "('k, 'r, 'n, 'z) crawl_env \<Rightarrow> dns_handler \<Rightarrow> http_url_s \<Rightarrow> u32 \<Rightarrow> ('k, 'r, 'a) crawl_state_scheme \<Rightarrow>
    (('k, 'r, 'a) crawl_state_scheme) option" where
  "dns_deliver env h url sin_addr st = (case h of NoDnsHandler \<Rightarrow> None | H_create_http_client \<Rightarrow> create_http_client env url sin_addr st)"

partial_function (option) crawl_call :: "('k, 'r, 'n, 'z) crawl_env \<Rightarrow> event_handler \<Rightarrow> addr \<Rightarrow> ('k, 'r, 'a) crawl_state_scheme \<Rightarrow>
    (('k, 'r, 'a) crawl_state_scheme) option" where
  "crawl_call env h ev st =
     (case h of
        NoHandler \<Rightarrow> None
      | H_dns_process_event \<Rightarrow> dns_process_event (dns_deliver env) st ev (env_pkt env)
      | H_dns_timeout_handler \<Rightarrow> dns_timeout_handler st ev
      | H_http_read_event_process \<Rightarrow>
          http_read_event_process (page_handler env) (env_junk env) (env_inflateInit2 env) (env_inflate env) (env_ctl env) st ev
      | H_http_write_event_process \<Rightarrow> http_write_event_process (page_handler env) (env_ctl env) st ev
      | H_ssl_handshake_handler \<Rightarrow>
          ssl_handshake_handler (page_handler env) (env_ctl env) st ev (env_ssl env (ssls st)) (env_connect env ev (ticks st))
      | H_ssl_write_handler \<Rightarrow>
          do { e \<leftarrow> events st ev; conn \<leftarrow> conns st (ev_data e); e' \<leftarrow> events st (c_read conn); crawl_call env (ev_handler e') (c_read conn) st }
      | H_ssl_read_handler \<Rightarrow>
          do { e \<leftarrow> events st ev; conn \<leftarrow> conns st (ev_data e); e' \<leftarrow> events st (c_write conn); crawl_call env (ev_handler e') (c_write conn) st })"

section \<open>The main loop of a work process\<close>

text \<open>
  The next URL of the process's list, when enough connections are free; \<open>alloc\<close> is the outcome of the
  allocation of \<open>redis_list_lpop\<close>. The number of free connections is compared unsigned.
\<close>

definition fetch_url :: "('k, 'r, 'n, 'z) crawl_env \<Rightarrow> bytes \<Rightarrow> bool \<Rightarrow> ('k, 'r, 'a) crawl_state_scheme \<Rightarrow> (('k, 'r, 'a) crawl_state_scheme) option" where
  "fetch_url env key alloc st =
     (if \<not> get_free_connection_n st > connection_threshold st then Some st
      else do {
        (len, rs) \<leftarrow> redis_list_length (env_cmd env) key (redis st);
        st \<leftarrow> Some (st\<lparr>redis := rs\<rparr>);
        if \<not> len > 0 then Some st
        else do {
          (url, rs) \<leftarrow> redis_list_lpop (env_cmd env) key alloc (redis st);
          st \<leftarrow> Some (st\<lparr>redis := rs\<rparr>);
          case url of
            None \<Rightarrow> Some st
          | Some url \<Rightarrow>
              do { (http_url, m) \<leftarrow> create_http_url (env_url env) url (mem_script st);
                   st \<leftarrow> Some (st\<lparr>mem_script := m\<rparr>);
                   case http_url of
                     None \<Rightarrow> Some st
                   | Some http_url \<Rightarrow> do { (_, st) \<leftarrow> dns_query (dns_deliver env) st http_url H_create_http_client; Some st } } } })"

definition work_round :: "('k, 'r, 'n, 'z) crawl_env \<Rightarrow> bytes \<Rightarrow> bool \<Rightarrow> wait_result \<Rightarrow> ('k, 'r, 'a) crawl_state_scheme \<Rightarrow>
    (('k, 'r, 'a) crawl_state_scheme) option" where
  "work_round env key alloc res st =
     do { st \<leftarrow> fetch_url env key alloc st;
          (_, st) \<leftarrow> event_process (crawl_call env) st 1000 res;
          event_expire_timers (crawl_call env) st }"

datatype signal = SIGINT | SIGCHLD | OtherSignal

definition crawler_signal_handler :: "signal \<Rightarrow> ('k, 'r, 'a) crawl_state_scheme \<Rightarrow> ('k, 'r, 'a) crawl_state_scheme" where
  "crawler_signal_handler signo st = (if signo = SIGINT then st\<lparr>crawler_quit := True\<rparr> else st)"

text \<open>
  The loop: each element is a round, with the signals that arrive before its test of \<open>crawler_quit\<close>.
  It ends with \<open>redis_free\<close>; \<open>None\<close> after the last element says that it is still running.
\<close>

fun work_loop :: "('k, 'r, 'n, 'z) crawl_env \<Rightarrow> bytes \<Rightarrow> (signal list \<times> bool \<times> wait_result) list \<Rightarrow> ('k, 'r, 'a) crawl_state_scheme \<Rightarrow>
    (('k, 'r, 'a) crawl_state_scheme) option" where
  "work_loop env key [] st = None"
| "work_loop env key ((signals, alloc, res) # rounds) st =
     (let st = fold crawler_signal_handler signals st
      in if crawler_quit st then do { rs \<leftarrow> redis_free (redis st); Some (st\<lparr>redis := rs\<rparr>) }
         else do { st \<leftarrow> work_round env key alloc res st; work_loop env key rounds st })"

text \<open>
  The start of a work process, up to its first round: every part is initialised in turn, and the first
  that fails ends the process. The arguments are the outcomes of the calls made on the way; the array
  of events and the descriptor of \<open>event_init\<close> are not part of the state.
\<close>

record 'k work_start =
  ws_sigaction :: bool
  ws_epoll :: int
  ws_event_list :: "addr option"
  ws_sentinel :: addr
  ws_conns :: "addr option"
  ws_wevents :: "addr option"
  ws_revents :: "addr option"
  ws_resolv :: "bytes list option"
  ws_socket :: int
  ws_connect :: "int \<Rightarrow> u32 \<Rightarrow> int"
  ws_redis :: "bool option"

definition work_process_init :: "('k, 'r, 'n, 'z) crawl_env \<Rightarrow> 'k work_start \<Rightarrow> ('k, 'r, 'a) crawl_state_scheme \<Rightarrow>
    (bool \<times> ('k, 'r, 'a) crawl_state_scheme) option" where
  "work_process_init env ws st =
     (if \<not> ws_sigaction ws then Some (False, st)
      else if fst (event_init (- 1) 0 (ws_epoll ws) (ws_event_list ws)) < 0 then Some (False, st)
      else do {
        st \<leftarrow> event_timer_init (ws_sentinel ws) st;
        (rc, st) \<leftarrow> connection_init 1024 (ws_conns ws) (ws_wevents ws) (ws_revents ws) st;
        if rc < 0 then Some (False, st)
        else do {
          (rc, st) \<leftarrow> dns_init (env_ctl env) (env_close env) st (ws_resolv ws) (ws_socket ws) (ws_connect ws);
          if rc < 0 then Some (False, st)
          else do {
            (rc, rs) \<leftarrow> Some (redis_init (ws_redis ws) (redis st));
            st \<leftarrow> Some (st\<lparr>redis := rs\<rparr>);
            if rc < 0 then Some (False, st)
            else do {
              (rc, rs) \<leftarrow> bloom_init (env_cmd env) (redis st);
              Some (\<not> rc < 0, st\<lparr>redis := rs\<rparr>) } } } })"

text \<open>The list of work process \<open>n\<close>.\<close>

definition work_key :: "nat \<Rightarrow> bytes" where
  "work_key n = url_list (of_nat n)"

definition work_process_cycle :: "('k, 'r, 'n, 'z) crawl_env \<Rightarrow> 'k work_start \<Rightarrow> nat \<Rightarrow> (signal list \<times> bool \<times> wait_result) list \<Rightarrow>
    ('k, 'r, 'a) crawl_state_scheme \<Rightarrow> (('k, 'r, 'a) crawl_state_scheme) option" where
  "work_process_cycle env ws n rounds st =
     do { (ok, st) \<leftarrow> work_process_init env ws st;
          if ok then work_loop env (work_key n) rounds st else Some st }"

section \<open>The master\<close>

text \<open>
  What \<open>waitpid\<close> answers and what is reported: which work process (their number when the child is
  none of them), and how it ended.
\<close>

datatype waited = NotYet | Ended int u32 | WaitError int

datatype report = OnSignal nat int u32 bool | WithCode nat int u32

definition WTERMSIG :: "u32 \<Rightarrow> u32" where "WTERMSIG status = status AND 0x7f"
definition WEXITSTATUS :: "u32 \<Rightarrow> u32" where "WEXITSTATUS status = drop_bit 8 (status AND 0xff00)"
definition WCOREDUMP :: "u32 \<Rightarrow> bool" where "WCOREDUMP status \<longleftrightarrow> status AND 0x80 \<noteq> 0"

fun pid_index :: "int \<Rightarrow> int list \<Rightarrow> nat" where
  "pid_index pid [] = 0"
| "pid_index pid (p # ps) = (if p = pid then 0 else Suc (pid_index pid ps))"

fun crawler_process_get_status :: "int list \<Rightarrow> waited list \<Rightarrow> report list option" where
  "crawler_process_get_status pids [] = None"
| "crawler_process_get_status pids (NotYet # ws) = Some []"
| "crawler_process_get_status pids (WaitError errno # ws) =
     (if errno = EINTR then crawler_process_get_status pids ws else Some [])"
| "crawler_process_get_status pids (Ended pid status # ws) =
     map_option (Cons (if WTERMSIG status \<noteq> 0 then OnSignal (pid_index pid pids) pid (WTERMSIG status) (WCOREDUMP status)
                       else WithCode (pid_index pid pids) pid (WEXITSTATUS status)))
       (crawler_process_get_status pids ws)"

text \<open>
  The loop of \<open>fork\<close>s, with their results. \<open>returns\<close> says of which child \<open>work_process_cycle\<close> returns
  instead of ending the process, as it does when its \<open>sigaction\<close> fails: such a child goes on in the loop.
\<close>

datatype forked = ForkFailed | InChild nat | Forked "int list"

fun fork_loop :: "(nat \<Rightarrow> bool) \<Rightarrow> nat \<Rightarrow> int list \<Rightarrow> int list \<Rightarrow> forked option" where
  "fork_loop returns i pids forks =
     (if i < length pids
      then (case forks of
              [] \<Rightarrow> None
            | pid # forks \<Rightarrow>
                if pid = - 1 then Some ForkFailed
                else if pid = 0 then (if returns i then fork_loop returns (Suc i) pids forks else Some (InChild i))
                else fork_loop returns (Suc i) (pids[i := pid]) forks)
      else Some (Forked pids))"

declare fork_loop.simps [simp del]

text \<open>
  \<open>start_work_processes\<close>: the outcomes of the blocking of the signals, of the two \<open>sigaction\<close>s and of
  \<open>malloc\<close>; then the forks; then the signals \<open>sigsuspend\<close> returns for, of which \<open>SIGINT\<close> ends the
  master after it has been passed on to every work process.
\<close>

datatype started = StartFailed | WorkProcess nat | Stopped "int list"

fun master_loop :: "int list \<Rightarrow> signal list \<Rightarrow> started option" where
  "master_loop pids [] = None"
| "master_loop pids (s # signals) = (if s = SIGINT then Some (Stopped pids) else master_loop pids signals)"

definition start_work_processes :: "u32 \<Rightarrow> bool \<Rightarrow> bool \<Rightarrow> bool \<Rightarrow> bool \<Rightarrow> (nat \<Rightarrow> bool) \<Rightarrow> int list \<Rightarrow> signal list \<Rightarrow>
    started option" where
  "start_work_processes wp blocked int_ok chld_ok allocated returns forks signals =
     (if \<not> blocked \<or> \<not> int_ok \<or> \<not> chld_ok \<or> \<not> allocated then Some StartFailed
      else do { f \<leftarrow> fork_loop returns 0 (replicate (nat (sint wp)) (- 1)) forks;
                case f of
                  ForkFailed \<Rightarrow> Some StartFailed
                | InChild i \<Rightarrow> Some (WorkProcess i)
                | Forked pids \<Rightarrow> master_loop pids signals })"

text \<open>
  \<open>main\<close>: the connection to the server, the settings and the seeds, then the processes. \<open>start\<close> is what
  \<open>start_work_processes\<close> does in this process with the number read from the settings; its result is not
  looked at. The master gives up its connection before it forks.
\<close>

definition crawler_main :: "'r redis \<Rightarrow> bool option \<Rightarrow> int option \<Rightarrow> int option \<Rightarrow> bytes list option \<Rightarrow> (u32 \<Rightarrow> started option) \<Rightarrow>
    ('k, 'r, 'a) crawl_state_scheme \<Rightarrow> (int \<times> started option \<times> ('k, 'r, 'a) crawl_state_scheme) option" where
  "crawler_main cmd connected processes threshold seed start st =
     do { (rc, rs) \<leftarrow> Some (redis_init connected (redis st));
          st \<leftarrow> Some (st\<lparr>redis := rs\<rparr>);
          if rc < 0 then Some (- 1, None, st)
          else do {
            st \<leftarrow> get_url_seed cmd seed (get_connection_threshold threshold (get_work_processes processes st));
            rs \<leftarrow> redis_free (redis st);
            started \<leftarrow> start (work_processes st);
            Some (0, Some started, st\<lparr>redis := rs\<rparr>) } }"

section \<open>Every URL has its process\<close>

lemma url_list_inj:
  assumes "n < 2 ^ 31" "m < 2 ^ 31" "url_list (of_nat n) = url_list (of_nat m)"
  shows "n = m"
proof -
  have s: "sint (of_nat k :: u32) = int k" if "k < 2 ^ 31" for k
    using that by (simp add: sint_uint signed_take_bit_int_eq_self_iff unsigned_of_nat take_bit_nat_eq_self)
  have "fmt_d (of_nat k) = dec k" if "k < 2 ^ 31" for k using s [OF that] by (simp add: fmt_d_def)
  then have "dec n = dec m" using assms by (simp add: url_list_def)
  then have "undec (dec n) = undec (dec m)" by simp
  then show ?thesis by (simp only: undec_dec)
qed

lemma shard_number:
  assumes "0 < sint wp"
  obtains n where "n < nat (sint wp)" "nat (sint wp) \<le> 2 ^ 31" "shard wp url = work_key n"
proof -
  let ?id = "x86_32_ref HASH_SEED url mod wp"
  have mod: "(x + 2147483648) mod 4294967296 - 2147483648 = (if x < 2147483648 then x else x - 4294967296)"
    if "0 \<le> x" "x < 4294967296" for x :: int
  proof (cases "x < 2147483648")
    case False
    have "(x + 2147483648) mod 4294967296 = (x - 2147483648 + 4294967296) mod 4294967296" by (simp add: add.commute)
    also have "\<dots> = x - 2147483648" unfolding mod_add_self2 using that False by simp
    finally show ?thesis using False by simp
  qed (use that in simp)
  have "sint wp = (uint wp + 2 ^ 31) mod 2 ^ 32 - 2 ^ 31" using int_word_sint [of "uint wp", where 'a = 32] by simp
  then have s: "sint wp = (if uint wp < 2147483648 then uint wp else uint wp - 4294967296)"
    using mod [of "uint wp"] uint_lt2p [of wp] by simp
  have "uint wp < 4294967296" using uint_lt2p [of wp] by simp
  then have c: "uint wp < 2147483648" using assms unfolding s by (simp split: if_split_asm)
  have u: "unat wp = nat (sint wp)" unfolding s if_P [OF c] by (rule unat_eq_nat_uint)
  have "int (unat wp) < int (2 ^ 31)" using c by simp
  then have u': "unat wp < 2 ^ 31" by (simp only: of_nat_less_iff)
  have "wp \<noteq> 0" using assms by auto
  then have "unat ?id < unat wp" by (simp add: unat_mod_distrib unat_gt_0 unat_0_iff)
  then show thesis using that [of "unat ?id"] u u' by (simp add: shard_def work_key_def)
qed

lemma shard_unique:
  assumes "0 < sint wp"
  shows "\<exists>!n. n < nat (sint wp) \<and> shard wp url = work_key n"
proof -
  obtain n where n: "n < nat (sint wp)" "nat (sint wp) \<le> 2 ^ 31" "shard wp url = work_key n" using assms by (rule shard_number)
  show ?thesis
  proof (rule ex1I [of _ n])
    fix m assume m: "m < nat (sint wp) \<and> shard wp url = work_key m"
    then have "url_list (of_nat m) = url_list (of_nat n)" using n(3) by (simp add: work_key_def)
    moreover have "m < 2 ^ 31" "n < 2 ^ 31" using m n(1,2) by simp_all
    ultimately show "m = n" using url_list_inj by blast
  qed (use n in simp)
qed

section \<open>Seeds\<close>

lemma seed_loop_run:
  "bloom_rep cmd lists_of bits_of L rs B \<Longrightarrow> wp \<noteq> 0 \<Longrightarrow> \<exists>rs' n. seed_loop cmd wp urls rs = Some rs' \<and>
     bloom_rep cmd lists_of bits_of (push_all wp (take n urls) L) rs' B \<and> (reliable cmd \<longrightarrow> n = length urls)"
proof (induction urls arbitrary: rs L)
  case Nil
  then show ?case by (intro exI [of _ rs] exI [of _ "0 :: nat"]) simp
next
  case (Cons url urls)
  obtain rc rs1 new where p: "push_url cmd wp url rs = Some (rc, rs1)" "bloom_rep cmd lists_of bits_of (push_all wp new L) rs1 B"
    "new = [] \<or> new = [url]" "rc = 0 \<and> new = [url] \<or> rc = - 1" "reliable cmd \<longrightarrow> rc = 0" by (rule push_url_run [OF Cons.prems])
  show ?case
  proof (cases "rc = 0")
    case False
    then have "seed_loop cmd wp (url # urls) rs = Some rs1" "\<not> reliable cmd" using p(1,4,5) by auto
    moreover have "new = take (length new) (url # urls)" using p(3) by auto
    ultimately show ?thesis using p(2) by (intro exI [of _ rs1] exI [of _ "length new"]) simp
  next
    case True
    then have new: "new = [url]" using p(4) by auto
    obtain rs' n where "seed_loop cmd wp urls rs1 = Some rs'" "bloom_rep cmd lists_of bits_of (push_all wp (take n urls) (push_all wp new L)) rs' B"
      "reliable cmd \<longrightarrow> n = length urls" using Cons.IH [OF p(2) Cons.prems(2)] by blast
    then show ?thesis using p(1) True new by (intro exI [of _ rs'] exI [of _ "Suc n"]) simp
  qed
qed

section \<open>Fetching\<close>

lemma fetch_url_run:
  fixes st :: "('k, 'r, 'a) crawl_state_scheme"
  assumes spec: "redis_spec (env_cmd env) lists_of bits_of" "reliable (env_cmd env)" "ctx (redis st) = LiveCtx"
    and free: "connection_threshold st < get_free_connection_n st"
    and list: "lists_of (server (redis st)) key = w # ws" "length (w # ws) < 2 ^ 31"
  obtains s' where "lists_of s' = (lists_of (server (redis st)))(key := ws)" "bits_of s' = bits_of (server (redis st))"
    "fetch_url env key True st = do {
       (u, m) \<leftarrow> create_http_url (env_url env) (takeWhile (\<lambda>c. c \<noteq> 0) w) (mem_script st);
       case u of
         None \<Rightarrow> Some (st\<lparr>redis := (redis st)\<lparr>server := s'\<rparr>, mem_script := m\<rparr>)
       | Some url \<Rightarrow> do { (_, st) \<leftarrow> dns_query (dns_deliver env) (st\<lparr>redis := (redis st)\<lparr>server := s'\<rparr>, mem_script := m\<rparr>) url H_create_http_client;
                         Some st } }"
proof -
  obtain len s1 where l: "redis_list_length (env_cmd env) key (redis st) = Some (len, (redis st)\<lparr>server := s1\<rparr>)"
    "bits_of s1 = bits_of (server (redis st))" "lists_of s1 = lists_of (server (redis st))" "len = int (length (w # ws))"
    using llen_reliable [OF spec list(2) list(1)] by blast
  let ?st1 = "st\<lparr>redis := (redis st)\<lparr>server := s1\<rparr>\<rparr>"
  have "ctx ((redis st)\<lparr>server := s1\<rparr>) = LiveCtx" using spec(3) by simp
  from lpop_reliable [OF spec(1,2) this, of key w ws] obtain s2 where
    p: "redis_list_lpop (env_cmd env) key True ((redis st)\<lparr>server := s1\<rparr>) = Some (Some (takeWhile (\<lambda>c. c \<noteq> 0) w), (redis st)\<lparr>server := s2\<rparr>)"
    "bits_of s2 = bits_of (server (redis st))" "lists_of s2 = (lists_of (server (redis st)))(key := ws)"
    using l(2,3) list(1) by auto
  show thesis
    by (rule that [OF p(3,2)]) (use l(1,4) p(1) free in \<open>simp add: fetch_url_def\<close>)
qed

text \<open>The handlers that \<open>crawl_call\<close> stands for.\<close>

lemma crawl_call_tls:
  "crawl_call env H_ssl_write_handler ev st = ssl_write_handler (crawl_call env) st ev"
  "crawl_call env H_ssl_read_handler ev st = ssl_read_handler (crawl_call env) st ev"
  by (subst crawl_call.simps, simp add: ssl_write_handler_def ssl_read_handler_def run_handler_def)+

section \<open>The master's children\<close>

definition end_report :: "int list \<Rightarrow> int \<Rightarrow> u32 \<Rightarrow> report" where
  "end_report pids pid status =
     (if WTERMSIG status \<noteq> 0 then OnSignal (pid_index pid pids) pid (WTERMSIG status) (WCOREDUMP status)
      else WithCode (pid_index pid pids) pid (WEXITSTATUS status))"

fun ended :: "waited \<Rightarrow> (int \<times> u32) list" where
  "ended (Ended pid status) = [(pid, status)]"
| "ended _ = []"

lemma get_status_run:
  assumes "\<forall>w\<in>set ws. w = WaitError EINTR \<or> ended w \<noteq> []" "w = NotYet \<or> (\<exists>e. e \<noteq> EINTR \<and> w = WaitError e)"
  shows "crawler_process_get_status pids (ws @ w # rest) = Some (map (\<lambda>(p, s). end_report pids p s) (concat (map ended ws)))"
  using assms(1)
proof (induction ws)
  case Nil
  then show ?case using assms(2) by auto
next
  case (Cons a ws)
  then have "a = WaitError EINTR \<or> (\<exists>p s. a = Ended p s)" by (cases a) auto
  then show ?case using Cons by (auto simp: end_report_def)
qed

lemma pid_index_nth: "distinct pids \<Longrightarrow> i < length pids \<Longrightarrow> pid_index (pids ! i) pids = i"
proof (induction pids arbitrary: i)
  case (Cons p ps)
  show ?case
  proof (cases i)
    case (Suc j)
    then have "p \<noteq> ps ! j" using Cons.prems nth_mem [of j ps] by auto
    then show ?thesis using Cons Suc by simp
  qed simp
qed simp

lemma pid_index_none: "pid \<notin> set pids \<Longrightarrow> pid_index pid pids = length pids"
  by (induction pids) auto

lemma fork_loop_run:
  assumes "i \<le> length pids" "length pids - i \<le> length forks" "\<forall>p\<in>set (take (length pids - i) forks). p \<noteq> - 1 \<and> p \<noteq> 0"
  shows "fork_loop returns i pids forks = Some (Forked (take i pids @ take (length pids - i) forks))"
  using assms
proof (induction "length pids - i" arbitrary: i pids forks)
  case 0
  then show ?case by (subst fork_loop.simps) simp
next
  case (Suc n)
  then obtain p ps where f: "forks = p # ps" by (cases forks) auto
  have i: "i < length pids" using Suc.hyps(2) by simp
  have d: "length pids - i = Suc (length pids - Suc i)" using i by simp
  have "fork_loop returns (Suc i) (pids[i := p]) ps =
      Some (Forked (take (Suc i) (pids[i := p]) @ take (length (pids[i := p]) - Suc i) ps))"
    by (rule Suc.hyps(1)) (use Suc.hyps(2) Suc.prems i in \<open>simp_all add: f d\<close>)
  moreover have "take (Suc i) (pids[i := p]) = take i pids @ [p]" using i by (simp add: take_Suc_conv_app_nth)
  ultimately show ?case using Suc.prems(3) i by (subst fork_loop.simps) (simp add: f d)
qed

lemma fork_loop_child:
  assumes "i \<le> n" "n < length pids" "length forks > n - i" "forks ! (n - i) = 0" "\<forall>p\<in>set (take (n - i) forks). p \<noteq> - 1 \<and> p \<noteq> 0"
    and "\<not> returns n"
  shows "fork_loop returns i pids forks = Some (InChild n)"
  using assms
proof (induction "n - i" arbitrary: i pids forks)
  case 0
  then have "i = n" by simp
  then show ?case using 0 by (subst fork_loop.simps) (cases forks; simp)
next
  case (Suc m)
  then obtain p ps where f: "forks = p # ps" by (cases forks) auto
  have d: "n - i = Suc (n - Suc i)" "Suc i \<le> n" using Suc.hyps(2) by simp_all
  have "fork_loop returns (Suc i) (pids[i := p]) ps = Some (InChild n)"
    by (rule Suc.hyps(1)) (use Suc.hyps(2) Suc.prems in \<open>simp_all add: f d\<close>)
  moreover have "i < length pids" using Suc.prems(1,2) by simp
  ultimately show ?case using Suc.prems(5) by (subst fork_loop.simps) (simp add: f d)
qed

lemma master_loop_stops: "SIGINT \<in> set signals \<Longrightarrow> master_loop pids signals = Some (Stopped pids)"
  by (induction signals) auto

text \<open>
  A child whose \<open>sigaction\<close> fails goes on as a second master, and passes the signal on to process -1,
  which is every process there is.
\<close>

lemma returned_child_signals_all:
  "start_work_processes 1 True True True True (\<lambda>_. True) [0] [SIGINT] = Some (Stopped [- 1])"
  by (simp add: start_work_processes_def fork_loop.simps)

text \<open>When a later \<open>fork\<close> fails, the processes already started are not stopped.\<close>

lemma failed_fork_leaves_children:
  "start_work_processes 2 True True True True returns [700, - 1] signals = Some StartFailed"
proof -
  have "nat (sint (2 :: u32)) = Suc (Suc 0)" by simp
  then have "replicate (nat (sint (2 :: u32))) (- 1 :: int) = [- 1, - 1]" by (simp only: replicate.simps)
  then show ?thesis by (simp add: start_work_processes_def fork_loop.simps)
qed

section \<open>Properties\<close>

text \<open>How a child ends, and the status the kernel encodes that in (7 bits of signal, a core flag, 8 bits of exit code).\<close>

datatype ending = Exited u8 | Killed u8 bool

fun end_status :: "ending \<Rightarrow> u32" where
  "end_status (Exited code) = push_bit 8 (ucast code)"
| "end_status (Killed sig core) = ucast (take_bit 7 sig) OR (if core then 0x80 else 0)"

fun ending_report :: "nat \<Rightarrow> int \<Rightarrow> ending \<Rightarrow> report" where
  "ending_report i pid (Exited code) = WithCode i pid (ucast code)"
| "ending_report i pid (Killed sig core) = OnSignal i pid (ucast sig) core"

fun proper_end :: "ending \<Rightarrow> bool" where
  "proper_end (Killed sig core) \<longleftrightarrow> sig \<noteq> 0 \<and> take_bit 7 sig = sig"
| "proper_end _ \<longleftrightarrow> True"

lemma status_masks: "(0x7f :: u32) = mask 7" "(0xff00 :: u32) = push_bit 8 (mask 8)" "(0x80 :: u32) = push_bit 7 1"
  by (simp_all add: mask_eq_exp_minus_1 push_bit_eq_mult)

lemma bit_0x80: "bit (0x80 :: u32) n \<longleftrightarrow> n = 7"
  unfolding status_masks(3) by (simp only: bit_push_bit_iff bit_1_iff) auto

lemma byte_bit: "bit (c :: u8) n \<Longrightarrow> n < 8"
  using bit_imp_le_length [of c n] by simp

lemma exit_status: "WTERMSIG (push_bit 8 (ucast (c :: u8))) = 0" "WEXITSTATUS (push_bit 8 (ucast (c :: u8))) = ucast c"
  unfolding WTERMSIG_def WEXITSTATUS_def status_masks by (rule bit_word_eqI; auto simp: bit_simps dest: byte_bit)+

lemma signal_status:
  assumes "take_bit 7 sig = (sig :: u8)"
  shows "WTERMSIG (ucast sig OR (if core then 0x80 else 0)) = ucast sig" "WCOREDUMP (ucast sig OR (if core then 0x80 else 0)) = core"
proof -
  have b: "bit sig n \<Longrightarrow> n < 7" for n using arg_cong [OF assms, of "\<lambda>w. bit w n"] by (simp add: bit_simps)
  define k where "k = (if core then 0x80 else 0 :: u32)"
  have k: "bit k n \<longleftrightarrow> core \<and> n = 7" for n unfolding k_def by (cases core) (simp_all only: if_True if_False bit_0x80, simp_all)
  show "WTERMSIG (ucast sig OR (if core then 0x80 else 0)) = ucast sig"
    unfolding WTERMSIG_def status_masks(1) k_def [symmetric] by (rule bit_word_eqI) (auto simp: bit_simps k dest: b)
  have "(ucast sig OR k) AND 0x80 = k"
    by (rule bit_word_eqI) (simp only: bit_and_iff bit_or_iff bit_unsigned_iff bit_0x80 k, use b in auto)
  then show "WCOREDUMP (ucast sig OR (if core then 0x80 else 0)) = core"
    unfolding WCOREDUMP_def k_def by (cases core) simp_all
qed

lemma byte_zero: "ucast (c :: u8) = (0 :: u32) \<longleftrightarrow> c = 0"
proof
  assume z: "ucast c = (0 :: u32)"
  show "c = 0"
  proof (rule bit_word_eqI)
    fix n assume "n < LENGTH(8)"
    then show "bit c n = bit 0 n" using arg_cong [OF z, of "\<lambda>w. bit w n"] by (simp add: bit_simps)
  qed
qed simp

lemma end_report_status: "proper_end e \<Longrightarrow> end_report pids pid (end_status e) = ending_report (pid_index pid pids) pid e"
  by (cases e) (simp_all add: end_report_def exit_status signal_status byte_zero)

text \<open>
  C36: with at least one work process every URL belongs to exactly one of them: it is pushed to a list,
  and that list is the one of one process and of no other.
\<close>

theorem url_has_one_process:
  assumes "0 < sint wp"
  shows "push_url cmd wp url rs = redis_list_rpush cmd (shard wp url) url rs \<and> (\<exists>!n. n < nat (sint wp) \<and> shard wp url = work_key n)"
proof (intro conjI)
  have "wp \<noteq> 0" using assms by auto
  then show "push_url cmd wp url rs = redis_list_rpush cmd (shard wp url) url rs" by (simp add: push_url_def url_id_Some shard_def)
  show "\<exists>!n. n < nat (sint wp) \<and> shard wp url = work_key n" by (rule shard_unique [OF assms])
qed

theorem url_has_one_process_witness: "\<exists>!n. n < nat (sint (2 :: u32)) \<and> shard 2 (cstr ''http://a/'') = work_key n"
proof -
  have "0 < sint (2 :: u32)" by simp
  from conjunct2 [OF url_has_one_process [OF this]] show ?thesis .
qed

text \<open>
  C37: the seeds of the settings are pushed in their order, each to the list of its process, and nothing
  else on the server changes. When the server cannot be reached a first part of them has been pushed;
  from a server that always can, all.
\<close>

theorem get_url_seed_shards:
  fixes st :: "('k, 'r, 'a) crawl_state_scheme"
  assumes "redis_spec cmd lists_of bits_of" "ctx (redis st) = LiveCtx" "work_processes st \<noteq> 0"
  shows "\<exists>rs' n. get_url_seed cmd (Some urls) st = Some (st\<lparr>redis := rs'\<rparr>) \<and> ctx rs' = LiveCtx \<and>
    lists_of (server rs') = push_all (work_processes st) (take n urls) (lists_of (server (redis st))) \<and>
    bits_of (server rs') BLOOM = bits_of (server (redis st)) BLOOM \<and> (reliable cmd \<longrightarrow> n = length urls)"
proof -
  have "bloom_rep cmd lists_of bits_of (lists_of (server (redis st))) (redis st) (bits_of (server (redis st)) BLOOM)"
    using assms(1,2) by (simp add: bloom_rep_def)
  from seed_loop_run [OF this assms(3), of urls] obtain rs' n where "seed_loop cmd (work_processes st) urls (redis st) = Some rs'"
    "bloom_rep cmd lists_of bits_of (push_all (work_processes st) (take n urls) (lists_of (server (redis st)))) rs' (bits_of (server (redis st)) BLOOM)"
    "reliable cmd \<longrightarrow> n = length urls" by blast
  then show ?thesis by (intro exI [of _ rs'] exI [of _ n]) (simp add: get_url_seed_def bloom_rep_def)
qed

theorem get_url_seed_shards_witness:
  "\<exists>(st :: (int list, (bytes \<Rightarrow> bytes list) \<times> (bytes \<Rightarrow> u32 set)) crawl_state) rs'.
    get_url_seed ex_redis (Some [cstr ''http://a/'', cstr ''http://b/'']) st = Some (st\<lparr>redis := rs'\<rparr>) \<and>
    fst (server rs') = push_all 2 [cstr ''http://a/'', cstr ''http://b/''] (\<lambda>k. [])"
proof -
  obtain st :: "(int list, (bytes \<Rightarrow> bytes list) \<times> (bytes \<Rightarrow> u32 set)) crawl_state" where
    st: "redis st = ex_redis_state" "work_processes st = 2" using ex_crawl_pool by blast
  have "ctx (redis st) = LiveCtx" "work_processes st \<noteq> 0" using st by (simp_all add: ex_redis_state_def)
  from get_url_seed_shards [OF ex_redis_spec this, of "[cstr ''http://a/'', cstr ''http://b/'']"] show ?thesis
    using ex_reliable st by (intro exI [of _ st]) (auto simp: ex_redis_state_def)
qed

text \<open>
  C16: one round of a process takes the first URL of its list, if there is one, and asks the resolver for
  its host with \<open>create_http_client\<close> as the handler; if the resolver's cache holds the host, the client
  is created at once, for the address in the cache. (With \<open>connection_threshold\<close> or fewer connections
  free the state is not touched.)
\<close>

theorem fetch_url_next:
  fixes st :: "('k, 'r, 'a) crawl_state_scheme"
  assumes "redis_spec (env_cmd env) lists_of bits_of" "reliable (env_cmd env)" "ctx (redis st) = LiveCtx"
    and "lists_of (server (redis st)) key = w # ws" "length (w # ws) < 2 ^ 31" "0 \<notin> set w"
    and "create_http_url (env_url env) w (mem_script st) = Some (Some url, m)"
  shows "(get_free_connection_n st \<le> connection_threshold st \<longrightarrow> fetch_url env key True st = Some st) \<and>
    (connection_threshold st < get_free_connection_n st \<longrightarrow>
     (\<exists>s' st'. st' = st\<lparr>redis := (redis st)\<lparr>server := s'\<rparr>, mem_script := m\<rparr> \<and>
       lists_of s' = (lists_of (server (redis st)))(key := ws) \<and> bits_of s' = bits_of (server (redis st)) \<and>
       fetch_url env key True st = map_option snd (dns_query (dns_deliver env) st' url H_create_http_client) \<and>
       (\<forall>b U qs cs evs ad. dns_inv b st' U qs cs evs \<longrightarrow> map_of (cache_list st' cs) (u_host url) = Some ad \<longrightarrow>
          length (u_host url) < DNS_UDP_SIZE - sizeof_dns_header \<longrightarrow> fetch_url env key True st = create_http_client env url ad st')))"
proof (intro conjI impI)
  show "get_free_connection_n st \<le> connection_threshold st \<Longrightarrow> fetch_url env key True st = Some st" by (simp add: fetch_url_def leD)
next
  assume free: "connection_threshold st < get_free_connection_n st"
  have w: "takeWhile (\<lambda>c. c \<noteq> 0) w = w" using assms(6) by (simp add: takeWhile_eq_all_conv) metis
  obtain s' where s: "lists_of s' = (lists_of (server (redis st)))(key := ws)" "bits_of s' = bits_of (server (redis st))" and
    run: "fetch_url env key True st = do {
       (u, m) \<leftarrow> create_http_url (env_url env) (takeWhile (\<lambda>c. c \<noteq> 0) w) (mem_script st);
       case u of
         None \<Rightarrow> Some (st\<lparr>redis := (redis st)\<lparr>server := s'\<rparr>, mem_script := m\<rparr>)
       | Some url \<Rightarrow> do { (_, st) \<leftarrow> dns_query (dns_deliver env) (st\<lparr>redis := (redis st)\<lparr>server := s'\<rparr>, mem_script := m\<rparr>) url H_create_http_client;
                         Some st } }"
    by (rule fetch_url_run [OF assms(1-3) free assms(4,5)])
  let ?st' = "st\<lparr>redis := (redis st)\<lparr>server := s'\<rparr>, mem_script := m\<rparr>"
  have f: "fetch_url env key True st = map_option snd (dns_query (dns_deliver env) ?st' url H_create_http_client)"
    unfolding run w assms(7) by (cases "dns_query (dns_deliver env) ?st' url H_create_http_client") auto
  have c: "fetch_url env key True st = create_http_client env url ad ?st'"
    if "dns_inv b ?st' U qs cs evs" "map_of (cache_list ?st' cs) (u_host url) = Some ad" "length (u_host url) < DNS_UDP_SIZE - sizeof_dns_header"
    for b U qs cs evs ad
    unfolding f dns_query_hit [OF that] by (cases "create_http_client env url ad ?st'") (simp_all add: dns_deliver_def)
  show "\<exists>s' st'. st' = st\<lparr>redis := (redis st)\<lparr>server := s'\<rparr>, mem_script := m\<rparr> \<and>
       lists_of s' = (lists_of (server (redis st)))(key := ws) \<and> bits_of s' = bits_of (server (redis st)) \<and>
       fetch_url env key True st = map_option snd (dns_query (dns_deliver env) st' url H_create_http_client) \<and>
       (\<forall>b U qs cs evs ad. dns_inv b st' U qs cs evs \<longrightarrow> map_of (cache_list st' cs) (u_host url) = Some ad \<longrightarrow>
          length (u_host url) < DNS_UDP_SIZE - sizeof_dns_header \<longrightarrow> fetch_url env key True st = create_http_client env url ad st')"
    by (rule exI [of _ s'], rule exI [of _ ?st']) (use s f c in blast)
qed

definition ex_url :: bytes where "ex_url = cstr ''http://bbs.dgtle.com/''"

definition ex_env :: "(int list, (bytes \<Rightarrow> bytes list) \<times> (bytes \<Rightarrow> u32 set), (bytes \<times> bytes) list, unit) crawl_env" where
  "ex_env = \<lparr>env_ctl = ex_epoll, env_close = ex_close, env_cmd = ex_redis, env_gumbo = (\<lambda>_. Some ex_root), env_attr = map_of,
     env_inflateInit2 = (\<lambda>_. None), env_inflate = (\<lambda>z n. (Z_STREAM_END, [], z)), env_url = ex_parse_url, env_junk = (\<lambda>_. 0), env_value = 0,
     env_pkt = replicate DNS_UDP_SIZE 0, env_client = (\<lambda>_. 700),
     env_dial = (\<lambda>_ _. \<lparr>d_fd = 5, d_nonblocking = 0, d_connect = EINPROGRESS\<rparr>), env_ssl = (\<lambda>_. None), env_connect = (\<lambda>_ _. None)\<rparr>"

lemma ex_url_split:
  "create_http_url ex_parse_url ex_url [] = Some (Some \<lparr>u_schema = cstr ''http'', u_host = cstr ''bbs.dgtle.com'', u_port = 80, u_path = cstr ''/''\<rparr>, [])"
  by code_simp

theorem fetch_url_next_witness:
  "\<exists>(st :: (int list, (bytes \<Rightarrow> bytes list) \<times> (bytes \<Rightarrow> u32 set)) crawl_state) st' url.
    fst (server (redis st)) (work_key 1) = [ex_url] \<and> fst (server (redis st')) (work_key 1) = [] \<and> u_host url = cstr ''bbs.dgtle.com'' \<and>
    fetch_url ex_env (work_key 1) True st = map_option snd (dns_query (dns_deliver ex_env) st' url H_create_http_client)"
proof -
  obtain st0 :: "(int list, (bytes \<Rightarrow> bytes list) \<times> (bytes \<Rightarrow> u32 set)) crawl_state" where "redis st0 = ex_redis_state" using ex_crawl_pool by blast
  define st where "st = st0\<lparr>free_connection_n := 1024, mem_script := [], connection_threshold := 1000,
    redis := \<lparr>ctx = LiveCtx, server = ((\<lambda>k. []) (work_key 1 := [ex_url]), \<lambda>k. {})\<rparr>\<rparr>"
  have e: "redis_spec (env_cmd ex_env) fst snd" "reliable (env_cmd ex_env)" "ctx (redis st) = LiveCtx"
    "fst (server (redis st)) (work_key 1) = [ex_url]" "length [ex_url] < 2 ^ 31" "0 \<notin> set ex_url"
    "create_http_url (env_url ex_env) ex_url (mem_script st) = Some (Some \<lparr>u_schema = cstr ''http'', u_host = cstr ''bbs.dgtle.com'', u_port = 80, u_path = cstr ''/''\<rparr>, [])"
    using ex_redis_spec ex_reliable ex_url_split by (simp_all add: ex_env_def st_def ex_url_def cstr_def of_char_def)
  have "connection_threshold st < get_free_connection_n st" by (simp add: st_def get_free_connection_n_def)
  from conjunct2 [OF fetch_url_next [OF e], rule_format, OF this] obtain s' st' where
    "st' = st\<lparr>redis := (redis st)\<lparr>server := s'\<rparr>, mem_script := []\<rparr>" "fst s' = (fst (server (redis st)))(work_key 1 := [])"
    "fetch_url ex_env (work_key 1) True st = map_option snd (dns_query (dns_deliver ex_env) st'
      \<lparr>u_schema = cstr ''http'', u_host = cstr ''bbs.dgtle.com'', u_port = 80, u_path = cstr ''/''\<rparr> H_create_http_client)" by blast
  then show ?thesis using e(4) by (intro exI [of _ st] exI [of _ st'] exI
    [of _ "\<lparr>u_schema = cstr ''http'', u_host = cstr ''bbs.dgtle.com'', u_port = 80, u_path = cstr ''/''\<rparr>"]) simp
qed

text \<open>
  C0: \<open>SIGINT\<close> ends a work process: the loop is left before the next round begins, whatever that would
  have been, and the connection to the server is given up; until then it goes on after every round.
\<close>

theorem work_loop_stops:
  fixes st :: "('k, 'r, 'a) crawl_state_scheme"
  assumes "ctx (redis st) = LiveCtx" "\<not> crawler_quit st"
  shows "work_loop env key ((signals, alloc, res) # rounds) st =
    (if SIGINT \<in> set signals then Some (st\<lparr>redis := (redis st)\<lparr>ctx := NullCtx\<rparr>, crawler_quit := True\<rparr>)
     else do { st \<leftarrow> work_round env key alloc res st; work_loop env key rounds st })"
proof -
  have q: "fold crawler_signal_handler signals st = (if SIGINT \<in> set signals then st\<lparr>crawler_quit := True\<rparr> else st)" for st :: "('k, 'r, 'a) crawl_state_scheme"
    by (induction signals arbitrary: st) (simp_all add: crawler_signal_handler_def)
  have "st\<lparr>crawler_quit := True, redis := (redis st)\<lparr>ctx := NullCtx\<rparr>\<rparr> = st\<lparr>redis := (redis st)\<lparr>ctx := NullCtx\<rparr>, crawler_quit := True\<rparr>"
    by (cases st) simp
  then show ?thesis using assms by (simp add: q redis_free_def)
qed

lemma ex_crawl_quit: "\<exists>st :: (int list, (bytes \<Rightarrow> bytes list) \<times> (bytes \<Rightarrow> u32 set)) crawl_state. redis st = ex_redis_state \<and> \<not> crawler_quit st"
proof -
  obtain st :: "(int list, (bytes \<Rightarrow> bytes list) \<times> (bytes \<Rightarrow> u32 set)) crawl_state" where "redis st = ex_redis_state" using ex_crawl_pool by blast
  then show ?thesis by (intro exI [of _ "st\<lparr>crawler_quit := False\<rparr>"]) simp
qed

theorem work_loop_stops_witness:
  "\<exists>(st :: (int list, (bytes \<Rightarrow> bytes list) \<times> (bytes \<Rightarrow> u32 set)) crawl_state) st'.
    work_loop ex_env (work_key 0) [([SIGCHLD, SIGINT], True, WaitEvents [])] st = Some st' \<and> crawler_quit st' \<and> ctx (redis st') = NullCtx"
proof -
  obtain st :: "(int list, (bytes \<Rightarrow> bytes list) \<times> (bytes \<Rightarrow> u32 set)) crawl_state" where s: "redis st = ex_redis_state" "\<not> crawler_quit st" using ex_crawl_quit by blast
  then have c: "ctx (redis st) = LiveCtx" by (simp add: ex_redis_state_def)
  from work_loop_stops [OF c s(2), of ex_env "work_key 0" "[SIGCHLD, SIGINT]" True "WaitEvents []" "[]"] show ?thesis
    by (intro exI [of _ st] exI [of _ "st\<lparr>redis := (redis st)\<lparr>ctx := NullCtx\<rparr>, crawler_quit := True\<rparr>"]) (simp del: work_loop.simps)
qed

text \<open>
  C38: starting the work processes: when all can be forked the master has the process numbers of as many
  children as the settings say, in the order of their lists, and ends when \<open>SIGINT\<close> arrives, passing it
  on to exactly these; and the child that was forked \<open>n\<close>-th becomes the work process \<open>n\<close>.
\<close>

theorem start_work_processes_all:
  assumes "\<forall>p\<in>set forks. p \<noteq> - 1 \<and> p \<noteq> 0" "SIGINT \<in> set signals"
  shows "(length forks = nat (sint wp) \<longrightarrow>
      start_work_processes wp True True True True returns (forks @ rest) signals = Some (Stopped forks)) \<and>
    (length forks < nat (sint wp) \<longrightarrow> \<not> returns (length forks) \<longrightarrow>
      start_work_processes wp True True True True returns (forks @ 0 # rest) signals = Some (WorkProcess (length forks)))"
proof (intro conjI impI)
  assume l: "length forks = nat (sint wp)"
  have "fork_loop returns 0 (replicate (nat (sint wp)) (- 1)) (forks @ rest) = Some (Forked forks)"
    using fork_loop_run [of 0 "replicate (nat (sint wp)) (- 1)" "forks @ rest" returns] assms(1) l by simp
  then show "start_work_processes wp True True True True returns (forks @ rest) signals = Some (Stopped forks)"
    using master_loop_stops [OF assms(2)] by (simp add: start_work_processes_def)
next
  assume l: "length forks < nat (sint wp)" "\<not> returns (length forks)"
  have "fork_loop returns 0 (replicate (nat (sint wp)) (- 1)) (forks @ 0 # rest) = Some (InChild (length forks))"
    using fork_loop_child [of 0 "length forks" "replicate (nat (sint wp)) (- 1)" "forks @ 0 # rest" returns] assms(1) l by simp
  then show "start_work_processes wp True True True True returns (forks @ 0 # rest) signals = Some (WorkProcess (length forks))"
    by (simp add: start_work_processes_def)
qed

theorem start_work_processes_all_witness:
  "start_work_processes 2 True True True True (\<lambda>_. False) [700, 701] [SIGCHLD, SIGINT] = Some (Stopped [700, 701]) \<and>
   start_work_processes 2 True True True True (\<lambda>_. False) [700, 0] [SIGINT] = Some (WorkProcess 1)"
proof -
  have two: "length [700, 701 :: int] = nat (sint (2 :: u32))" by simp
  have one: "length [700 :: int] < nat (sint (2 :: u32))" "\<not> (\<lambda>_. False) (length [700 :: int])" by simp_all
  have a: "\<forall>p\<in>set [700, 701 :: int]. p \<noteq> - 1 \<and> p \<noteq> 0" "SIGINT \<in> set [SIGCHLD, SIGINT]" by simp_all
  have b: "\<forall>p\<in>set [700 :: int]. p \<noteq> - 1 \<and> p \<noteq> 0" "SIGINT \<in> set [SIGINT]" by simp_all
  from start_work_processes_all [OF a, THEN conjunct1, rule_format, OF two, of "\<lambda>_. False" "[]"]
    start_work_processes_all [OF b, THEN conjunct2, rule_format, OF one, of "[]"]
  show ?thesis by simp
qed

text \<open>
  C39: every child that has ended is reported, once, with the number of its work process and the way it
  ended (exit code, or signal and whether it left a core), in the order of the answers of \<open>waitpid\<close>;
  interrupted calls are repeated, and the loop ends when no child is waiting or at an error.
\<close>

theorem ended_children_reported:
  assumes "\<forall>w\<in>set ws. w = WaitError EINTR \<or> (\<exists>pid e. proper_end e \<and> w = Ended pid (end_status e))"
    and "w = NotYet \<or> (\<exists>e. e \<noteq> EINTR \<and> w = WaitError e)" "distinct pids"
  shows "\<exists>rs. crawler_process_get_status pids (ws @ w # rest) = Some rs \<and>
    length rs = length (filter (\<lambda>w. w \<noteq> WaitError EINTR) ws) \<and>
    (\<forall>e i. proper_end e \<longrightarrow> i < length pids \<longrightarrow> filter (\<lambda>w. w \<noteq> WaitError EINTR) ws ! k = Ended (pids ! i) (end_status e) \<longrightarrow>
      k < length rs \<longrightarrow> rs ! k = ending_report i (pids ! i) e)"
proof -
  let ?es = "filter (\<lambda>w. w \<noteq> WaitError EINTR) ws"
  have e: "\<forall>w\<in>set ws. w = WaitError EINTR \<or> ended w \<noteq> []" using assms(1) by fastforce
  have "concat (map ended ws) = map (\<lambda>w. hd (ended w)) ?es" 
    using e
  proof (induction ws)
    case (Cons a ws)
    then show ?case by (cases a) auto
  qed simp
  then have "crawler_process_get_status pids (ws @ w # rest) = Some (map (\<lambda>w. case hd (ended w) of (p, s) \<Rightarrow> end_report pids p s) ?es)"
    unfolding get_status_run [OF e assms(2)] by (simp add: case_prod_unfold)
  then show ?thesis by (intro exI conjI) (auto simp: end_report_status pid_index_nth [OF assms(3)])
qed

theorem ended_children_reported_witness:
  "crawler_process_get_status [700, 701] [WaitError EINTR, Ended 701 (end_status (Killed 11 True)), NotYet] = Some [OnSignal 1 701 11 True]"
proof -
  have p: "proper_end (Killed 11 True)" by simp
  then have a: "\<forall>w\<in>set [WaitError EINTR, Ended 701 (end_status (Killed 11 True))].
      w = WaitError EINTR \<or> (\<exists>pid e. proper_end e \<and> w = Ended pid (end_status e))" by (metis insertE list.set(2) empty_iff list.set(1))
  have "distinct [700, 701 :: int]" by simp
  from ended_children_reported [OF a disjI1 [OF refl] this, where k = 0] obtain rs where
    r: "crawler_process_get_status [700, 701] ([WaitError EINTR, Ended 701 (end_status (Killed 11 True))] @ NotYet # []) = Some rs"
    "length rs = 1" "\<forall>e i. proper_end e \<longrightarrow> i < 2 \<longrightarrow> Ended 701 (end_status (Killed 11 True)) = Ended ([700, 701] ! i) (end_status e) \<longrightarrow>
      rs ! 0 = ending_report i ([700, 701] ! i) e" by force
  have "rs ! 0 = ending_report 1 701 (Killed 11 True)" using r(3) [rule_format, of "Killed 11 True" 1] p by simp
  then show ?thesis using r(1,2) by (cases rs) simp_all
qed

end
