(* ===== verification/Spec2Isabelle.thy ===== *)
theory Spec2Isabelle
  imports Murmur3 Queue Dns_Machine Process_Cycle
begin

text \<open>
  A verification library for the asynchronous crawler under \<^verbatim>\<open>src/\<close>, a C program of one master and
  several work processes that share work lists and a Bloom filter on a Redis server.

  \<^bold>\<open>The program.\<close> \<^verbatim>\<open>crawler.c\<close> reads the settings and pushes the seed URLs to the lists of the work
  processes, then forks them (\<^verbatim>\<open>process_cycle.c\<close>). A work process repeats one round: it takes a URL from
  its list, asks the resolver (\<^verbatim>\<open>async_dns.c\<close>) for the host, lets \<open>event_process\<close> run the handlers of the
  events that are ready (\<^verbatim>\<open>event.c\<close>) and \<open>event_expire_timers\<close> those whose time has come
  (\<^verbatim>\<open>event_timer.c\<close>, over the red-black tree of \<^verbatim>\<open>rbtree.c\<close>). An answered host makes an HTTP client
  (\<^verbatim>\<open>http_client.c\<close>) on a connection of the pool (\<^verbatim>\<open>connection.c\<close>, with TLS where the URL asks for it),
  which sends its request, reads and decodes the response and hands the page to \<^verbatim>\<open>html_parser.c\<close>. That
  searches the page; links not yet in the filter (\<^verbatim>\<open>bloom_filter.c\<close>, over \<^verbatim>\<open>murmur3.c\<close> and
  \<^verbatim>\<open>redis_func.c\<close>) are pushed to the list of their process, by the hash of the URL. The master reports
  children that end and passes \<open>SIGINT\<close> on to them.

  \<^bold>\<open>The theories\<close>, in the order of their imports:
  \<^item> \<open>Prelude\<close>: machine words, byte buffers with checked accesses, and the lemmas all share.
  \<^item> \<open>Murmur3\<close> (\<^verbatim>\<open>murmur3.c\<close>): the three hash functions with the indices of the code, equal to reference
    folds over blocks; locale \<open>seeded_hash\<close>.
  \<^item> \<open>Queue\<close> (\<^verbatim>\<open>queue.h\<close>): the intrusive queue over a heap of links implements lists; locale
    \<open>intrusive_queue\<close>, which the resolver's two queues rest on.
  \<^item> \<open>Rbtree_Spec\<close>, \<open>Rbtree\<close>, \<open>Rbtree_Insert\<close>, \<open>Rbtree_Delete\<close>, \<open>Rbtree_Props\<close> (\<^verbatim>\<open>rbtree.c\<close>, \<^verbatim>\<open>rbtree.h\<close>): the
    pointer program refines functions on coloured trees; both loops end; locale \<open>timer_tree\<close>.
  \<^item> \<open>Event_Timer\<close> (\<^verbatim>\<open>event_timer.c\<close>, \<^verbatim>\<open>event_timer.h\<close>): timers over that contract, the invariant
    \<open>timers_ok\<close>, what expires and in which order.
  \<^item> \<open>Event\<close> (\<^verbatim>\<open>event.c\<close>): the epoll loop; the kernel's interest list and the active flags agree.
  \<^item> \<open>Connection\<close> and \<open>Connection_Io\<close> (\<^verbatim>\<open>connection.c\<close>): the pool with its invariant \<open>pool_inv\<close> (locale
    \<open>connection_pool\<close>), and the socket and TLS functions.
  \<^item> \<open>Http_Buf\<close>, \<open>Http_Head\<close>, \<open>Http_Html\<close>, \<open>Http_Client\<close> (\<^verbatim>\<open>http_client.c\<close>): buffers and decompression, the
    head, the body, and the life of a client from its connection to its release.
  \<^item> \<open>Dns_Packet\<close>, \<open>Async_Dns\<close>, \<open>Dns_Props\<close>, \<open>Dns_Machine\<close> (\<^verbatim>\<open>async_dns.c\<close>): packets and URLs, then cache,
    queries, answers and timeouts with their invariant \<open>dns_inv\<close>, and the resolver as a state machine.
  \<^item> \<open>Redis\<close> (\<^verbatim>\<open>redis_func.c\<close>, \<^verbatim>\<open>bloom_filter.c\<close>): the commands and the filter over them; locale \<open>bitmap\<close>.
  \<^item> \<open>Html_Parser\<close> (\<^verbatim>\<open>html_parser.c\<close>): the searches of a page are folds over the list of its links and
    of its fields, and a page that is worked off releases its client.
  \<^item> \<open>Process_Cycle\<close> (\<^verbatim>\<open>process_cycle.c\<close>, \<^verbatim>\<open>crawler.c\<close>): seeds, the main loop and the master. \<open>crawl_call\<close>
    is the call through an event's handler pointer and closes the circle of the components.

  \<^bold>\<open>State.\<close> The global variables and heaps of the program are one record that grows along the imports:
  \<open>ev_state\<close>, \<open>conn_state\<close>, \<open>http_state\<close>, \<open>dns_state\<close>, \<open>crawl_state\<close>, each the extension of the one before.
  Every operation is polymorphic in what is added later, so that a handler may change all of it.
  Objects are addressed by 32-bit words and live in partial maps; an event and its timer node, a query
  and its event, are at fixed distances as the fields of a C structure are. Undefined behaviour (a bad
  pointer, an access outside a buffer, the use of an uninitialised variable) is \<^term>\<open>None\<close>: theorems
  that a result is \<^term>\<open>Some\<close> exclude it, and show that the loops end.

  \<^bold>\<open>The outside world.\<close> Answers of system calls and of OpenSSL are a script, one entry per call; results
  of allocations are the lists \<open>mem_script\<close> and \<open>dns_mem\<close>; the clock is a sequence of readings; the rounds,
  signals, forks and ended children of the processes are lists. None of these lists is a bound on the
  program: the theorems hold for every list, and a run that needs more entries than there are has no
  result. There is no fuel: loops without a structural measure have termination proofs, and those that
  call handlers are least fixed points whose results are proved to exist. The kernel's epoll, zlib,
  gumbo, \<open>http_parser_parse_url\<close> and the Redis server are parameters; \<open>epoll_spec\<close> and \<open>redis_spec\<close> say
  what is documented of them, and example instances satisfy these hypotheses in the witnesses.

  \<^bold>\<open>What is shown.\<close> For each component: that its operations keep its invariant and do what they promise
  on every branch, failures included. Across components: a response that has arrived ends with its page
  handed to the parser; a query is answered, or dropped at its third timeout; links found and
  seeds given end up in the list of exactly one process; nothing put into the filter is reported absent;
  connections, TLS objects and clients are given back. Where the code does not do what it means to,
  lemmas show it (for instance \<open>chunk_length_split_lost\<close>, \<open>pack_udp_overflow\<close>, \<open>failed_init_dangles\<close>).

  \<^bold>\<open>Not modelled.\<close> The log macros of \<^verbatim>\<open>simple_log.h\<close> (their output is read by no part), the headers
  \<^verbatim>\<open>linux_config.h\<close> and \<^verbatim>\<open>core.h\<close> (no code), \<^verbatim>\<open>backup/\<close> (not built), the test drivers, and the functions
  that only call Lua or the operating system (\<open>init_lua_state\<close>, \<open>free_lua_state\<close>, \<open>process_setaffinity\<close>).
  Which address an allocation returns is an answer of the allocator; that it is not in use is a
  hypothesis where it matters. Signal handlers run between rounds.
\<close>

section \<open>From the settings to the processes\<close>

text \<open>
  C5: starting the program on empty work lists with a server that is always reachable: each seed of the
  settings ends up in the list of exactly one of the work processes, every process finds its seeds in
  the order of the settings, and the master has given up its connection when the processes start.
\<close>

theorem seeds_reach_processes:
  fixes st :: "('k, 'r, 'a) crawl_state_scheme"
  assumes "redis_spec cmd lists_of bits_of" "reliable cmd" "lists_of (server (redis st)) = (\<lambda>_. [])"
    and "wp = word_of_int n" "0 < sint wp" "start wp = Some out"
  shows "\<exists>st'. crawler_main cmd (Some False) (Some n) threshold (Some urls) start st = Some (0, Some out, st') \<and>
    work_processes st' = wp \<and> ctx (redis st') = NullCtx \<and>
    (\<forall>i. lists_of (server (redis st')) (work_key i) = filter (\<lambda>u. shard wp u = work_key i) urls) \<and>
    (\<forall>u\<in>set urls. \<exists>!i. i < nat (sint wp) \<and> u \<in> set (lists_of (server (redis st')) (work_key i)))"
proof -
  define st1 where "st1 = get_connection_threshold threshold (get_work_processes (Some n) (st\<lparr>redis := (redis st)\<lparr>ctx := LiveCtx\<rparr>\<rparr>))"
  have s1: "redis st1 = (redis st)\<lparr>ctx := LiveCtx\<rparr>" "work_processes st1 = wp"
    by (simp_all add: st1_def get_connection_threshold_def get_work_processes_def assms(4))
  have "bloom_rep cmd lists_of bits_of (\<lambda>_. []) (redis st1) (bits_of (server (redis st)) BLOOM)" using assms(1,3) s1(1) by (simp add: bloom_rep_def)
  moreover have "wp \<noteq> 0" using assms(5) by auto
  ultimately obtain rs where r: "seed_loop cmd wp urls (redis st1) = Some rs"
    "bloom_rep cmd lists_of bits_of (push_all wp urls (\<lambda>_. [])) rs (bits_of (server (redis st)) BLOOM)"
    using seed_loop_run [of cmd lists_of bits_of "\<lambda>_. []" "redis st1" _ wp urls] assms(2) by fastforce
  let ?st' = "st1\<lparr>redis := rs\<lparr>ctx := NullCtx\<rparr>\<rparr>"
  have c: "ctx rs = LiveCtx" "lists_of (server rs) = push_all wp urls (\<lambda>_. [])" using r(2) by (simp_all add: bloom_rep_def)
  have "crawler_main cmd (Some False) (Some n) threshold (Some urls) start st = Some (0, Some out, ?st')"
    using r(1) s1(2) c(1) assms(6) by (simp add: crawler_main_def redis_init_def st1_def [symmetric] get_url_seed_def redis_free_def)
  moreover have l: "lists_of (server rs) (work_key i) = filter (\<lambda>u. shard wp u = work_key i) urls" for i
    by (simp add: c(2) push_all_def)
  moreover have "\<exists>!i. i < nat (sint wp) \<and> u \<in> set (lists_of (server rs) (work_key i))" if "u \<in> set urls" for u
    using shard_unique [OF assms(5), of u] that unfolding l by simp
  ultimately show ?thesis using s1(2) by (intro exI [of _ ?st']) simp
qed

theorem seeds_reach_processes_witness:
  "\<exists>(st :: (int list, (bytes \<Rightarrow> bytes list) \<times> (bytes \<Rightarrow> u32 set)) crawl_state) st'.
    crawler_main ex_redis (Some False) (Some 2) None (Some [ex_url]) (\<lambda>_. Some StartFailed) st = Some (0, Some StartFailed, st') \<and>
    (\<exists>!i. i < 2 \<and> ex_url \<in> set (fst (server (redis st')) (work_key i)))"
proof -
  obtain st :: "(int list, (bytes \<Rightarrow> bytes list) \<times> (bytes \<Rightarrow> u32 set)) crawl_state" where "redis st = ex_redis_state" using ex_crawl_quit by blast
  then have l: "fst (server (redis st)) = (\<lambda>_. [])" by (simp add: ex_redis_state_def)
  have w: "(2 :: u32) = word_of_int 2" "0 < sint (2 :: u32)" "(\<lambda>_. Some StartFailed) (2 :: u32) = Some StartFailed" by simp_all
  have two: "nat (sint (2 :: u32)) = 2" by simp
  from seeds_reach_processes [OF ex_redis_spec ex_reliable l w, of None "[ex_url]"] obtain st' where
    "crawler_main ex_redis (Some False) (Some 2) None (Some [ex_url]) (\<lambda>_. Some StartFailed) st = Some (0, Some StartFailed, st')"
    "\<forall>u\<in>set [ex_url]. \<exists>!i. i < nat (sint (2 :: u32)) \<and> u \<in> set (fst (server (redis st')) (work_key i))" by blast
  then show ?thesis unfolding two by (intro exI [of _ st] exI [of _ st']) simp
qed

end
